(* ===== verification/Prelude.thy ===== *)
theory Prelude
  imports Main
begin

text \<open>
  What every component of the model shares: how a C function can stop other than by
  returning, the error-propagating sequencing of calls, C strings as character
  lists that end before the first NUL, arrays with bounds-checked access, the width of
  size_t, and the fact collections that carry the proofs of the components.
\<close>

section \<open>Outcomes of a call\<close>

text \<open>
  A C function of the program returns a value, ends the process, or runs into undefined
  behaviour. The last two are values of the type \<open>fault\<close>; a call is \<open>fault + 'a\<close>.
\<close>

datatype fault =
    Exit nat              \<comment> \<open>\<open>_exit(n)\<close>\<close>
  | Abort                 \<comment> \<open>\<open>abort()\<close>\<close>
  | Out_of_bounds         \<comment> \<open>access outside an object\<close>
  | Null_deref            \<comment> \<open>access through NULL\<close>
  | Uninitialised         \<comment> \<open>use of an indeterminate value\<close>
  | Use_after_free        \<comment> \<open>access to a released object\<close>
  | Bad_free              \<comment> \<open>\<open>free\<close> of a pointer that is not a live allocation\<close>
  | Int_overflow          \<comment> \<open>signed overflow\<close>
  | Diverges              \<comment> \<open>a loop that never ends\<close>

type_synonym 'a res = "fault + 'a"

definition res_bind :: "'a res \<Rightarrow> ('a \<Rightarrow> 'b res) \<Rightarrow> 'b res" where
  "res_bind m f = (case m of Inl e \<Rightarrow> Inl e | Inr x \<Rightarrow> f x)"

named_theorems res_simps \<open>rewriting of sequenced calls\<close>
named_theorems guard_defs \<open>unfolding of the bounds-checked primitives\<close>

lemma res_bind_Inl [simp]: "res_bind (Inl e) f = Inl e"
  by (simp add: res_bind_def)

lemma res_bind_Inr [simp]: "res_bind (Inr x) f = f x"
  by (simp add: res_bind_def)

lemma res_bind_eq_Inr [res_simps]:
  "res_bind m f = Inr y \<longleftrightarrow> (\<exists>x. m = Inr x \<and> f x = Inr y)"
  by (cases m) auto

lemma res_bind_eq_Inl [res_simps]:
  "res_bind m f = Inl e \<longleftrightarrow> m = Inl e \<or> (\<exists>x. m = Inr x \<and> f x = Inl e)"
  by (cases m) auto

lemma res_bind_assoc: "res_bind (res_bind m f) g = res_bind m (\<lambda>x. res_bind (f x) g)"
  by (cases m) auto

text \<open>A call that does not run into a given fault, and whose result satisfies a predicate if it returns.\<close>

definition avoids :: "fault \<Rightarrow> ('a \<Rightarrow> bool) \<Rightarrow> 'a res \<Rightarrow> bool" where
  "avoids e P r = (case r of Inl e' \<Rightarrow> e' \<noteq> e | Inr x \<Rightarrow> P x)"

abbreviation ends_with :: "('a \<Rightarrow> bool) \<Rightarrow> 'a res \<Rightarrow> bool" where
  "ends_with \<equiv> avoids Diverges"

lemma avoids_Inr [simp]: "avoids e P (Inr x) = P x"
  by (simp add: avoids_def)

lemma avoids_Inl [simp]: "avoids e P (Inl e') = (e' \<noteq> e)"
  by (simp add: avoids_def)

lemma avoids_True: "avoids e (\<lambda>_. True) r \<longleftrightarrow> r \<noteq> Inl e"
  by (cases r) auto

lemma avoids_bind: "avoids e P m \<Longrightarrow> (\<And>x. P x \<Longrightarrow> avoids e Q (f x)) \<Longrightarrow> avoids e Q (res_bind m f)"
  by (cases m) auto

section \<open>Sizes\<close>

text \<open>\<open>size_t\<close> has 64 bits; sums wrap around and a negative \<open>int\<close> converts modulo \<open>2 ^ 64\<close>.\<close>

definition SIZE_LIMIT :: nat where
  "SIZE_LIMIT = 2 ^ 64"

definition size_add :: "nat \<Rightarrow> nat \<Rightarrow> nat" where
  "size_add a b = (a + b) mod SIZE_LIMIT"

definition size_of_int :: "int \<Rightarrow> nat" where
  "size_of_int i = nat (i mod 2 ^ 64)"

definition SIZE_MAX :: nat where
  "SIZE_MAX = SIZE_LIMIT - 1"

lemma SIZE_LIMIT_val: "SIZE_LIMIT = 18446744073709551616"
  by (simp add: SIZE_LIMIT_def)

lemma size_add_small: "a + b < SIZE_LIMIT \<Longrightarrow> size_add a b = a + b"
  by (simp add: size_add_def)

lemma size_of_int_nonneg: "0 \<le> i \<Longrightarrow> i < 2 ^ 64 \<Longrightarrow> size_of_int i = nat i"
  by (simp add: size_of_int_def)

lemma size_of_int_minus_one: "size_of_int (- 1) = SIZE_MAX"
  by (simp add: size_of_int_def SIZE_MAX_def SIZE_LIMIT_val)

section \<open>C strings\<close>

definition NUL :: char where "NUL = CHR 0x00"
definition LF :: char where "LF = CHR 0x0A"
definition CR :: char where "CR = CHR 0x0D"
definition TAB :: char where "TAB = CHR 0x09"

text \<open>The string that starts at the first byte of an object: the bytes before the first NUL.\<close>

definition cstr :: "char list \<Rightarrow> string" where
  "cstr bs = takeWhile (\<lambda>c. c \<noteq> NUL) bs"

text \<open>A proper string value holds no NUL of its own.\<close>

definition nul_free :: "string \<Rightarrow> bool" where
  "nul_free s \<longleftrightarrow> NUL \<notin> set s"

lemma cstr_nul_free [simp]: "nul_free (cstr bs)"
  by (auto simp: nul_free_def cstr_def dest: set_takeWhileD)

lemma cstr_id: "nul_free s \<Longrightarrow> cstr s = s"
  by (auto simp: nul_free_def cstr_def takeWhile_eq_all_conv)

lemma cstr_append_NUL: "nul_free s \<Longrightarrow> cstr (s @ NUL # t) = s"
  by (subst cstr_def, subst takeWhile_append2) (auto simp: nul_free_def)

lemma cstr_split: "cstr w \<noteq> w \<Longrightarrow> \<exists>r. w = cstr w @ NUL # r"
  by (induction w) (auto simp: cstr_def)

lemma nul_free_append [simp]: "nul_free (a @ b) \<longleftrightarrow> nul_free a \<and> nul_free b"
  by (auto simp: nul_free_def)

lemma nul_free_Nil [simp]: "nul_free []"
  by (simp add: nul_free_def)

lemma nul_free_Cons [simp]: "nul_free (c # s) \<longleftrightarrow> c \<noteq> NUL \<and> nul_free s"
  by (auto simp: nul_free_def)

section \<open>Arrays\<close>

text \<open>An array is the list of its elements; every access is checked against its length.\<close>

definition arr_get :: "'a list \<Rightarrow> nat \<Rightarrow> 'a res" where
  "arr_get xs i = (if i < length xs then Inr (xs ! i) else Inl Out_of_bounds)"

definition arr_set :: "'a list \<Rightarrow> nat \<Rightarrow> 'a \<Rightarrow> 'a list res" where
  "arr_set xs i v = (if i < length xs then Inr (xs[i := v]) else Inl Out_of_bounds)"

text \<open>\<open>blit dst off src\<close> is \<open>memcpy(dst + off, src, length src)\<close>.\<close>

definition blit :: "'a list \<Rightarrow> nat \<Rightarrow> 'a list \<Rightarrow> 'a list res" where
  "blit dst off src =
     (if off + length src \<le> length dst
      then Inr (take off dst @ src @ drop (off + length src) dst)
      else Inl Out_of_bounds)"

text \<open>The \<open>n\<close> elements that start at \<open>off\<close>.\<close>

definition slice :: "'a list \<Rightarrow> nat \<Rightarrow> nat \<Rightarrow> 'a list res" where
  "slice xs off n = (if off + n \<le> length xs then Inr (take n (drop off xs)) else Inl Out_of_bounds)"

declare arr_get_def [guard_defs] arr_set_def [guard_defs] blit_def [guard_defs] slice_def [guard_defs]

lemma arr_set_append_None: "arr_set (xs @ y # ys) (length xs) v = Inr (xs @ v # ys)"
  by (simp add: arr_set_def)

lemma blit_length: "blit dst off src = Inr d \<Longrightarrow> length d = length dst"
  by (auto simp: blit_def split: if_splits)

section \<open>Flags\<close>

unbundle bit_operations_syntax

lemma and_or_distrib_nat: "((a::nat) OR b) AND c = (a AND c) OR (b AND c)"
  by (rule bit_eqI) (auto simp: bit_simps)

lemma and_or_absorb_nat: "((a::nat) AND c) OR c = c"
  by (rule bit_eqI) (auto simp: bit_simps)

section \<open>Printing numbers\<close>

fun show_nat :: "nat \<Rightarrow> string" where
  "show_nat n = (if n < 10 then [char_of (48 + n)] else show_nat (n div 10) @ [char_of (48 + n mod 10)])"

declare show_nat.simps [simp del]

definition show_int :: "int \<Rightarrow> string" where
  "show_int i = (if i < 0 then ''-'' @ show_nat (nat (- i)) else show_nat (nat i))"

section \<open>Handler results\<close>

definition HANDLER_FAILURE :: int where "HANDLER_FAILURE = 1"
definition HANDLER_INVALID_INVOCATION :: int where "HANDLER_INVALID_INVOCATION = 2"

end
