(* ===== verification/Memory.thy ===== *)
theory Memory
  imports Prelude
begin

text \<open>
  The memory helpers of src/util.c: the allocators that end the process when memory runs
  out, string duplication, the resizing of arrays and the release of pointer vectors.

  \<open>mem n\<close> says whether \<open>malloc(n)\<close> succeeds. Allocated bytes are \<open>char option\<close>: \<open>None\<close> is
  a byte never written. A pointer to an array is \<open>None\<close> (NULL) or \<open>Some\<close> of its elements.
  For the release functions the heap is the set of addresses of the live allocations.
\<close>

type_synonym avail = "nat \<Rightarrow> bool"
type_synonym cell = "char option"
type_synonym heap = "nat set"

section \<open>Allocation\<close>

definition oddjob_malloc :: "avail \<Rightarrow> nat \<Rightarrow> cell list res" where
  "oddjob_malloc mem sz = (if mem sz then Inr (replicate sz None) else Inl (Exit 1))"

definition oddjob_malloc0 :: "avail \<Rightarrow> nat \<Rightarrow> cell list res" where
  "oddjob_malloc0 mem sz =
     res_bind (oddjob_malloc mem sz) (\<lambda>ret. blit ret 0 (replicate sz (Some NUL)))"

lemma oddjob_malloc0_eq:
  "oddjob_malloc0 mem n = (if mem n then Inr (replicate n (Some NUL)) else Inl (Exit 1))"
  by (simp add: oddjob_malloc0_def oddjob_malloc_def blit_def)

section \<open>Strings in memory\<close>

text \<open>Reading a string value from an object: it must be written up to a NUL inside the object.\<close>

fun obj_cstr :: "cell list \<Rightarrow> string res" where
  "obj_cstr [] = Inl Out_of_bounds"
| "obj_cstr (None # xs) = Inl Uninitialised"
| "obj_cstr (Some c # xs) =
     (if c = NUL then Inr [] else res_bind (obj_cstr xs) (\<lambda>s. Inr (c # s)))"

lemma obj_cstr_string: "nul_free s \<Longrightarrow> obj_cstr (map Some s @ Some NUL # r) = Inr s"
  by (induction s) auto

definition oddjob_strdup :: "avail \<Rightarrow> string \<Rightarrow> cell list res" where
  "oddjob_strdup mem s =
     res_bind (oddjob_malloc0 mem (length s + 1)) (\<lambda>r. blit r 0 (map Some s @ [Some NUL]))"

text \<open>The string value of a duplicate, as its later readers see it.\<close>

definition dup_str :: "avail \<Rightarrow> string \<Rightarrow> string res" where
  "dup_str mem s = res_bind (oddjob_strdup mem s) obj_cstr"

lemma oddjob_strdup_eq:
  "oddjob_strdup mem s =
     (if mem (Suc (length s)) then Inr (map Some s @ [Some NUL]) else Inl (Exit 1))"
  by (simp add: oddjob_strdup_def oddjob_malloc0_eq blit_def)

lemma dup_str_value: "nul_free s \<Longrightarrow> dup_str mem s = Inr c \<Longrightarrow> c = s"
  by (simp add: dup_str_def oddjob_strdup_eq obj_cstr_string split: if_splits)

lemma dup_str_eq:
  "nul_free s \<Longrightarrow> dup_str mem s = (if mem (Suc (length s)) then Inr s else Inl (Exit 1))"
  by (simp add: dup_str_def oddjob_strdup_eq obj_cstr_string)

definition INT_MAX :: int where
  "INT_MAX = 2147483647"

text \<open>
  \<open>oddjob_strndup(s, n)\<close>, where \<open>s\<close> is the object \<open>s\<close> points to. \<open>memchr\<close> stops at the first
  NUL among the first \<open>n\<close> bytes and may not run past the object.
\<close>

definition oddjob_strndup :: "avail \<Rightarrow> char list \<Rightarrow> int \<Rightarrow> cell list res" where
  "oddjob_strndup mem s n =
     (let m = size_of_int n;
          k = length (cstr (take m s));
          found = k < m \<and> k < length s;
          len = (if \<not> found \<or> int k > n then n else int k)
      in if \<not> found \<and> length s < m then Inl Out_of_bounds
         else if len + 1 > INT_MAX then Inl Int_overflow
         else res_bind (oddjob_malloc0 mem (size_of_int (len + 1)))
                (\<lambda>r. res_bind (slice s 0 (size_of_int len)) (\<lambda>bs. blit r 0 (map Some bs))))"

lemma strndup_text:
  assumes "\<forall>n. mem n" "int (length bs) < INT_MAX"
  shows "res_bind (oddjob_strndup mem bs (int (length bs))) obj_cstr = Inr (cstr bs)"
proof -
  have len: "length (cstr bs) \<le> length bs" by (simp add: cstr_def length_takeWhile_le)
  have kept: "take (length (cstr bs)) bs = cstr bs" by (simp add: cstr_def takeWhile_eq_take [symmetric])
  have size: "size_of_int (int k) = k" "size_of_int (int k + 1) = Suc k" if "k \<le> length bs" for k
    using that assms(2) by (simp_all add: size_of_int_nonneg INT_MAX_def)
  have "drop k (x # replicate k x) = [x]" for k and x :: cell
    unfolding replicate_Suc [symmetric] drop_replicate by simp
  then have "oddjob_strndup mem bs (int (length bs)) = Inr (map Some (cstr bs) @ [Some NUL])"
    using len kept assms size [OF len] size [of "length bs"]
    by (auto simp: oddjob_strndup_def Let_def oddjob_malloc0_eq guard_defs simp flip: take_map)
  then show ?thesis by (simp add: obj_cstr_string)
qed

text \<open>
  \<open>oddjob_strdup_printf\<close>: \<open>text\<close> is what \<open>vsnprintf\<close> formats from the arguments (NUL-free),
  \<open>None\<close> when it reports an error (-1). The first call measures, the second writes.
\<close>

definition vsnprintf_ret :: "string option \<Rightarrow> int" where
  "vsnprintf_ret text = (case text of None \<Rightarrow> - 1
     | Some t \<Rightarrow> if int (length t) > INT_MAX then - 1 else int (length t))"

definition oddjob_strdup_printf :: "avail \<Rightarrow> string option \<Rightarrow> cell list res" where
  "oddjob_strdup_printf mem text =
     (let i = vsnprintf_ret text
      in if i + 1 > INT_MAX then Inl Int_overflow
         else res_bind (oddjob_malloc0 mem (size_of_int (i + 1)))
           (\<lambda>r. case text of None \<Rightarrow> Inr r
              | Some t \<Rightarrow> if i + 1 \<le> 0 then Inr r
                          else blit r 0 (map Some (take (nat i) t) @ [Some NUL])))"

section \<open>Resizing an array\<close>

text \<open>
  \<open>zero\<close> is the element whose bytes are all 0. The old array is read for the elements to
  keep, cleared and released; its address is replaced by the new one.
\<close>

definition oddjob_resize_array ::
  "avail \<Rightarrow> 'a \<Rightarrow> nat \<Rightarrow> 'a list option \<Rightarrow> nat \<Rightarrow> nat \<Rightarrow> 'a list option res" where
  "oddjob_resize_array mem zero element_size array current_n want_n =
     (if want_n > 0xffff then Inl (Exit 1)
      else if element_size > 0xffff then Inl (Exit 1)
      else res_bind
        (if element_size > 0 \<and> want_n > 0
         then res_bind (oddjob_malloc0 mem (element_size * want_n))
                (\<lambda>_. Inr (Some (replicate want_n zero)))
         else Inr None)
        (\<lambda>p. let save_n = (if current_n < want_n then current_n else want_n)
             in if save_n > 0 \<and> element_size > 0
                then (case (p, array) of
                        (Some new, Some old) \<Rightarrow>
                          res_bind (slice old 0 save_n) (\<lambda>kept. res_bind (blit new 0 kept)
                            (\<lambda>new'. Inr (Some new')))
                      | _ \<Rightarrow> Inl Null_deref)
                else Inr p))"

text \<open>The elements of an array behind a pointer; NULL has none.\<close>

definition elems :: "'a list option \<Rightarrow> 'a list" where
  "elems a = (case a of None \<Rightarrow> [] | Some xs \<Rightarrow> xs)"

lemma elems_simps [simp]: "elems None = []" "elems (Some xs) = xs"
  by (simp_all add: elems_def)

definition ptr_of :: "'a list \<Rightarrow> 'a list option" where
  "ptr_of xs = (if xs = [] then None else Some xs)"

lemma elems_ptr_of [simp]: "elems (ptr_of xs) = xs"
  by (simp add: ptr_of_def)

lemma resize_array_grow:
  assumes "\<forall>n. mem n" "0 < es" "es \<le> 0xffff" "cur \<le> want" "0 < want" "want \<le> 0xffff"
    and "cur \<le> length (elems arr)"
  shows "oddjob_resize_array mem z es arr cur want
           = Inr (Some (take cur (elems arr) @ replicate (want - cur) z))"
  using assms
  by (cases arr)
     (auto simp: oddjob_resize_array_def oddjob_malloc0_eq slice_def blit_def Let_def)

lemma resize_array_shrink:
  assumes "\<forall>n. mem n" "0 < es" "es \<le> 0xffff" "want \<le> cur" "want \<le> 0xffff"
    and "want \<le> length xs" "xs \<noteq> []"
  shows "oddjob_resize_array mem z es (Some xs) cur want = Inr (ptr_of (take want xs))"
  using assms
  by (auto simp: oddjob_resize_array_def oddjob_malloc0_eq slice_def blit_def Let_def ptr_of_def)

lemma resize_array_length:
  assumes "oddjob_resize_array mem z es arr cur want = Inr arr'"
  shows "length (elems arr') \<le> want"
  using assms unfolding oddjob_resize_array_def Let_def
  by (auto simp: res_simps slice_def dest!: blit_length split: if_splits option.splits)

text \<open>A call that returned would return the same with all the memory there is.\<close>

lemma resize_array_more_memory:
  assumes "oddjob_resize_array mem z es arr cur want = Inr arr'"
  shows "oddjob_resize_array (\<lambda>_. True) z es arr cur want = Inr arr' \<and> es \<le> 0xffff \<and> want \<le> 0xffff"
  using assms unfolding oddjob_resize_array_def Let_def oddjob_malloc0_eq
  by (auto simp: res_simps split: if_splits)

lemma resize_array_limit:
  "0xffff < want \<Longrightarrow> oddjob_resize_array mem z es arr cur want = Inl (Exit 1)"
  by (simp add: oddjob_resize_array_def)

text \<open>
  oddjob_resize_array gives an array with the first current elements kept as far as they
  fit and the rest zero, NULL if no elements are wanted.
\<close>

theorem resize_array_result:
  assumes "\<forall>n. mem n" "0 < es" "es \<le> 0xffff" "want \<le> 0xffff" "cur \<le> length (elems arr)"
  shows "oddjob_resize_array mem z es arr cur want
           = Inr (ptr_of (take want (take cur (elems arr) @ replicate (want - cur) z)))"
proof (cases "want = 0")
  case True
  then show ?thesis using assms
    by (simp add: oddjob_resize_array_def ptr_of_def)
next
  case False
  show ?thesis
  proof (cases "cur \<le> want")
    case True
    with assms False show ?thesis
      by (auto simp: resize_array_grow ptr_of_def)
  next
    case shrink: False
    with assms False obtain xs where "arr = Some xs" "xs \<noteq> []"
      by (cases arr) fastforce+
    with assms shrink show ?thesis
      by (simp add: resize_array_shrink min_def)
  qed
qed

theorem resize_array_result_witness:
  "oddjob_resize_array (\<lambda>_. True) (0::nat) 8 (Some [1, 2, 3]) 3 5 = Inr (Some [1, 2, 3, 0, 0])"
  using resize_array_result [of "\<lambda>_. True" 8 5 3 "Some [1, 2, 3]" "0::nat"]
  by (simp add: ptr_of_def numeral_2_eq_2)

text \<open>
  When oddjob_resize_array returns, the wanted size in bytes is below 2 ^ 32 and the array
  has at most the wanted number of elements.
\<close>

theorem resize_array_size_bound:
  assumes "oddjob_resize_array mem z es arr cur want = Inr arr'"
  shows "es * want < 2 ^ 32 \<and> length (elems arr') \<le> want"
proof -
  from assms have es: "es \<le> 0xffff" and want: "want \<le> 0xffff"
    by (auto simp: oddjob_resize_array_def split: if_splits)
  then have "es * want \<le> 0xffff * 0xffff" by (rule mult_le_mono)
  moreover have "length (elems arr') \<le> want"
    using assms by (rule resize_array_length)
  ultimately show ?thesis by simp
qed

theorem resize_array_size_bound_witness:
  "(8::nat) * 5 < 2 ^ 32 \<and> length (elems (Some [1::nat, 2, 3, 0, 0])) \<le> 5"
  by (rule resize_array_size_bound
        [where mem = "\<lambda>_. True" and z = 0 and arr = "Some [1, 2, 3]" and cur = 3])
     (simp add: resize_array_grow numeral_2_eq_2)

section \<open>Releasing memory\<close>

definition oddjob_free :: "nat option \<Rightarrow> heap \<Rightarrow> heap res" where
  "oddjob_free p h = (case p of None \<Rightarrow> Inr h
     | Some a \<Rightarrow> if a \<in> h then Inr (h - {a}) else Inl Bad_free)"

text \<open>The loop over a vector of pointers: it reads elements until it meets NULL.\<close>

fun free_until_null :: "nat option list \<Rightarrow> heap \<Rightarrow> heap res" where
  "free_until_null [] h = Inl Out_of_bounds"
| "free_until_null (None # ps) h = Inr h"
| "free_until_null (Some a # ps) h =
     res_bind (oddjob_free (Some a) h) (\<lambda>h'. free_until_null ps h')"

text \<open>A vector is NULL or its address with its elements.\<close>

type_synonym vector = "(nat \<times> nat option list) option"

definition oddjob_freev :: "vector \<Rightarrow> heap \<Rightarrow> heap res" where
  "oddjob_freev p h = (case p of None \<Rightarrow> oddjob_free None h
     | Some (a, ps) \<Rightarrow> res_bind (free_until_null ps h) (\<lambda>h'. oddjob_free (Some a) h'))"

definition oddjob_free_args :: "vector \<Rightarrow> heap \<Rightarrow> heap res" where
  "oddjob_free_args args h = (case args of None \<Rightarrow> Inr h
     | Some (a, ps) \<Rightarrow> res_bind (free_until_null ps h) (\<lambda>h'. oddjob_free (Some a) h'))"

lemma free_until_null_all:
  "distinct as \<Longrightarrow> set as \<subseteq> h \<Longrightarrow>
     free_until_null (map Some as @ None # r) h = Inr (h - set as)"
proof (induction as arbitrary: h)
  case Nil
  then show ?case by simp
next
  case (Cons a as)
  then have "free_until_null (map Some as @ None # r) (h - {a}) = Inr (h - {a} - set as)"
    by (intro Cons.IH) auto
  moreover have "h - {a} - set as = h - set (a # as)" by auto
  ultimately show ?case using Cons.prems
    by (simp add: oddjob_free_def)
qed

lemma free_until_null_unterminated:
  "None \<notin> set ps \<Longrightarrow> free_until_null ps h \<noteq> Inr h'"
proof (induction ps arbitrary: h)
  case (Cons p ps)
  then show ?case by (cases p) (auto simp: res_simps)
qed simp

text \<open>
  Releasing a NULL-terminated vector of distinct strings releases each string and the
  vector once and nothing else, and never a pointer twice.
\<close>

theorem free_args_releases_all:
  assumes "distinct (a # as)" "set (a # as) \<subseteq> h"
  shows "oddjob_free_args (Some (a, map Some as @ [None])) h = Inr (h - set (a # as))
       \<and> oddjob_freev (Some (a, map Some as @ [None])) h = Inr (h - set (a # as))"
proof -
  have "free_until_null (map Some as @ [None]) h = Inr (h - set as)"
    using assms free_until_null_all [of as h "[]"] by simp
  then show ?thesis
    using assms by (auto simp: oddjob_free_args_def oddjob_freev_def oddjob_free_def)
qed

theorem free_args_releases_all_witness:
  "oddjob_free_args (Some (1, [Some 2, Some 3, None])) {1, 2, 3, 4} = Inr {4}"
  using free_args_releases_all [of 1 "[2, 3]" "{1, 2, 3, 4}"] by (simp add: insert_Diff_if)

end
