(* ===== verification/Args.thy ===== *)
theory Args
  imports Memory
begin

text \<open>
  The input side of src/util.c: \<open>retry_write\<close>, and \<open>oddjob_collect_args\<close>, which turns a stream
  into a vector of lines. A stream is the list of the bytes still to be read; \<open>write\<close> is the
  list of the answers the kernel gives to the successive calls.
\<close>

section \<open>Writing with retries\<close>

datatype errno = EAGAIN | EINTR | EEXIST | EOTHER nat

datatype write_answer = Wrote nat | Write_error errno

text \<open>
  The loop of \<open>retry_write\<close>: the result with the bytes the kernel has taken; \<open>None\<close> when the
  answers run out before the loop ends.
\<close>

fun retry_write_loop ::
  "write_answer list \<Rightarrow> char list \<Rightarrow> nat \<Rightarrow> nat \<Rightarrow> char list \<Rightarrow> (int \<times> char list) option" where
  "retry_write_loop answers buf len start taken =
     (if start < len then
        (case answers of
           [] \<Rightarrow> None
         | Wrote i # rest \<Rightarrow>
             if i = 0 then Some (int start, taken)
             else retry_write_loop rest buf len (start + i) (taken @ take i (drop start buf))
         | Write_error e # rest \<Rightarrow>
             if e = EAGAIN then retry_write_loop rest buf len start taken
             else Some (- 1, taken))
      else Some (int start, taken))"

declare retry_write_loop.simps [simp del]

definition retry_write :: "write_answer list \<Rightarrow> char list \<Rightarrow> nat \<Rightarrow> (int \<times> char list) option" where
  "retry_write answers buf len = retry_write_loop answers buf len 0 []"

text \<open>\<open>write\<close> never claims more than it was given.\<close>

fun honest :: "write_answer list \<Rightarrow> nat \<Rightarrow> bool" where
  "honest [] left = True"
| "honest (Wrote i # rest) left = (i \<le> left \<and> honest rest (left - i))"
| "honest (Write_error e # rest) left = honest rest left"

lemma retry_write_loop_taken:
  "retry_write_loop ans buf len start (take start buf) = Some (r, out) \<Longrightarrow>
   honest ans (len - start) \<Longrightarrow> start \<le> len \<Longrightarrow>
   (r = - 1 \<and> (\<exists>n < len. out = take n buf)) \<or> (0 \<le> r \<and> nat r \<le> len \<and> out = take (nat r) buf)"
proof (induction ans arbitrary: start)
  case Nil
  then show ?case by (auto simp: retry_write_loop.simps split: if_splits)
next
  case (Cons a ans)
  show ?case
  proof (cases "start < len")
    case False
    with Cons.prems show ?thesis by (auto simp: retry_write_loop.simps)
  next
    case True
    show ?thesis
    proof (cases a)
      case (Wrote i)
      have "take (start + i) buf = take start buf @ take i (drop start buf)"
        by (rule take_add)
      with Cons.prems Cons.IH [of "start + i"] Wrote True show ?thesis
        by (auto simp: retry_write_loop.simps [of "Wrote i # ans"] split: if_splits)
    next
      case (Write_error e)
      with Cons.prems Cons.IH [of start] True show ?thesis
        by (auto simp: retry_write_loop.simps [of "Write_error e # ans"] split: if_splits)
    qed
  qed
qed

text \<open>
  With a kernel that never claims more bytes than it was given, retry_write has written a
  prefix of the buffer: exactly the returned number of bytes, or a proper prefix when it
  returns -1.
\<close>

theorem retry_write_prefix:
  assumes "retry_write answers buf len = Some (r, out)" "honest answers len" "len = length buf"
  shows "(r = - 1 \<and> (\<exists>n < len. out = take n buf))
       \<or> (0 \<le> r \<and> nat r \<le> len \<and> out = take (nat r) buf)"
  using retry_write_loop_taken [of answers buf len 0 r out] assms
  by (simp add: retry_write_def)

theorem retry_write_prefix_witness:
  "((3::int) = - 1 \<and> (\<exists>n < 3. ''abc'' = take n ''abc''))
       \<or> (0 \<le> (3::int) \<and> nat 3 \<le> 3 \<and> ''abc'' = take (nat 3) ''abc'')"
  by (rule retry_write_prefix [where answers = "[Wrote 1, Write_error EAGAIN, Wrote 2]"])
     (simp_all add: retry_write_def retry_write_loop.simps)

text \<open>
  The total progress the kernel offers: the sum of its positive answers. When nothing but
  positive answers and \<open>EAGAIN\<close> arrive and they add up to the length, everything is written.
\<close>

fun offered :: "write_answer list \<Rightarrow> nat" where
  "offered [] = 0"
| "offered (Wrote i # rest) = i + offered rest"
| "offered (Write_error e # rest) = offered rest"

lemma retry_write_loop_done:
  "list_all (\<lambda>a. a = Write_error EAGAIN \<or> (\<exists>i > 0. a = Wrote i)) ans \<Longrightarrow>
   honest ans (len - start) \<Longrightarrow> start \<le> len \<Longrightarrow> len - start \<le> offered ans \<Longrightarrow> len \<le> length buf \<Longrightarrow>
   retry_write_loop ans buf len start (take start buf) = Some (int len, take len buf)"
proof (induction ans arbitrary: start)
  case Nil
  then show ?case by (simp add: retry_write_loop.simps)
next
  case (Cons a ans)
  show ?case
  proof (cases "start < len")
    case False
    with Cons.prems show ?thesis by (simp add: retry_write_loop.simps)
  next
    case True
    show ?thesis
    proof (cases a)
      case (Wrote i)
      with Cons.prems True have i: "0 < i" "i \<le> len - start" "honest ans (len - (start + i))"
        "len - (start + i) \<le> offered ans" "start + i \<le> len"
        by auto
      with Cons.prems have "retry_write_loop ans buf len (start + i) (take (start + i) buf)
          = Some (int len, take len buf)"
        by (intro Cons.IH) simp_all
      with i Wrote True show ?thesis
        by (simp add: retry_write_loop.simps [of "Wrote i # ans"] take_add)
    next
      case (Write_error e)
      with Cons.prems Cons.IH [of start] True show ?thesis
        by (simp add: retry_write_loop.simps [of "Write_error EAGAIN # ans"])
    qed
  qed
qed

text \<open>
  If the kernel only answers EAGAIN or accepts some bytes, and accepts enough in total,
  retry_write returns with the whole buffer written.
\<close>

theorem retry_write_completes:
  assumes "list_all (\<lambda>a. a = Write_error EAGAIN \<or> (\<exists>i > 0. a = Wrote i)) answers"
    and "honest answers (length buf)" "length buf \<le> offered answers"
  shows "retry_write answers buf (length buf) = Some (int (length buf), buf)"
  using retry_write_loop_done [of answers "length buf" 0 buf] assms
  by (simp add: retry_write_def)

theorem retry_write_completes_witness:
  "retry_write [Write_error EAGAIN, Wrote 2, Wrote 1] ''abc'' 3 = Some (3, ''abc'')"
  using retry_write_completes [of "[Write_error EAGAIN, Wrote 2, Wrote 1]" "''abc''"]
  by (simp add: numeral_3_eq_3)

section \<open>Collecting lines\<close>

text \<open>
  \<open>fgets(buf, bufsiz, fp)\<close>: at most \<open>bufsiz - 1\<close> bytes, ending after the first newline; NULL
  at the end of the stream. A read error counts as the end of the stream.
\<close>

fun fgets_bytes :: "nat \<Rightarrow> string \<Rightarrow> string \<times> string" where
  "fgets_bytes 0 s = ([], s)"
| "fgets_bytes (Suc n) [] = ([], [])"
| "fgets_bytes (Suc n) (c # s) =
     (if c = LF then ([c], s) else (let (b, r) = fgets_bytes n s in (c # b, r)))"

definition fgets :: "nat \<Rightarrow> string \<Rightarrow> (string \<times> string) option" where
  "fgets bufsiz s = (if s = [] then None else Some (fgets_bytes (bufsiz - 1) s))"

text \<open>\<open>strpbrk(thisline, "\r\n")\<close>: the line up to the first CR or LF, if there is one.\<close>

definition is_eol :: "char \<Rightarrow> bool" where
  "is_eol c \<longleftrightarrow> c = CR \<or> c = LF"

definition cut_eol :: "string \<Rightarrow> string option" where
  "cut_eol s = (if list_ex is_eol s then Some (takeWhile (\<lambda>c. \<not> is_eol c) s) else None)"

lemma fgets_bytes_append: "fgets_bytes n s = (b, r) \<Longrightarrow> s = b @ r"
  by (induction n s arbitrary: b r rule: fgets_bytes.induct) (auto split: if_splits prod.splits)

lemma fgets_bytes_nonempty: "fgets_bytes (Suc n) (c # s) = (b, r) \<Longrightarrow> b \<noteq> []"
  by (auto split: if_splits prod.splits)

text \<open>
  The state of the loop is the vector \<open>ret\<close>, the line being assembled and the number of lines.
  With a buffer of fewer than two bytes \<open>fgets\<close> makes no progress and the loop never ends.
  \<open>8\<close> is the size of a pointer. The second function is the code after the loop.
\<close>

definition collect_tail ::
  "avail \<Rightarrow> string option list option \<Rightarrow> string option \<Rightarrow> nat
     \<Rightarrow> string option list option res" where
  "collect_tail mem ret thisline arraysize = (case thisline of
       None \<Rightarrow> Inr ret
     | Some line \<Rightarrow>
         res_bind (oddjob_resize_array mem None 8 ret arraysize
                     (if arraysize \<noteq> 0 then arraysize + 1 else arraysize + 2))
           (\<lambda>ret'. res_bind (arr_set (elems ret') arraysize (Some line)) (\<lambda>xs. Inr (Some xs))))"

lemma fgets_progress:
  "fgets bufsiz s = Some (b, r) \<Longrightarrow> \<not> bufsiz < 2 \<Longrightarrow> length r < length s"
proof -
  assume "fgets bufsiz s = Some (b, r)" "\<not> bufsiz < 2"
  then obtain c s' n where "s = c # s'" "fgets_bytes (Suc n) (c # s') = (b, r)"
    by (cases s; cases "bufsiz - 1") (auto simp: fgets_def split: if_splits)
  then show ?thesis
    using fgets_bytes_append [of "Suc n" s b r] fgets_bytes_nonempty [of n c s' b r]
    by (cases b) auto
qed

function collect_loop ::
  "avail \<Rightarrow> nat \<Rightarrow> string \<Rightarrow> string option list option \<Rightarrow> string option \<Rightarrow> nat
     \<Rightarrow> string option list option res" where
  "collect_loop mem bufsiz s ret thisline arraysize =
     (if bufsiz < 2 then Inl Diverges
      else (case fgets bufsiz s of
        None \<Rightarrow> collect_tail mem ret thisline arraysize
      | Some (buf, s') \<Rightarrow>
          (let old = (case thisline of None \<Rightarrow> [] | Some line \<Rightarrow> line);
               new = cstr buf
           in if \<not> mem (length old + length new + 1) then Inl (Exit 1)
              else (case cut_eol (old @ new) of
                None \<Rightarrow> collect_loop mem bufsiz s' ret (Some (old @ new)) arraysize
              | Some line \<Rightarrow>
                  (case oddjob_resize_array mem None 8 ret arraysize (arraysize + 2) of
                     Inl e \<Rightarrow> Inl e
                   | Inr ret' \<Rightarrow> (case arr_set (elems ret') arraysize (Some line) of
                       Inl e \<Rightarrow> Inl e
                     | Inr xs \<Rightarrow> collect_loop mem bufsiz s' (Some xs) None (arraysize + 1)))))))"
  by pat_completeness auto
termination
  by (relation "measure (\<lambda>(mem, bufsiz, s, _). length s)") (auto dest: fgets_progress)

declare collect_loop.simps [simp del]

definition oddjob_collect_args ::
  "avail \<Rightarrow> nat \<Rightarrow> string \<Rightarrow> string option list option res" where
  "oddjob_collect_args mem bufsiz s = collect_loop mem bufsiz s None None 0"

text \<open>
  The reference reading of a stream: the lines that end in a newline, and the rest after the
  last newline.
\<close>

fun lines_of :: "string \<Rightarrow> string list \<times> string" where
  "lines_of [] = ([], [])"
| "lines_of (c # s) =
     (let (ls, r) = lines_of s
      in if c = LF then ([] # ls, r)
         else (case ls of [] \<Rightarrow> ([], c # r) | l # ls' \<Rightarrow> ((c # l) # ls', r)))"

text \<open>The vector for given complete lines and a given rest.\<close>

definition vector_of :: "string list \<Rightarrow> string \<Rightarrow> string option list option" where
  "vector_of ls r =
     (if r = [] then (if ls = [] then None else Some (map Some ls @ [None]))
      else if ls = [] then Some [Some r, None]
      else Some (map Some ls @ [Some r]))"

definition plain :: "string \<Rightarrow> bool" where
  "plain s \<longleftrightarrow> NUL \<notin> set s \<and> CR \<notin> set s"

lemma lines_of_open: "LF \<notin> set t \<Longrightarrow> lines_of t = ([], t)"
  by (induction t) auto

lemma lines_of_close:
  "LF \<notin> set t \<Longrightarrow> lines_of (t @ LF # s) = (t # fst (lines_of s), snd (lines_of s))"
  by (induction t) (auto split: prod.splits)

lemma fgets_bytes_line:
  "fgets_bytes n s = (b, r) \<Longrightarrow> LF \<in> set b \<Longrightarrow> \<exists>l. b = l @ [LF] \<and> LF \<notin> set l"
proof (induction n s arbitrary: b r rule: fgets_bytes.induct)
  case (3 n c s)
  show ?case
  proof (cases "c = LF")
    case True
    with 3 show ?thesis by (intro exI [of _ "[]"]) simp
  next
    case False
    with 3 obtain b' where "fgets_bytes n s = (b', r)" "b = c # b'" "LF \<in> set b'"
      by (auto split: prod.splits)
    with 3 False obtain l where "b' = l @ [LF] \<and> LF \<notin> set l" by blast
    with \<open>b = c # b'\<close> False show ?thesis by (intro exI [of _ "c # l"]) simp
  qed
qed auto

lemma cut_eol_none: "LF \<notin> set t \<Longrightarrow> plain t \<Longrightarrow> cut_eol t = None"
  by (auto simp: cut_eol_def plain_def is_eol_def list_ex_iff)

lemma cut_eol_some: "LF \<notin> set t \<Longrightarrow> plain t \<Longrightarrow> cut_eol (t @ [LF]) = Some t"
  by (auto simp: cut_eol_def plain_def is_eol_def list_ex_iff takeWhile_tail)

lemma plain_append [simp]: "plain (a @ b) \<longleftrightarrow> plain a \<and> plain b"
  by (auto simp: plain_def)

lemma plain_Cons [simp]: "plain (c # s) \<longleftrightarrow> c \<noteq> NUL \<and> c \<noteq> CR \<and> plain s"
  by (auto simp: plain_def)

lemma plain_cstr: "plain s \<Longrightarrow> cstr s = s"
  by (simp add: plain_def cstr_id nul_free_def)

text \<open>
  What the loop does from a state in which the lines \<open>ds\<close> are stored and \<open>t\<close> has been read of
  the next one.
\<close>

definition stored :: "string list \<Rightarrow> string option list option" where
  "stored ds = (if ds = [] then None else Some (map Some ds @ [None]))"

lemma stored_grow:
  assumes "\<forall>n. mem n" "length ds + 2 \<le> 0xffff"
  shows "oddjob_resize_array mem None 8 (stored ds) (length ds) (length ds + 2)
           = Inr (Some (map Some ds @ [None, None]))"
proof -
  have "oddjob_resize_array mem None 8 (stored ds) (length ds) (length ds + 2)
      = Inr (Some (take (length ds) (elems (stored ds)) @ replicate (length ds + 2 - length ds) None))"
    using assms by (intro resize_array_grow) (auto simp: stored_def)
  then show ?thesis
    by (cases "ds = []") (simp_all add: stored_def numeral_2_eq_2)
qed

lemma stored_extend:
  assumes "\<forall>n. mem n" "ds \<noteq> []" "length ds + 1 \<le> 0xffff"
  shows "oddjob_resize_array mem None 8 (stored ds) (length ds) (length ds + 1)
           = Inr (Some (map Some ds @ [None]))"
  using assms resize_array_grow [of mem 8 "length ds" "length ds + 1" "stored ds" None]
  by (simp add: stored_def)

lemma collect_tail_stored:
  assumes "\<forall>n. mem n" "length ds + 2 \<le> 0xffff" "t \<noteq> Some []"
  shows "collect_tail mem (stored ds) t (length ds)
           = Inr (vector_of ds (case t of None \<Rightarrow> [] | Some l \<Rightarrow> l))"
proof (cases t)
  case None
  then show ?thesis by (simp add: collect_tail_def vector_of_def stored_def)
next
  case (Some l)
  show ?thesis
  proof (cases "ds = []")
    case True
    with Some assms stored_grow [of mem "[]"] show ?thesis
      by (simp add: collect_tail_def vector_of_def arr_set_def)
  next
    case False
    with Some assms stored_extend [of mem ds] arr_set_append_None [of "map Some ds" None "[]"]
    show ?thesis
      by (simp add: collect_tail_def vector_of_def)
  qed
qed

abbreviation pending :: "string option \<Rightarrow> string" where
  "pending t \<equiv> (case t of None \<Rightarrow> [] | Some l \<Rightarrow> l)"

lemma collect_loop_stored:
  assumes "\<forall>n. mem n" "2 \<le> bufsiz"
  shows "plain (pending t @ s) \<Longrightarrow> LF \<notin> set (pending t) \<Longrightarrow> t \<noteq> Some [] \<Longrightarrow>
    length ds + length (fst (lines_of (pending t @ s))) + 2 \<le> 0xffff \<Longrightarrow>
    collect_loop mem bufsiz s (stored ds) t (length ds)
      = Inr (vector_of (ds @ fst (lines_of (pending t @ s))) (snd (lines_of (pending t @ s))))"
proof (induction "length s" arbitrary: s t ds rule: less_induct)
  case less
  show ?case
  proof (cases "fgets bufsiz s")
    case None
    then have "s = []" by (simp add: fgets_def split: if_splits)
    with None less.prems assms show ?thesis
      by (simp add: collect_loop.simps [of _ _ "[]"] collect_tail_stored lines_of_open)
  next
    case (Some p)
    obtain b s' where p: "p = (b, s')" by (cases p)
    with Some have s: "s = b @ s'" and bytes: "fgets_bytes (bufsiz - 1) s = (b, s')"
      by (auto simp: fgets_def fgets_bytes_append split: if_splits)
    have shorter: "length s' < length s"
      using Some p assms fgets_progress by fastforce
    have new: "cstr b = b" using less.prems s by (simp add: plain_cstr)
    show ?thesis
    proof (cases "LF \<in> set b")
      case True
      then obtain l where l: "b = l @ [LF]" "LF \<notin> set l"
        using fgets_bytes_line [OF bytes] by blast
      let ?line = "pending t @ l"
      have cut: "cut_eol (pending t @ b) = Some ?line"
        using cut_eol_some [of ?line] less.prems l s by simp
      have lines: "lines_of (pending t @ s)
          = (?line # fst (lines_of s'), snd (lines_of s'))"
        using lines_of_close [of ?line s'] less.prems l s by simp
      have "collect_loop mem bufsiz s' (stored (ds @ [?line])) None (length (ds @ [?line]))
          = Inr (vector_of ((ds @ [?line]) @ fst (lines_of s')) (snd (lines_of s')))"
        using less.hyps [OF shorter, of None "ds @ [?line]"] less.prems lines s by simp
      moreover have "arr_set (map Some ds @ [None, None]) (length ds) (Some ?line)
          = Inr (map Some (ds @ [?line]) @ [None])"
        using arr_set_append_None [of "map Some ds" None "[None]"] by simp
      ultimately show ?thesis
        using Some p assms cut new less.prems lines stored_grow [of mem ds]
        by (simp add: collect_loop.simps [of _ _ s] stored_def)
    next
      case False
      have cut: "cut_eol (pending t @ b) = None"
        using less.prems False s by (intro cut_eol_none) auto
      have "b \<noteq> []" using shorter s by auto
      then have "collect_loop mem bufsiz s' (stored ds) (Some (pending t @ b)) (length ds)
          = Inr (vector_of (ds @ fst (lines_of (pending t @ s))) (snd (lines_of (pending t @ s))))"
        using less.hyps [OF shorter, of "Some (pending t @ b)" ds] less.prems False s by simp
      then show ?thesis
        using Some p assms cut new
        by (simp add: collect_loop.simps [of _ _ s])
    qed
  qed
qed

text \<open>The stream of given lines with a given rest.\<close>

lemma lines_of_stream:
  "\<forall>l \<in> set ls. LF \<notin> set l \<Longrightarrow> LF \<notin> set r \<Longrightarrow>
     lines_of (concat (map (\<lambda>l. l @ [LF]) ls) @ r) = (ls, r)"
  by (induction ls) (auto simp: lines_of_close lines_of_open)

definition line_ok :: "string \<Rightarrow> bool" where
  "line_ok l \<longleftrightarrow> plain l \<and> LF \<notin> set l"

lemma plain_stream:
  "\<forall>l \<in> set ls. line_ok l \<Longrightarrow> line_ok r \<Longrightarrow> plain (concat (map (\<lambda>l. l @ [LF]) ls) @ r)"
  by (induction ls) (auto simp: line_ok_def plain_def LF_def NUL_def CR_def)

lemma collect_args_stream:
  assumes "\<forall>n. mem n" "2 \<le> bufsiz" "\<forall>l \<in> set ls. line_ok l" "line_ok r" "length ls + 2 \<le> 0xffff"
  shows "oddjob_collect_args mem bufsiz (concat (map (\<lambda>l. l @ [LF]) ls) @ r) = Inr (vector_of ls r)"
proof -
  let ?s = "concat (map (\<lambda>l. l @ [LF]) ls) @ r"
  have "lines_of ?s = (ls, r)"
    using assms by (intro lines_of_stream) (auto simp: line_ok_def)
  then show ?thesis
    using collect_loop_stored [of mem bufsiz None ?s "[]"] plain_stream [of ls r] assms
    by (simp add: oddjob_collect_args_def stored_def)
qed

text \<open>
  C20. For input without NUL bytes and carriage returns, of fewer than 65534 lines,
  oddjob_collect_args returns the vector of the complete lines cut at their line ends, for any
  size of the read buffer of at least 2: lines longer than the buffer are put together from
  their pieces.
\<close>

theorem collect_args_lines:
  assumes "\<forall>n. mem n" "2 \<le> bufsiz" "plain s"
    and "length (fst (lines_of s)) + 2 \<le> 0xffff"
  shows "oddjob_collect_args mem bufsiz s = Inr (vector_of (fst (lines_of s)) (snd (lines_of s)))"
  using collect_loop_stored [of mem bufsiz None s "[]"] assms
  by (simp add: oddjob_collect_args_def stored_def)

theorem collect_args_lines_witness:
  "oddjob_collect_args (\<lambda>_. True) 3 (''root'' @ [LF]) = Inr (Some [Some ''root'', None])"
  using collect_args_lines [of "\<lambda>_. True" 3 "''root'' @ [LF]"]
  by (simp add: plain_def LF_def NUL_def CR_def vector_of_def)

text \<open>
  Printing a list of lines, each followed by a line feed, and collecting the stream gives
  back the lines, followed by the terminating NULL.
\<close>

theorem collect_args_roundtrip:
  assumes "\<forall>n. mem n" "2 \<le> bufsiz" "length ls + 2 \<le> 0xffff"
    and "\<forall>l \<in> set ls. line_ok l" "ls \<noteq> []"
  shows "oddjob_collect_args mem bufsiz (concat (map (\<lambda>l. l @ [LF]) ls))
           = Inr (Some (map Some ls @ [None]))"
  using collect_args_stream [of mem bufsiz ls "[]"] assms
  by (simp add: vector_of_def line_ok_def plain_def)

theorem collect_args_roundtrip_witness:
  "oddjob_collect_args (\<lambda>_. True) 8192 (concat (map (\<lambda>l. l @ [LF]) [''one'', '''']))
     = Inr (Some [Some ''one'', Some '''', None])"
  using collect_args_roundtrip [of "\<lambda>_. True" 8192 "[''one'', '''']"]
  by (simp add: line_ok_def plain_def LF_def NUL_def CR_def)

text \<open>
  If the input ends in an unterminated line after a complete one, the vector
  oddjob_collect_args returns has no terminating NULL.
\<close>

theorem collect_args_unterminated:
  assumes "\<forall>n. mem n" "2 \<le> bufsiz" "plain s" "length (fst (lines_of s)) + 2 \<le> 0xffff"
    and "fst (lines_of s) \<noteq> []" "snd (lines_of s) \<noteq> []"
  shows "\<exists>xs. oddjob_collect_args mem bufsiz s = Inr (Some xs) \<and> None \<notin> set xs"
  using collect_loop_stored [of mem bufsiz None s "[]"] assms
  by (auto simp: oddjob_collect_args_def stored_def vector_of_def)

theorem collect_args_unterminated_witness:
  "\<exists>xs. oddjob_collect_args (\<lambda>_. True) 64 (''a'' @ LF # ''b'') = Inr (Some xs) \<and> None \<notin> set xs"
  by (rule collect_args_unterminated) (simp_all add: plain_def LF_def NUL_def CR_def)

end
