(* ===== verification/Cmdline.thy ===== *)
theory Cmdline
  imports Memory
begin

text \<open>
  \<open>oddjob_parse_args\<close> of src/util.c: splitting a command line into words, with single and
  double quotes and backslash escapes. The scanner writes the unquoted text into a buffer
  with a NUL for each separating blank; the words are the non-empty runs between NULs.
\<close>

section \<open>The scanner\<close>

record lexer =
  sqlevel :: nat
  dqlevel :: nat
  escape :: bool

definition lexer0 :: lexer where
  "lexer0 = \<lparr>sqlevel = 0, dqlevel = 0, escape = False\<rparr>"

definition BACKSLASH :: char where "BACKSLASH = CHR 0x5C"
definition SQUOTE :: char where "SQUOTE = CHR 0x27"
definition DQUOTE :: char where "DQUOTE = CHR 0x22"
definition SPACE :: char where "SPACE = CHR 0x20"

lemmas char_defs = BACKSLASH_def SQUOTE_def DQUOTE_def SPACE_def NUL_def LF_def CR_def TAB_def

definition is_blank :: "char \<Rightarrow> bool" where
  "is_blank c \<longleftrightarrow> c = CR \<or> c = LF \<or> c = TAB \<or> c = SPACE"

text \<open>\<open>*q++ = c\<close> into the buffer of \<open>n\<close> bytes, of which \<open>out\<close> is written.\<close>

definition put :: "nat \<Rightarrow> string \<Rightarrow> char \<Rightarrow> string res" where
  "put n out c = (if length out < n then Inr (out @ [c]) else Inl Out_of_bounds)"

text \<open>
  One round of the \<open>switch\<close>: the byte it writes, if any, and the state after it. A quote level
  other than 0 and 1 would leave the loop without advancing.
\<close>

definition lex_step :: "lexer \<Rightarrow> char \<Rightarrow> (char option \<times> lexer) res" where
  "lex_step st c =
     (if c = BACKSLASH then
        (if dqlevel st \<noteq> 0 \<or> sqlevel st \<noteq> 0 \<or> escape st
         then Inr (Some c, st\<lparr>escape := False\<rparr>)
         else Inr (None, st\<lparr>escape := True\<rparr>))
      else if c = SQUOTE then
        (if sqlevel st = 0 then
           (if escape st \<or> dqlevel st > 0 then Inr (Some c, st\<lparr>escape := False\<rparr>)
            else Inr (None, st\<lparr>sqlevel := 1\<rparr>))
         else if sqlevel st = 1 then Inr (None, st\<lparr>sqlevel := 0\<rparr>)
         else Inl Diverges)
      else if c = DQUOTE then
        (if dqlevel st = 0 then
           (if escape st \<or> sqlevel st > 0 then Inr (Some c, st\<lparr>escape := False\<rparr>)
            else Inr (None, st\<lparr>dqlevel := 1\<rparr>))
         else if dqlevel st = 1 then Inr (None, st\<lparr>dqlevel := 0\<rparr>)
         else Inl Diverges)
      else if is_blank c then
        (if escape st \<or> dqlevel st > 0 \<or> sqlevel st > 0 then Inr (Some c, st)
         else Inr (Some NUL, st))
      else Inr (Some c, st))"

fun scan :: "nat \<Rightarrow> string \<Rightarrow> lexer \<Rightarrow> string \<Rightarrow> (lexer \<times> string) res" where
  "scan n [] st out = Inr (st, out)"
| "scan n (c # p) st out =
     res_bind (lex_step st c) (\<lambda>(w, st').
       res_bind (case w of None \<Rightarrow> Inr out | Some d \<Rightarrow> put n out d) (\<lambda>out'.
         scan n p st' out'))"

section \<open>Cutting the buffer into words\<close>

text \<open>The first pass counts the words; \<open>inside\<close> is \<open>p != NULL\<close>.\<close>

fun count_words :: "bool \<Rightarrow> string \<Rightarrow> nat \<Rightarrow> nat" where
  "count_words inside [] words = words"
| "count_words inside (c # q) words =
     (if c \<noteq> NUL then count_words True q words
      else if inside then count_words False q (words + 1)
      else count_words False q words)"

text \<open>The second pass duplicates them; \<open>p\<close> is NULL or the rest of the buffer from \<open>p\<close> on.\<close>

fun fill_words ::
  "avail \<Rightarrow> string option \<Rightarrow> string \<Rightarrow> nat \<Rightarrow> string option list \<Rightarrow> string option list res" where
  "fill_words mem p [] words argv = Inr argv"
| "fill_words mem p (c # q) words argv =
     (if c \<noteq> NUL
      then fill_words mem (case p of None \<Rightarrow> Some (c # q) | Some s \<Rightarrow> Some s) q words argv
      else (case p of
          None \<Rightarrow> fill_words mem None q words argv
        | Some s \<Rightarrow>
            res_bind (dup_str mem (cstr s))
              (\<lambda>w. res_bind (arr_set argv words (Some w))
                (\<lambda>argv'. fill_words mem None q (words + 1) argv'))))"

datatype parse_error = Unmatched_double | Unmatched_single | Escape_at_end

text \<open>The result: \<open>NULL\<close> with an error text, or the NULL-terminated vector of words.\<close>

definition oddjob_parse_args ::
  "avail \<Rightarrow> string \<Rightarrow> (parse_error + string option list) res" where
  "oddjob_parse_args mem cmdline =
     (let buffersize = length cmdline * 3
      in res_bind (oddjob_malloc0 mem buffersize) (\<lambda>_.
         res_bind (scan buffersize cmdline lexer0 []) (\<lambda>(st, out).
           if dqlevel st > 0 then Inr (Inl Unmatched_double)
           else if sqlevel st > 0 then Inr (Inl Unmatched_single)
           else if escape st then Inr (Inl Escape_at_end)
           else (let bigbuf = out @ replicate (buffersize - length out) NUL;
                     words = count_words False bigbuf 0
                 in res_bind (oddjob_malloc0 mem (8 * (words + 1))) (\<lambda>_.
                    res_bind (fill_words mem None bigbuf 0 (replicate (words + 1) None))
                      (\<lambda>argv. Inr (Inr argv)))))))"

section \<open>What the two passes compute\<close>

text \<open>The NUL-terminated non-empty runs of a buffer, \<open>cur\<close> being the run in progress.\<close>

fun runs :: "string \<Rightarrow> string \<Rightarrow> string list" where
  "runs cur [] = []"
| "runs cur (c # q) =
     (if c \<noteq> NUL then runs (cur @ [c]) q
      else if cur = [] then runs [] q else cur # runs [] q)"

lemma count_words_runs: "count_words (cur \<noteq> []) q w = w + length (runs cur q)"
proof (induction q arbitrary: cur w)
  case (Cons c q)
  show ?case
    using Cons.IH [of "cur @ [c]" w] Cons.IH [of "[]" w] Cons.IH [of "[]" "w + 1"] by simp
qed simp

lemma fill_words_runs:
  assumes "\<forall>n. mem n"
  shows "nul_free cur \<Longrightarrow> length (runs cur q) \<le> k \<Longrightarrow>
    fill_words mem (if cur = [] then None else Some (cur @ q)) q (length ds)
        (map Some ds @ replicate k None)
      = Inr (map Some (ds @ runs cur q) @ replicate (k - length (runs cur q)) None)"
proof (induction q arbitrary: cur ds k)
  case Nil
  then show ?case by simp
next
  case (Cons c q)
  show ?case
  proof (cases "c = NUL")
    case False
    with Cons.prems Cons.IH [of "cur @ [c]" k ds] show ?thesis
      by (cases "cur = []") simp_all
  next
    case True
    show ?thesis
    proof (cases "cur = []")
      case True
      with \<open>c = NUL\<close> Cons.prems Cons.IH [of "[]" k ds] show ?thesis by simp
    next
      case False
      with \<open>c = NUL\<close> Cons.prems obtain k' where k: "k = Suc k'" by (cases k) auto
      have "dup_str mem (cstr (cur @ NUL # q)) = Inr cur"
        using assms Cons.prems by (simp add: cstr_append_NUL dup_str_eq)
      moreover have "arr_set (map Some ds @ replicate k None) (length ds) (Some cur)
          = Inr (map Some (ds @ [cur]) @ replicate k' None)"
        using arr_set_append_None [of "map Some ds" None "replicate k' None"] k by simp
      ultimately show ?thesis
        using \<open>c = NUL\<close> False Cons.prems Cons.IH [of "[]" k' "ds @ [cur]"] k by simp
    qed
  qed
qed

lemma runs_append_NUL: "runs cur (q @ replicate (Suc n) NUL) = runs cur (q @ [NUL])"
proof (induction q arbitrary: cur)
  case Nil
  have "runs [] (replicate n NUL) = []" by (induction n) auto
  then show ?case by simp
qed auto

text \<open>The scanner writes at most one byte for each byte it reads, so it stays in its buffer.\<close>

definition levels_ok :: "lexer \<Rightarrow> bool" where
  "levels_ok st \<longleftrightarrow> sqlevel st \<le> 1 \<and> dqlevel st \<le> 1"

lemma lex_step_ok: "levels_ok st \<Longrightarrow> \<exists>w st'. lex_step st c = Inr (w, st') \<and> levels_ok st'"
  by (auto simp: lex_step_def levels_ok_def)

lemma levels_ok_lexer0 [simp]: "levels_ok lexer0"
  by (simp add: levels_ok_def lexer0_def)

lemma scan_in_bounds:
  "length out + length p \<le> n \<Longrightarrow> levels_ok st \<Longrightarrow>
     \<exists>st' out'. scan n p st out = Inr (st', out') \<and> levels_ok st' \<and> length out' \<le> length out + length p"
proof (induction p arbitrary: st out)
  case Nil
  then show ?case by simp
next
  case (Cons c p)
  obtain w st' where step: "lex_step st c = Inr (w, st')" "levels_ok st'"
    using lex_step_ok Cons.prems by blast
  define out' where "out' = out @ (case w of None \<Rightarrow> [] | Some d \<Rightarrow> [d])"
  have put: "(case w of None \<Rightarrow> Inr out | Some d \<Rightarrow> put n out d) = Inr out'"
    using Cons.prems by (simp add: put_def out'_def split: option.split)
  have "length out' \<le> Suc (length out)" by (simp add: out'_def split: option.split)
  with Cons.IH [of out' st'] step put Cons.prems show ?case by fastforce
qed

lemma runs_words: "nul_free cur \<Longrightarrow> w \<in> set (runs cur q) \<Longrightarrow> w \<noteq> [] \<and> nul_free w"
proof (induction q arbitrary: cur)
  case (Cons c q)
  show ?case
    using Cons.prems Cons.IH [of "cur @ [c]"] Cons.IH [of "[]"]
    by (auto split: if_splits)
qed simp

definition lexer_verdict :: "lexer \<Rightarrow> string \<Rightarrow> parse_error + string option list" where
  "lexer_verdict st out =
     (if dqlevel st > 0 then Inl Unmatched_double
      else if sqlevel st > 0 then Inl Unmatched_single
      else if escape st then Inl Escape_at_end
      else Inr (map Some (runs [] (out @ [NUL])) @ [None]))"

lemma parse_args_verdict:
  assumes "\<forall>n. mem n" "scan (length s * 3) s lexer0 [] = Inr (st, out)"
  shows "oddjob_parse_args mem s = Inr (lexer_verdict st out)"
proof -
  have "length out \<le> length s"
    using scan_in_bounds [of "[]" s "length s * 3" lexer0] assms by auto
  then have "s = [] \<or> 0 < length s * 3 - length out"
    by (cases s) auto
  then obtain k where k: "s = [] \<or> length s * 3 - length out = Suc k"
    by (metis gr0_implies_Suc)
  let ?buf = "out @ replicate (length s * 3 - length out) NUL"
  have runs: "runs [] ?buf = runs [] (out @ [NUL])"
    using k runs_append_NUL [of "[]" out k] \<open>length out \<le> length s\<close> by auto
  have count: "count_words False ?buf 0 = length (runs [] ?buf)"
    using count_words_runs [of "[]" ?buf 0] by simp
  have "fill_words mem None ?buf 0 (replicate (Suc (length (runs [] ?buf))) None)
      = Inr (map Some (runs [] ?buf) @ [None])"
    using fill_words_runs [OF assms(1), of "[]" ?buf "Suc (length (runs [] ?buf))" "[]"] by simp
  then show ?thesis
    using assms runs count
    by (simp add: oddjob_parse_args_def oddjob_malloc0_eq lexer_verdict_def Let_def)
qed

text \<open>
  C33. For every command line oddjob_parse_args returns, without leaving its buffer or its
  vector: either an error text or a NULL-terminated vector of non-empty words.
\<close>

theorem parse_args_total:
  assumes "\<forall>n. mem n"
  shows "(\<exists>e. oddjob_parse_args mem s = Inr (Inl e))
       \<or> (\<exists>ws. oddjob_parse_args mem s = Inr (Inr (map Some ws @ [None]))
              \<and> list_all (\<lambda>w. w \<noteq> [] \<and> nul_free w) ws)"
proof -
  obtain st out where "scan (length s * 3) s lexer0 [] = Inr (st, out)"
    using scan_in_bounds [of "[]" s "length s * 3" lexer0] by auto
  then have "oddjob_parse_args mem s = Inr (lexer_verdict st out)"
    using assms by (intro parse_args_verdict)
  moreover have "list_all (\<lambda>w. w \<noteq> [] \<and> nul_free w) (runs [] (out @ [NUL]))"
    by (auto simp: list_all_iff dest: runs_words [rotated])
  ultimately show ?thesis by (auto simp: lexer_verdict_def)
qed

theorem parse_args_total_witness:
  "(\<exists>e. oddjob_parse_args (\<lambda>_. True) ''gpupdate -f'' = Inr (Inl e))
       \<or> (\<exists>ws. oddjob_parse_args (\<lambda>_. True) ''gpupdate -f'' = Inr (Inr (map Some ws @ [None]))
              \<and> list_all (\<lambda>w. w \<noteq> [] \<and> nul_free w) ws)"
  by (rule parse_args_total) simp

section \<open>Quoting and unquoting\<close>

lemma scan_append:
  "scan n (p @ q) st out = res_bind (scan n p st out) (\<lambda>(st', out'). scan n q st' out')"
  by (induction p arbitrary: st out)
     (auto simp: res_bind_def split: sum.splits option.splits prod.splits)

definition in_double :: lexer where
  "in_double = \<lparr>sqlevel = 0, dqlevel = 1, escape = False\<rparr>"

definition ordinary :: "char \<Rightarrow> bool" where
  "ordinary c \<longleftrightarrow> c \<noteq> BACKSLASH \<and> c \<noteq> SQUOTE \<and> c \<noteq> DQUOTE"

lemma lex_step_in_double: "c \<noteq> DQUOTE \<Longrightarrow> lex_step in_double c = Inr (Some c, in_double)"
  by (simp add: lex_step_def in_double_def)

lemma lex_step_open: "lex_step lexer0 DQUOTE = Inr (None, in_double)"
  by (simp add: lex_step_def lexer0_def in_double_def char_defs)

lemma lex_step_close: "lex_step in_double DQUOTE = Inr (None, lexer0)"
  by (simp add: lex_step_def lexer0_def in_double_def char_defs)

lemma lex_step_ordinary:
  "ordinary c \<Longrightarrow> \<not> is_blank c \<Longrightarrow> lex_step lexer0 c = Inr (Some c, lexer0)"
  by (simp add: lex_step_def ordinary_def)

lemma lex_step_space: "lex_step lexer0 SPACE = Inr (Some NUL, lexer0)"
  by (simp add: lex_step_def lexer0_def is_blank_def char_defs)

lemma scan_keep:
  "\<forall>c \<in> set w. lex_step st c = Inr (Some c, st) \<Longrightarrow> length out + length w \<le> n \<Longrightarrow>
     scan n w st out = Inr (st, out @ w)"
  by (induction w arbitrary: out) (simp_all add: put_def)

text \<open>A word is written bare or in double quotes, with a blank after it.\<close>

definition render :: "bool \<times> string \<Rightarrow> string" where
  "render qw = (if fst qw then DQUOTE # snd qw @ [DQUOTE, SPACE] else snd qw @ [SPACE])"

definition renderable :: "bool \<times> string \<Rightarrow> bool" where
  "renderable qw \<longleftrightarrow> snd qw \<noteq> [] \<and> nul_free (snd qw)
     \<and> (if fst qw then DQUOTE \<notin> set (snd qw)
        else (\<forall>c \<in> set (snd qw). ordinary c \<and> \<not> is_blank c))"

lemma scan_render:
  assumes "renderable qw" "length out + length (snd qw) < n"
  shows "scan n (render qw) lexer0 out = Inr (lexer0, out @ snd qw @ [NUL])"
proof (cases "fst qw")
  case True
  have "scan n (snd qw) in_double out = Inr (in_double, out @ snd qw)"
    using assms True by (intro scan_keep) (auto simp: renderable_def intro!: lex_step_in_double)
  with assms True show ?thesis
    by (simp add: render_def lex_step_open scan_append lex_step_close lex_step_space put_def)
next
  case False
  have "scan n (snd qw) lexer0 out = Inr (lexer0, out @ snd qw)"
    using assms False by (intro scan_keep) (auto simp: renderable_def intro!: lex_step_ordinary)
  with assms False show ?thesis
    by (simp add: render_def scan_append lex_step_space put_def)
qed

lemma scan_render_all:
  "\<forall>qw \<in> set qws. renderable qw \<Longrightarrow>
     length out + length (concat (map render qws)) \<le> n \<Longrightarrow>
     scan n (concat (map render qws)) lexer0 out
       = Inr (lexer0, out @ concat (map (\<lambda>qw. snd qw @ [NUL]) qws))"
proof (induction qws arbitrary: out)
  case (Cons qw qws)
  have len: "length (snd qw) < length (render qw)" by (simp add: render_def)
  with Cons.prems have "scan n (render qw) lexer0 out = Inr (lexer0, out @ snd qw @ [NUL])"
    by (intro scan_render) auto
  with Cons len show ?case by (simp add: scan_append)
qed simp

lemma runs_separated:
  "\<forall>w \<in> set ws. w \<noteq> [] \<and> nul_free w \<Longrightarrow>
     runs [] (concat (map (\<lambda>w. w @ [NUL]) ws) @ q) = ws @ runs [] q"
proof (induction ws)
  case (Cons w ws)
  have run: "runs cur (v @ NUL # r) = (cur @ v) # runs [] r"
    if "nul_free v" "cur @ v \<noteq> []" for cur v r
    using that by (induction v arbitrary: cur) auto
  show ?case using Cons run [of w "[]"] by simp
qed simp

text \<open>
  C21. Printing words, plain or in double quotes, separated by blanks, and parsing the text
  gives back the words.
\<close>

theorem parse_args_roundtrip:
  assumes "\<forall>n. mem n" "\<forall>qw \<in> set qws. renderable qw"
  shows "oddjob_parse_args mem (concat (map render qws)) = Inr (Inr (map Some (map snd qws) @ [None]))"
proof -
  let ?s = "concat (map render qws)" and ?ws = "map snd qws"
  have "scan (length ?s * 3) ?s lexer0 [] = Inr (lexer0, concat (map (\<lambda>w. w @ [NUL]) ?ws))"
    using scan_render_all [of qws "[]" "length ?s * 3"] assms by (simp add: comp_def)
  moreover have "runs [] (concat (map (\<lambda>w. w @ [NUL]) ?ws) @ [NUL]) = ?ws"
    using runs_separated [of ?ws "[NUL]"] assms by (auto simp: renderable_def)
  ultimately show ?thesis
    using parse_args_verdict [OF assms(1), of ?s] by (simp add: lexer_verdict_def lexer0_def)
qed

theorem parse_args_roundtrip_witness:
  "oddjob_parse_args (\<lambda>_. True) (''echo '' @ DQUOTE # ''it is'' @ [DQUOTE, SPACE])
     = Inr (Inr [Some ''echo'', Some ''it is'', None])"
  using parse_args_roundtrip [of "\<lambda>_. True" "[(False, ''echo''), (True, ''it is'')]"]
  by (simp add: render_def renderable_def ordinary_def is_blank_def char_defs)

section \<open>Escapes\<close>

text \<open>The state after a backslash outside quotes.\<close>

definition escaping :: lexer where
  "escaping = \<lparr>sqlevel = 0, dqlevel = 0, escape = True\<rparr>"

lemma scan_plain_prefix:
  "\<forall>c \<in> set a. ordinary c \<Longrightarrow> length out + length a \<le> n \<Longrightarrow>
     \<exists>out'. scan n a lexer0 out = Inr (lexer0, out') \<and> length out' = length out + length a"
proof (induction a arbitrary: out)
  case (Cons c a)
  then have "lex_step lexer0 c = Inr (Some (if is_blank c then NUL else c), lexer0)"
    by (simp add: lex_step_def ordinary_def lexer0_def)
  with Cons.prems Cons.IH [of "out @ [if is_blank c then NUL else c]"] show ?case
    by (auto simp: put_def)
qed simp

lemma lex_step_escaping: "ordinary c \<Longrightarrow> lex_step escaping c = Inr (Some c, escaping)"
  by (simp add: lex_step_def ordinary_def escaping_def)

text \<open>
  C37. A backslash followed by ordinary characters and blanks only is reported as an attempt to
  escape the end of the command, wherever it stands: no such character clears the escape flag.
\<close>

theorem parse_args_escape_never_consumed:
  assumes "\<forall>n. mem n" "\<forall>c \<in> set (a @ b). ordinary c"
  shows "oddjob_parse_args mem (a @ BACKSLASH # b) = Inr (Inl Escape_at_end)"
proof -
  let ?s = "a @ BACKSLASH # b"
  obtain out where a: "scan (length ?s * 3) a lexer0 [] = Inr (lexer0, out)" "length out = length a"
    using scan_plain_prefix [of a "[]" "length ?s * 3"] assms by auto
  have "lex_step lexer0 BACKSLASH = Inr (None, escaping)"
    by (simp add: lex_step_def lexer0_def escaping_def)
  moreover have "scan (length ?s * 3) b escaping out = Inr (escaping, out @ b)"
    using assms a by (intro scan_keep) (auto simp: lex_step_escaping)
  ultimately have "scan (length ?s * 3) ?s lexer0 [] = Inr (escaping, out @ b)"
    using a by (simp add: scan_append)
  then show ?thesis
    using parse_args_verdict [OF assms(1)] by (simp add: lexer_verdict_def escaping_def)
qed

theorem parse_args_escape_never_consumed_witness:
  "oddjob_parse_args (\<lambda>_. True) (''my'' @ BACKSLASH # '' file'') = Inr (Inl Escape_at_end)"
  by (rule parse_args_escape_never_consumed) (simp_all add: ordinary_def char_defs)

end
