(* ===== verification/Buffer.thy ===== *)
theory Buffer
  imports Memory
begin

text \<open>
  The byte buffer of src/buffer.c. A buffer is an allocation of \<open>bsize\<close> bytes of which
  \<open>bspare\<close> have been consumed and the next \<open>bused\<close> are its contents; readers also use
  the contents as a C string, so a NUL is meant to follow them. Sums of sizes wrap around at
  \<open>2 ^ 64\<close> as \<open>size_t\<close> does.
\<close>

record oddjob_buffer =
  bdata :: "cell list"
  bsize :: nat
  bspare :: nat
  bused :: nat

section \<open>Operations\<close>

definition oddjob_buffer_new :: "avail \<Rightarrow> nat \<Rightarrow> oddjob_buffer option" where
  "oddjob_buffer_new mem initial_size =
     (let initial_size = (if initial_size < 1024 then 1024 else initial_size)
      in if mem 32 \<and> mem initial_size
         then Some \<lparr>bdata = (replicate initial_size None)[0 := Some NUL],
                    bsize = initial_size, bspare = 0, bused = 0\<rparr>
         else None)"

text \<open>\<open>howmany(x, 1024)\<close> is the number of kilobytes that hold \<open>x\<close> bytes.\<close>

definition howmany :: "nat \<Rightarrow> nat \<Rightarrow> nat" where
  "howmany x y = (size_add x (y - 1)) div y"

definition oddjob_buffer_assure_avail :: "avail \<Rightarrow> oddjob_buffer \<Rightarrow> nat \<Rightarrow> oddjob_buffer res" where
  "oddjob_buffer_assure_avail mem buf minimum_size =
     (let need = size_add (size_add (bspare buf) (bused buf)) minimum_size
      in if need > bsize buf then
           (let would_be_nice = ((howmany need 1024 + 1) * 1024) mod SIZE_LIMIT
            in if \<not> mem would_be_nice then Inl (Exit 1)
               else res_bind (slice (bdata buf) 0 (size_add (bspare buf) (bused buf)))
                 (\<lambda>old. res_bind (blit (replicate would_be_nice None) 0 old)
                   (\<lambda>d. Inr (buf\<lparr>bdata := d, bsize := would_be_nice\<rparr>))))
         else Inr buf)"

text \<open>
  \<open>length\<close> of \<open>(size_t) -1\<close> means that \<open>bytes\<close> is a C string. The first \<open>len\<close> bytes of the
  object must exist.
\<close>

definition given_bytes :: "char list \<Rightarrow> nat \<Rightarrow> char list res" where
  "given_bytes bytes len =
     (if len = SIZE_MAX
      then (if NUL \<in> set bytes then Inr (cstr bytes) else Inl Out_of_bounds)
      else slice bytes 0 len)"

definition oddjob_buffer_prepend ::
  "avail \<Rightarrow> oddjob_buffer \<Rightarrow> char list \<Rightarrow> nat \<Rightarrow> oddjob_buffer res" where
  "oddjob_buffer_prepend mem buf bytes len =
     res_bind (given_bytes bytes len) (\<lambda>bs.
       let len = length bs
       in if bspare buf > len then
            res_bind (blit (bdata buf) (bspare buf - len) (map Some bs))
              (\<lambda>d. Inr (buf\<lparr>bdata := d, bspare := bspare buf - len\<rparr>))
          else
            res_bind (oddjob_buffer_assure_avail mem buf (size_add len 1)) (\<lambda>buf.
            res_bind (slice (bdata buf) (bspare buf) (bused buf)) (\<lambda>old.
            res_bind (blit (bdata buf) (bspare buf + len) old) (\<lambda>d.
            res_bind (blit d (bspare buf) (map Some bs)) (\<lambda>d.
              Inr (buf\<lparr>bdata := d, bused := size_add (bused buf) len\<rparr>))))))"

definition oddjob_buffer_append ::
  "avail \<Rightarrow> oddjob_buffer \<Rightarrow> char list \<Rightarrow> nat \<Rightarrow> oddjob_buffer res" where
  "oddjob_buffer_append mem buf bytes len =
     res_bind (given_bytes bytes len) (\<lambda>bs.
       let len = length bs
       in res_bind (oddjob_buffer_assure_avail mem buf (size_add len 1)) (\<lambda>buf.
          res_bind (blit (bdata buf) (bspare buf + bused buf) (map Some bs)) (\<lambda>d.
            let buf = buf\<lparr>bdata := d, bused := size_add (bused buf) len\<rparr>
            in res_bind (arr_set (bdata buf) (bspare buf + bused buf) (Some NUL))
                 (\<lambda>d. Inr (buf\<lparr>bdata := d\<rparr>)))))"

definition oddjob_buffer_consume :: "oddjob_buffer \<Rightarrow> nat \<Rightarrow> oddjob_buffer" where
  "oddjob_buffer_consume buf len =
     (if len < bused buf
      then buf\<lparr>bspare := size_add (bspare buf) len, bused := bused buf - len\<rparr>
      else buf\<lparr>bused := 0\<rparr>)"

definition oddjob_buffer_clear :: "oddjob_buffer \<Rightarrow> oddjob_buffer" where
  "oddjob_buffer_clear buf = buf\<lparr>bused := 0\<rparr>"

definition oddjob_buffer_length :: "oddjob_buffer \<Rightarrow> nat" where
  "oddjob_buffer_length buf = bused buf"

text \<open>\<open>oddjob_buffer_data\<close>: the bytes from the first one not consumed to the end of the allocation.\<close>

definition oddjob_buffer_data :: "oddjob_buffer \<Rightarrow> cell list" where
  "oddjob_buffer_data buf = drop (bspare buf) (bdata buf)"

text \<open>\<open>oddjob_buffer_free\<close> clears the fields and releases both allocations.\<close>

definition oddjob_buffer_free :: "nat \<Rightarrow> nat \<Rightarrow> heap \<Rightarrow> heap res" where
  "oddjob_buffer_free buf_addr data_addr h =
     res_bind (oddjob_free (Some data_addr) h) (\<lambda>h'. oddjob_free (Some buf_addr) h')"

section \<open>Contents, well-formedness and termination\<close>

definition contents :: "oddjob_buffer \<Rightarrow> cell list" where
  "contents buf = take (bused buf) (drop (bspare buf) (bdata buf))"

text \<open>Sizes stay below \<open>2 ^ 63\<close>, as those of real objects do.\<close>

definition buf_wf :: "oddjob_buffer \<Rightarrow> bool" where
  "buf_wf buf \<longleftrightarrow> bsize buf = length (bdata buf) \<and> bspare buf + bused buf < bsize buf
     \<and> bsize buf < 2 ^ 63"

text \<open>A NUL follows the contents.\<close>

definition terminated :: "oddjob_buffer \<Rightarrow> bool" where
  "terminated buf \<longleftrightarrow> bspare buf + bused buf < length (bdata buf)
     \<and> bdata buf ! (bspare buf + bused buf) = Some NUL"

text \<open>There is room to add \<open>n\<close> bytes without leaving the range of object sizes.\<close>

definition room :: "oddjob_buffer \<Rightarrow> nat \<Rightarrow> bool" where
  "room buf n \<longleftrightarrow> bspare buf + bused buf + n + 4096 < 2 ^ 63"

lemma contents_length: "buf_wf buf \<Longrightarrow> length (contents buf) = oddjob_buffer_length buf"
  by (auto simp: contents_def buf_wf_def oddjob_buffer_length_def)

lemma new_wf:
  assumes "oddjob_buffer_new mem n = Some buf" "n < 2 ^ 63"
  shows "buf_wf buf \<and> terminated buf \<and> contents buf = []"
  using assms
  by (auto simp: oddjob_buffer_new_def buf_wf_def terminated_def contents_def Let_def split: if_splits)

lemma round_up_lower: "(x::nat) + 1024 \<le> ((x + 1023) div 1024 + 1) * 1024"
proof -
  define q where "q = (x + 1023) div 1024"
  have "(x + 1023) mod 1024 < 1024" by simp
  with div_mult_mod_eq [of "x + 1023" 1024] have "x + 1023 < q * 1024 + 1024"
    unfolding q_def [symmetric] by linarith
  then show ?thesis unfolding q_def [symmetric] by simp
qed

lemma round_up_upper: "((x::nat) + 1023) div 1024 * 1024 + 1024 \<le> x + 2048"
  using div_mult_mod_eq [of "x + 1023" 1024] by linarith

text \<open>Growing keeps the consumed bytes and the contents, and makes the room asked for.\<close>

lemma assure_avail_grows:
  assumes "\<forall>n. mem n" "buf_wf buf" "room buf m"
  obtains buf' where "oddjob_buffer_assure_avail mem buf m = Inr buf'"
    and "bspare buf' = bspare buf" "bused buf' = bused buf" "bsize buf' = length (bdata buf')"
    and "take (bspare buf + bused buf) (bdata buf') = take (bspare buf + bused buf) (bdata buf)"
    and "bspare buf + bused buf + m \<le> bsize buf'" "bsize buf \<le> bsize buf'" "bsize buf' < 2 ^ 63"
    and "bsize buf' \<le> max (bsize buf) (bspare buf + bused buf + m + 2048)"
proof -
  let ?used = "bspare buf + bused buf" and ?nice = "(howmany (bspare buf + bused buf + m) 1024 + 1) * 1024"
  have need: "size_add (bspare buf) (bused buf) = ?used" "size_add ?used m = ?used + m"
    using assms by (simp_all add: buf_wf_def room_def size_add_small SIZE_LIMIT_val)
  have how: "howmany (?used + m) 1024 = (?used + m + 1023) div 1024"
    using assms by (simp add: howmany_def room_def size_add_small SIZE_LIMIT_val)
  have nice: "?used + m + 1024 \<le> ?nice" "?nice \<le> ?used + m + 2048"
    unfolding how using round_up_lower [of "?used + m"] round_up_upper [of "?used + m"]
    by simp_all
  then have nomod: "?nice mod SIZE_LIMIT = ?nice"
    using assms(3) by (intro mod_less) (simp add: room_def SIZE_LIMIT_val)
  show ?thesis
  proof (cases "?used + m > bsize buf")
    case True
    let ?d = "take ?used (bdata buf) @ replicate (?nice - ?used) None"
    have "slice (bdata buf) 0 ?used = Inr (take ?used (bdata buf))"
      using assms(2) by (simp add: slice_def buf_wf_def)
    moreover have "blit (replicate ?nice None) 0 (take ?used (bdata buf)) = Inr ?d"
      using assms(2) nice by (simp add: blit_def buf_wf_def min_def)
    ultimately have "oddjob_buffer_assure_avail mem buf m = Inr (buf\<lparr>bdata := ?d, bsize := ?nice\<rparr>)"
      using True assms(1) need nomod by (simp add: oddjob_buffer_assure_avail_def Let_def)
    moreover have "length ?d = ?nice"
      using assms(2) nice by (simp add: buf_wf_def min_def)
    ultimately show ?thesis
      using that nice True assms(2,3) by (simp add: room_def buf_wf_def)
  next
    case False
    then show ?thesis
      using that [of buf] assms need by (simp add: oddjob_buffer_assure_avail_def buf_wf_def)
  qed
qed

section \<open>Appending\<close>

lemma contents_alt: "contents buf = drop (bspare buf) (take (bspare buf + bused buf) (bdata buf))"
  by (simp add: contents_def drop_take)

lemma contents_split:
  assumes "bspare buf \<le> u" "u \<le> length xs"
    "bdata buf = take u xs @ ys @ zs" "bspare buf + bused buf = u + length ys"
  shows "contents buf = drop (bspare buf) (take u xs) @ ys"
  using assms by (simp add: contents_alt)

lemma append_result:
  assumes mem: "\<forall>n. mem n" and wf: "buf_wf buf" and room: "room buf (length s + 1)"
  shows "\<exists>buf'. oddjob_buffer_append mem buf s (length s) = Inr buf' \<and> buf_wf buf' \<and> terminated buf'
           \<and> contents buf' = contents buf @ map Some s
           \<and> bspare buf' = bspare buf \<and> bused buf' = bused buf + length s"
proof -
  let ?u = "bspare buf + bused buf" and ?n = "length s"
  obtain b where b: "oddjob_buffer_assure_avail mem buf (?n + 1) = Inr b"
    "bspare b = bspare buf" "bused b = bused buf" "bsize b = length (bdata b)"
    "take ?u (bdata b) = take ?u (bdata buf)" "?u + (?n + 1) \<le> bsize b" "bsize b < 2 ^ 63"
    using assure_avail_grows [OF mem wf room] by metis
  have small: "size_add ?n 1 = ?n + 1" "size_add (bused b) ?n = bused buf + ?n" "?n \<noteq> SIZE_MAX"
    using room b by (simp_all add: room_def size_add_small SIZE_LIMIT_val SIZE_MAX_def)
  define d where "d = take ?u (bdata b) @ map Some s @ (drop (?u + ?n) (bdata b))[0 := Some NUL]"
  define buf' where "buf' = b\<lparr>bdata := d, bused := bused buf + ?n\<rparr>"
  have "blit (bdata b) ?u (map Some s)
      = Inr (take ?u (bdata b) @ map Some s @ drop (?u + ?n) (bdata b))"
    using b(4,6) by (simp add: blit_def)
  moreover have "arr_set (take ?u (bdata b) @ map Some s @ drop (?u + ?n) (bdata b)) (?u + ?n) (Some NUL)
      = Inr d"
    using b(4,6) by (simp add: arr_set_def d_def list_update_append min_def)
  ultimately have "oddjob_buffer_append mem buf s ?n = Inr buf'"
    using b(1-4) small
    by (simp add: oddjob_buffer_append_def given_bytes_def slice_def buf'_def Let_def ac_simps)
  moreover have len: "length d = length (bdata b)"
    using b(4,6) by (simp add: d_def)
  moreover have "contents buf' = contents buf @ map Some s"
    using contents_split [of buf' ?u "bdata b" "map Some s"] b
    by (simp add: buf'_def d_def contents_alt [of buf])
  moreover have "d ! (?u + ?n) = Some NUL"
    using b(4,6) by (simp add: d_def nth_append)
  ultimately show ?thesis
    using b(2-4,6,7) by (intro exI [of _ buf']) (simp add: buf_wf_def terminated_def buf'_def ac_simps)
qed

text \<open>
  Appending bytes to a well-formed buffer adds them at the end of its contents and leaves
  it well formed and NUL-terminated.
\<close>

theorem buffer_append_contents:
  assumes "\<forall>n. mem n" "buf_wf buf" "room buf (length s + 1)"
  shows "\<exists>buf'. oddjob_buffer_append mem buf s (length s) = Inr buf'
           \<and> buf_wf buf' \<and> terminated buf' \<and> contents buf' = contents buf @ map Some s"
  using append_result [OF assms] by blast

definition sample_buffer :: oddjob_buffer where
  "sample_buffer = \<lparr>bdata = [Some CHR ''a'', Some NUL, None, None], bsize = 4, bspare = 0, bused = 1\<rparr>"

lemmas buf_predicates = buf_wf_def terminated_def room_def contents_def sample_buffer_def

theorem buffer_append_contents_witness:
  "\<exists>buf'. oddjob_buffer_append (\<lambda>_. True) sample_buffer ''xyz'' (length ''xyz'') = Inr buf'
           \<and> buf_wf buf' \<and> terminated buf' \<and> contents buf' = map Some ''a'' @ map Some ''xyz''"
  using buffer_append_contents [of "\<lambda>_. True" sample_buffer "''xyz''"]
  by (simp add: buf_predicates)

section \<open>Consuming and clearing\<close>

text \<open>
  Consuming n bytes drops the first n bytes of the contents (all of them if there are no
  more) and keeps the buffer well formed, and terminated if some bytes are left.
\<close>

theorem buffer_consume_contents:
  assumes "buf_wf buf"
  shows "contents (oddjob_buffer_consume buf n) = drop n (contents buf)
       \<and> buf_wf (oddjob_buffer_consume buf n)
       \<and> (n < bused buf \<longrightarrow> terminated buf \<longrightarrow> terminated (oddjob_buffer_consume buf n))"
proof (cases "n < bused buf")
  case True
  then have "size_add (bspare buf) n = bspare buf + n"
    using assms by (intro size_add_small) (simp add: buf_wf_def SIZE_LIMIT_val)
  with True assms show ?thesis
    by (auto simp: oddjob_buffer_consume_def contents_def buf_wf_def terminated_def drop_take ac_simps)
next
  case False
  with assms show ?thesis
    by (auto simp: oddjob_buffer_consume_def contents_def buf_wf_def)
qed

definition consumed_buffer :: oddjob_buffer where
  "consumed_buffer = \<lparr>bdata = map Some ''abcd'' @ [Some NUL], bsize = 5, bspare = 2, bused = 2\<rparr>"

theorem buffer_consume_contents_witness:
  "contents (oddjob_buffer_consume consumed_buffer 1) = [Some CHR ''d'']
       \<and> buf_wf (oddjob_buffer_consume consumed_buffer 1)
       \<and> terminated (oddjob_buffer_consume consumed_buffer 1)"
  using buffer_consume_contents [of consumed_buffer 1] by (simp add: buf_predicates consumed_buffer_def)

text \<open>The contents read as a C string.\<close>

lemma cstring_of_contents:
  assumes "terminated buf" "contents buf = map Some s" "nul_free s"
  shows "obj_cstr (oddjob_buffer_data buf) = Inr s"
proof -
  let ?rest = "drop (bspare buf) (bdata buf)"
  have "?rest = take (bused buf) ?rest @ drop (bused buf) ?rest"
    by (rule append_take_drop_id [symmetric])
  also have "drop (bused buf) ?rest = Some NUL # drop (Suc (bspare buf + bused buf)) (bdata buf)"
    using assms(1) Cons_nth_drop_Suc [of "bspare buf + bused buf" "bdata buf"]
    by (simp add: terminated_def add.commute)
  finally have "oddjob_buffer_data buf
      = map Some s @ Some NUL # drop (Suc (bspare buf + bused buf)) (bdata buf)"
    using assms(2) by (simp add: oddjob_buffer_data_def contents_def)
  with assms(3) show ?thesis by (simp add: obj_cstr_string)
qed

text \<open>
  Clearing a buffer, or consuming all of it, makes its length 0, but its data still reads
  as the old string.
\<close>

theorem buffer_clear_leaves_string:
  assumes "terminated buf" "contents buf = map Some s" "nul_free s" "bused buf \<le> n"
  shows "oddjob_buffer_length (oddjob_buffer_clear buf) = 0
       \<and> oddjob_buffer_length (oddjob_buffer_consume buf n) = 0
       \<and> obj_cstr (oddjob_buffer_data (oddjob_buffer_clear buf)) = Inr s
       \<and> obj_cstr (oddjob_buffer_data (oddjob_buffer_consume buf n)) = Inr s"
  using cstring_of_contents [OF assms(1-3)] assms(4)
  by (simp add: oddjob_buffer_length_def oddjob_buffer_clear_def oddjob_buffer_consume_def
      oddjob_buffer_data_def)

theorem buffer_clear_leaves_string_witness:
  "obj_cstr (oddjob_buffer_data (oddjob_buffer_clear sample_buffer)) = Inr ''a''"
  using buffer_clear_leaves_string [of sample_buffer "''a''" 1]
  by (simp add: buf_predicates NUL_def)

section \<open>Prepending\<close>

lemma prepend_result:
  assumes mem: "\<forall>n. mem n" and wf: "buf_wf buf" and room: "room buf (length s + 1)"
    and "bspare buf \<le> length s"
  shows "\<exists>buf'. oddjob_buffer_prepend mem buf s (length s) = Inr buf'
           \<and> buf_wf buf' \<and> contents buf' = map Some s @ contents buf \<and> bspare buf' = bspare buf"
proof -
  let ?u = "bspare buf + bused buf" and ?n = "length s" and ?p = "bspare buf"
  obtain b where b: "oddjob_buffer_assure_avail mem buf (?n + 1) = Inr b"
    "bspare b = ?p" "bused b = bused buf" "bsize b = length (bdata b)"
    "take ?u (bdata b) = take ?u (bdata buf)" "?u + (?n + 1) \<le> bsize b" "bsize b < 2 ^ 63"
    using assure_avail_grows [OF mem wf room] by metis
  have small: "size_add ?n 1 = ?n + 1" "size_add (bused b) ?n = bused buf + ?n" "?n \<noteq> SIZE_MAX"
    using room b by (simp_all add: room_def size_add_small SIZE_LIMIT_val SIZE_MAX_def)
  have old: "take (bused buf) (drop ?p (bdata b)) = contents buf"
    using arg_cong [OF b(5), of "drop ?p"] by (simp add: contents_def drop_take)
  have lold: "length (contents buf) = bused buf"
    using contents_length [OF wf] by (simp add: oddjob_buffer_length_def)
  define m where "m = take (?p + ?n) (bdata b) @ contents buf @ drop (?p + ?n + bused buf) (bdata b)"
  define d where "d = take ?p m @ map Some s @ drop (?p + ?n) m"
  define buf' where "buf' = b\<lparr>bdata := d, bused := bused buf + ?n\<rparr>"
  have "slice (bdata b) ?p (bused buf) = Inr (contents buf)"
    using b old by (simp add: slice_def)
  moreover have "blit (bdata b) (?p + ?n) (contents buf) = Inr m"
    using b lold by (simp add: blit_def m_def)
  moreover have "blit m ?p (map Some s) = Inr d"
    using b lold by (simp add: blit_def m_def d_def)
  ultimately have "oddjob_buffer_prepend mem buf s ?n = Inr buf'"
    using b small assms(4)
    by (simp add: oddjob_buffer_prepend_def given_bytes_def slice_def buf'_def Let_def)
  moreover have "d = take ?p (bdata b) @ (map Some s @ contents buf) @ drop (?p + ?n + bused buf) (bdata b)"
    using b by (simp add: d_def m_def min_def)
  moreover from this have "contents buf' = map Some s @ contents buf"
    using contents_split [of buf' ?p "bdata b" "map Some s @ contents buf"] b lold
    by (simp add: buf'_def ac_simps)
  ultimately show ?thesis
    using b lold by (intro exI [of _ buf']) (simp add: buf_wf_def buf'_def ac_simps)
qed

text \<open>
  Prepending at least as many bytes as the spare space puts them in front of the contents
  and keeps the buffer well formed.
\<close>

theorem buffer_prepend_contents:
  assumes "\<forall>n. mem n" "buf_wf buf" "room buf (length s + 1)" "bspare buf \<le> length s"
  shows "\<exists>buf'. oddjob_buffer_prepend mem buf s (length s) = Inr buf'
           \<and> buf_wf buf' \<and> contents buf' = map Some s @ contents buf"
  using prepend_result [OF assms] by blast

theorem buffer_prepend_contents_witness:
  "\<exists>buf'. oddjob_buffer_prepend (\<lambda>_. True) sample_buffer ''xyz'' (length ''xyz'') = Inr buf'
           \<and> buf_wf buf' \<and> contents buf' = map Some ''xyz'' @ map Some ''a''"
  using buffer_prepend_contents [of "\<lambda>_. True" sample_buffer "''xyz''"]
  by (simp add: buf_predicates)

lemma prepend_spare_result:
  assumes "buf_wf buf" "length s < bspare buf"
  shows "\<exists>buf'. oddjob_buffer_prepend mem buf s (length s) = Inr buf' \<and> buf_wf buf'
           \<and> bspare buf' = bspare buf - length s \<and> bused buf' = bused buf
           \<and> contents buf' = take (bused buf) (map Some s @ contents buf)"
proof -
  let ?p = "bspare buf" and ?n = "length s"
  define d where "d = take (?p - ?n) (bdata buf) @ map Some s @ drop ?p (bdata buf)"
  have n: "?n \<noteq> SIZE_MAX"
    using assms by (auto simp: buf_wf_def SIZE_MAX_def SIZE_LIMIT_val)
  have "blit (bdata buf) (?p - ?n) (map Some s) = Inr d"
    using assms by (simp add: blit_def d_def buf_wf_def)
  then have "oddjob_buffer_prepend mem buf s ?n = Inr (buf\<lparr>bdata := d, bspare := ?p - ?n\<rparr>)"
    using assms n by (simp add: oddjob_buffer_prepend_def given_bytes_def slice_def)
  moreover have "take (bused buf) (drop (?p - ?n) d) = take (bused buf) (map Some s @ contents buf)"
    using assms by (simp add: d_def buf_wf_def contents_def min_def)
  moreover have "length d = length (bdata buf)"
    using assms by (auto simp: d_def buf_wf_def)
  ultimately show ?thesis
    using assms by (auto simp: contents_def buf_wf_def)
qed

text \<open>
  Prepending fewer bytes than the spare space does not increase the length of the buffer:
  as many bytes are lost at its end.
\<close>

theorem buffer_prepend_spare_loses_tail:
  assumes "buf_wf buf" "length s < bspare buf"
  shows "\<exists>buf'. oddjob_buffer_prepend mem buf s (length s) = Inr buf'
           \<and> oddjob_buffer_length buf' = oddjob_buffer_length buf
           \<and> contents buf' = take (bused buf) (map Some s @ contents buf)"
  using prepend_spare_result [OF assms, of mem] by (auto simp: oddjob_buffer_length_def)

theorem buffer_prepend_spare_loses_tail_witness:
  "\<exists>buf'. oddjob_buffer_prepend (\<lambda>_. True) consumed_buffer ''x'' (length ''x'') = Inr buf'
           \<and> oddjob_buffer_length buf' = oddjob_buffer_length consumed_buffer
           \<and> contents buf' = take (bused consumed_buffer) (map Some ''x'' @ contents consumed_buffer)"
  by (rule buffer_prepend_spare_loses_tail) (simp_all add: buf_wf_def consumed_buffer_def)

text \<open>
  Appending a byte to a new buffer and prepending another leaves the byte after the contents
  as \<open>malloc\<close> returned it: the buffer is no longer NUL-terminated.
\<close>

definition prepended_buffer :: "oddjob_buffer res" where
  "prepended_buffer = (case oddjob_buffer_new (\<lambda>_. True) 0 of
       None \<Rightarrow> Inl Null_deref
     | Some buf \<Rightarrow> res_bind (oddjob_buffer_append (\<lambda>_. True) buf ''b'' 1)
                     (\<lambda>buf. oddjob_buffer_prepend (\<lambda>_. True) buf ''a'' 1))"

text \<open>
  After a prepend into a fresh buffer the data is not NUL-terminated: reading it as a
  string reads memory that was never written.
\<close>

theorem buffer_prepend_unterminated:
  "\<exists>buf. prepended_buffer = Inr buf \<and> contents buf = map Some ''ab'' \<and> \<not> terminated buf
       \<and> obj_cstr (oddjob_buffer_data buf) = Inl Uninitialised"
proof -
  let ?R = "replicate 1021 (None :: cell)"
  have sizes: "SIZE_MAX \<noteq> 1" "size_add 1 1 = 2" "size_add 0 0 = 0" "size_add 0 1 = 1" "size_add 0 2 = 2"
    "size_add 1 2 = 3"
    by (simp_all add: SIZE_MAX_def SIZE_LIMIT_val size_add_def)
  have "replicate 1024 (None :: cell) = None # None # None # ?R"
  proof -
    have "(1024::nat) = Suc (Suc (Suc 1021))" by simp
    then show ?thesis by (simp only: replicate_Suc)
  qed
  then have new: "oddjob_buffer_new (\<lambda>_. True) 0
      = Some \<lparr>bdata = Some NUL # None # None # ?R, bsize = 1024, bspare = 0, bused = 0\<rparr>"
    by (simp add: oddjob_buffer_new_def)
  have app: "oddjob_buffer_append (\<lambda>_. True)
      \<lparr>bdata = Some NUL # None # None # ?R, bsize = 1024, bspare = 0, bused = 0\<rparr> ''b'' 1
      = Inr \<lparr>bdata = Some CHR ''b'' # Some NUL # None # ?R, bsize = 1024, bspare = 0, bused = 1\<rparr>"
    using sizes by (simp add: oddjob_buffer_append_def given_bytes_def slice_def
        oddjob_buffer_assure_avail_def blit_def arr_set_def Let_def)
  have pre: "oddjob_buffer_prepend (\<lambda>_. True)
      \<lparr>bdata = Some CHR ''b'' # Some NUL # None # ?R, bsize = 1024, bspare = 0, bused = 1\<rparr> ''a'' 1
      = Inr \<lparr>bdata = Some CHR ''a'' # Some CHR ''b'' # None # ?R, bsize = 1024, bspare = 0, bused = 2\<rparr>"
    using sizes by (simp add: oddjob_buffer_prepend_def given_bytes_def slice_def
        oddjob_buffer_assure_avail_def blit_def Let_def)
  have "CHR ''a'' \<noteq> NUL" "CHR ''b'' \<noteq> NUL" by (simp_all add: NUL_def)
  then show ?thesis
    using new app pre
    by (simp add: prepended_buffer_def contents_def terminated_def oddjob_buffer_data_def)
qed

section \<open>Runs\<close>

text \<open>
  What a client does with a buffer. A string is given with its length, or as a C string with length
  \<open>-1\<close>.
\<close>

datatype buf_op =
    B_prepend bool string
  | B_append bool string
  | B_consume nat
  | B_clear

definition object_of :: "bool \<Rightarrow> string \<Rightarrow> char list" where
  "object_of c_string s = (if c_string then s @ [NUL] else s)"

definition length_of :: "bool \<Rightarrow> string \<Rightarrow> nat" where
  "length_of c_string s = (if c_string then SIZE_MAX else length s)"

fun buf_step :: "avail \<Rightarrow> buf_op \<Rightarrow> oddjob_buffer \<Rightarrow> oddjob_buffer res" where
  "buf_step mem (B_prepend z s) buf = oddjob_buffer_prepend mem buf (object_of z s) (length_of z s)"
| "buf_step mem (B_append z s) buf = oddjob_buffer_append mem buf (object_of z s) (length_of z s)"
| "buf_step mem (B_consume n) buf = Inr (oddjob_buffer_consume buf n)"
| "buf_step mem B_clear buf = Inr (oddjob_buffer_clear buf)"

fun buf_run :: "avail \<Rightarrow> buf_op list \<Rightarrow> oddjob_buffer \<Rightarrow> oddjob_buffer res" where
  "buf_run mem [] buf = Inr buf"
| "buf_run mem (x # xs) buf = res_bind (buf_step mem x buf) (buf_run mem xs)"

text \<open>
  The same on strings: the number of consumed bytes in front, whether the contents can be read as a C
  string, and the contents.
\<close>

record text_state =
  ts_spare :: nat
  ts_readable :: bool
  ts_text :: string

definition text_emptied :: "text_state \<Rightarrow> text_state" where
  "text_emptied t = t\<lparr>ts_readable := ts_readable t \<and> ts_text t = [], ts_text := []\<rparr>"

fun text_step :: "buf_op \<Rightarrow> text_state \<Rightarrow> text_state" where
  "text_step (B_prepend z s) t = t\<lparr>ts_readable := False, ts_text := s @ ts_text t\<rparr>"
| "text_step (B_append z s) t = t\<lparr>ts_readable := True, ts_text := ts_text t @ s\<rparr>"
| "text_step (B_consume n) t =
     (if n < length (ts_text t) then t\<lparr>ts_spare := ts_spare t + n, ts_text := drop n (ts_text t)\<rparr>
      else text_emptied t)"
| "text_step B_clear t = text_emptied t"

text \<open>
  The prepends that the code does right: of nothing, or of at least as many bytes as have been consumed.
  Any other loses bytes (\<open>buffer_prepend_spare_loses_tail\<close>).
\<close>

fun prepends_keep :: "buf_op list \<Rightarrow> text_state \<Rightarrow> bool" where
  "prepends_keep [] t \<longleftrightarrow> True"
| "prepends_keep (x # xs) t \<longleftrightarrow>
     (case x of B_prepend z s \<Rightarrow> s = [] \<or> ts_spare t \<le> length s | _ \<Rightarrow> True) \<and> prepends_keep xs (text_step x t)"

fun op_ok :: "buf_op \<Rightarrow> bool" where
  "op_ok (B_prepend z s) \<longleftrightarrow> z \<longrightarrow> nul_free s"
| "op_ok (B_append z s) \<longleftrightarrow> z \<longrightarrow> nul_free s"
| "op_ok _ \<longleftrightarrow> True"

fun op_bytes :: "buf_op \<Rightarrow> nat" where
  "op_bytes (B_prepend z s) = length s"
| "op_bytes (B_append z s) = length s"
| "op_bytes _ = 0"

definition represents :: "oddjob_buffer \<Rightarrow> text_state \<Rightarrow> bool" where
  "represents buf t \<longleftrightarrow> bspare buf = ts_spare t \<and> contents buf = map Some (ts_text t)
     \<and> (ts_readable t \<longrightarrow> terminated buf)"

lemma represents_used: "buf_wf buf \<Longrightarrow> represents buf t \<Longrightarrow> bused buf = length (ts_text t)"
  using contents_length [of buf] by (simp add: represents_def oddjob_buffer_length_def)

lemma given_object:
  assumes "z \<longrightarrow> nul_free s" "length s < 2 ^ 63"
  shows "given_bytes (object_of z s) (length_of z s) = given_bytes s (length s)"
proof -
  have "length s \<noteq> SIZE_MAX" using assms(2) by (simp add: SIZE_MAX_def SIZE_LIMIT_val)
  with assms(1) show ?thesis by (simp add: given_bytes_def object_of_def length_of_def slice_def cstr_append_NUL)
qed

lemma buf_step_given:
  assumes "op_ok x" "room buf (op_bytes x + 1)"
  shows "buf_step mem x buf = (case x of B_prepend z s \<Rightarrow> oddjob_buffer_prepend mem buf s (length s)
    | B_append z s \<Rightarrow> oddjob_buffer_append mem buf s (length s)
    | B_consume n \<Rightarrow> Inr (oddjob_buffer_consume buf n) | B_clear \<Rightarrow> Inr (oddjob_buffer_clear buf))"
  using assms given_object
  by (cases x) (simp_all add: room_def oddjob_buffer_prepend_def oddjob_buffer_append_def)

lemma emptied_represented:
  assumes "buf_wf buf" "represents buf t"
  shows "represents (buf\<lparr>bused := 0\<rparr>) (text_emptied t)"
  using assms(2) represents_used [OF assms]
  by (auto simp: represents_def text_emptied_def contents_def terminated_def)

text \<open>No step faults, and each keeps a buffer that holds the string.\<close>

lemma buf_step_represented:
  assumes "\<forall>n. mem n" "buf_wf buf" "op_ok x" "room buf (op_bytes x + 1)"
  shows "\<exists>buf'. buf_step mem x buf = Inr buf' \<and> buf_wf buf'
    \<and> bspare buf' + bused buf' \<le> bspare buf + bused buf + op_bytes x
    \<and> (\<forall>t. represents buf t \<and> prepends_keep [x] t \<longrightarrow> represents buf' (text_step x t))"
proof (cases x)
  case x: (B_prepend z s)
  show ?thesis
  proof (cases "length s < bspare buf")
    case True
    obtain buf' where b: "oddjob_buffer_prepend mem buf s (length s) = Inr buf'" "buf_wf buf'"
      "bspare buf' = bspare buf - length s" "bused buf' = bused buf"
      "contents buf' = take (bused buf) (map Some s @ contents buf)"
      using prepend_spare_result [OF assms(2) True, of mem] by blast
    have "bspare buf' + bused buf' \<le> bspare buf + bused buf + length s" using b(3,4) by simp
    moreover have "take (bused buf) (contents buf) = contents buf"
      using contents_length [OF assms(2)] by (simp add: oddjob_buffer_length_def)
    ultimately show ?thesis
      unfolding buf_step_given [OF assms(3,4)] using x b True by (auto simp: represents_def)
  next
    case False
    then obtain buf' where b: "oddjob_buffer_prepend mem buf s (length s) = Inr buf'" "buf_wf buf'"
      "contents buf' = map Some s @ contents buf" "bspare buf' = bspare buf"
      using prepend_result [OF assms(1,2), of s] assms(4) x by auto
    moreover from this have "bused buf' = bused buf + length s"
      using contents_length [OF b(2)] contents_length [OF assms(2)] by (simp add: oddjob_buffer_length_def)
    ultimately show ?thesis
      unfolding buf_step_given [OF assms(3,4)] using x by (auto simp: represents_def)
  qed
next
  case (B_append z s)
  then show ?thesis
    unfolding buf_step_given [OF assms(3,4)] using append_result [OF assms(1,2), of s] assms(4) by (auto simp: represents_def)
next
  case x: (B_consume n)
  have "bspare (oddjob_buffer_consume buf n) + bused (oddjob_buffer_consume buf n) \<le> bspare buf + bused buf"
    "represents buf t \<Longrightarrow> represents (oddjob_buffer_consume buf n) (text_step (B_consume n) t)" for t
  proof -
    have small: "size_add (bspare buf) n = bspare buf + n" if "n < bused buf"
      using that assms(2) by (intro size_add_small) (simp add: buf_wf_def SIZE_LIMIT_val)
    then show "bspare (oddjob_buffer_consume buf n) + bused (oddjob_buffer_consume buf n) \<le> bspare buf + bused buf"
      by (auto simp: oddjob_buffer_consume_def)
    assume r: "represents buf t"
    then show "represents (oddjob_buffer_consume buf n) (text_step (B_consume n) t)"
      using small represents_used [OF assms(2) r] buffer_consume_contents [OF assms(2), of n] emptied_represented [OF assms(2) r]
      by (auto simp: represents_def drop_map oddjob_buffer_consume_def)
  qed
  with x buffer_consume_contents [OF assms(2), of n] show ?thesis by auto
next
  case B_clear
  with emptied_represented [OF assms(2)] assms(2) show ?thesis by (auto simp: oddjob_buffer_clear_def buf_wf_def)
qed

lemma buf_run_represented:
  assumes "\<forall>n. mem n"
  shows "\<lbrakk>buf_wf buf; list_all op_ok xs; bspare buf + bused buf + sum_list (map op_bytes xs) + 4097 < 2 ^ 63\<rbrakk>
    \<Longrightarrow> \<exists>buf'. buf_run mem xs buf = Inr buf' \<and> buf_wf buf'
      \<and> (\<forall>t. represents buf t \<and> prepends_keep xs t \<longrightarrow> represents buf' (fold text_step xs t))"
proof (induction xs arbitrary: buf)
  case (Cons x xs)
  then have "room buf (op_bytes x + 1)" by (simp add: room_def)
  then obtain b where b: "buf_step mem x buf = Inr b" "buf_wf b"
    "bspare b + bused b \<le> bspare buf + bused buf + op_bytes x"
    "\<And>t. represents buf t \<and> prepends_keep [x] t \<Longrightarrow> represents b (text_step x t)"
    using buf_step_represented [OF assms Cons.prems(1)] Cons.prems(2) by (metis list.pred_inject(2))
  with Cons.IH [of b] Cons.prems(2,3) show ?case by fastforce
qed simp



end
