(* ===== verification/Gpupdate.thy ===== *)
theory Gpupdate
  imports Args
begin

unbundle bit_operations_syntax

text \<open>
  The helper of src/gpupdate.c: it reads the user name from standard input, checks the applier
  and runs it in a child process. \<open>fork\<close> splits the program, so a run is the list of the
  processes it ends up with; a process ends in an exit code with the text its standard output
  buffer flushes, or turns into another program.
\<close>

section \<open>Options\<close>

datatype opt = Opt_q | Opt_f | Opt_p string | Opt_bad

text \<open>
  \<open>getopt(argc, argv, "qfp:")\<close> as the sequence of its results: clustered letters, an argument in
  the same word or the next, non-options skipped, \<open>--\<close> ends the options.
\<close>

function (sequential) getopt_words :: "string list \<Rightarrow> opt list"
  and getopt_letters :: "string \<Rightarrow> string list \<Rightarrow> opt list" where
  "getopt_words [] = []"
| "getopt_words (w # ws) =
     (if w = ''--'' then []
      else if 2 \<le> length w \<and> hd w = CHR ''-'' then getopt_letters (tl w) ws
      else getopt_words ws)"
| "getopt_letters [] ws = getopt_words ws"
| "getopt_letters (c # cs) ws =
     (if c = CHR ''q'' then Opt_q # getopt_letters cs ws
      else if c = CHR ''f'' then Opt_f # getopt_letters cs ws
      else if c = CHR ''p'' then
        (if cs \<noteq> [] then Opt_p cs # getopt_words ws
         else (case ws of [] \<Rightarrow> [Opt_bad] | v # ws' \<Rightarrow> Opt_p v # getopt_words ws'))
      else Opt_bad # getopt_letters cs ws)"
  by pat_completeness auto
termination
  by (relation "measure (\<lambda>x. case x of
        Inl ws \<Rightarrow> sum_list (map (\<lambda>w. length w + 1) ws)
      | Inr (cs, ws) \<Rightarrow> length cs + sum_list (map (\<lambda>w. length w + 1) ws) + 1)")
     auto

definition FLAG_QUIET :: nat where "FLAG_QUIET = push_bit 1 1"
definition FLAG_FORCE :: nat where "FLAG_FORCE = push_bit 2 1"

lemma flag_bits [simp]: "FLAG_QUIET = 2" "FLAG_FORCE = 4"
  by (simp_all add: FLAG_QUIET_def FLAG_FORCE_def)

definition default_gpoa :: string where
  "default_gpoa = ''/usr/sbin/gpoa''"

text \<open>The option loop of \<open>main\<close>: the flags and \<open>gpo_exe\<close>; \<open>None\<close> is the usage exit.\<close>

fun option_loop :: "opt list \<Rightarrow> nat \<Rightarrow> string \<Rightarrow> (nat \<times> string) option" where
  "option_loop [] flags exe = Some (flags, exe)"
| "option_loop (Opt_q # os) flags exe = option_loop os (flags OR FLAG_QUIET) exe"
| "option_loop (Opt_f # os) flags exe = option_loop os (flags OR FLAG_FORCE) exe"
| "option_loop (Opt_p path # os) flags exe = option_loop os flags path"
| "option_loop (Opt_bad # os) flags exe = None"

text \<open>\<open>gpo_exe\<close> may be NULL before \<open>main\<close> sets it.\<close>

definition get_gpo_exe :: "string option \<Rightarrow> string" where
  "get_gpo_exe gpo_exe = (case gpo_exe of Some path \<Rightarrow> path | None \<Rightarrow> ''/usr/sbin/gpoa'')"

section \<open>The operating system\<close>

record passwd =
  pw_dir :: "string option"

text \<open>
  What the calls of one run return. \<open>os_exec p\<close>: \<open>execl\<close> of \<open>p\<close> succeeds, so it does not
  return. \<open>os_stat p\<close> is \<open>st_mode\<close>, \<open>None\<close> if \<open>stat\<close> fails.
\<close>

record os =
  os_getpwnam :: "string \<Rightarrow> passwd option"
  os_stat :: "string \<Rightarrow> nat option"
  os_fork :: bool
  os_exec :: "string \<Rightarrow> bool"
  os_waitpid :: bool

definition S_IFMT :: nat where "S_IFMT = 0xF000"
definition S_IFREG :: nat where "S_IFREG = 0x8000"
definition S_IFLNK :: nat where "S_IFLNK = 0xA000"

definition S_ISREG :: "nat \<Rightarrow> bool" where "S_ISREG m \<longleftrightarrow> m AND S_IFMT = S_IFREG"
definition S_ISLNK :: "nat \<Rightarrow> bool" where "S_ISLNK m \<longleftrightarrow> m AND S_IFMT = S_IFLNK"


section \<open>Running the applier\<close>

text \<open>
  Where control goes: a process returns a value to its caller, or becomes another program
  with an argument vector.
\<close>

datatype 'a branch = Parent 'a | Child 'a | Exec string "string list"

text \<open>\<open>execl(exe, exe, ..., user, NULL)\<close>: a NULL \<open>user\<close> ends the arguments early.\<close>

definition exec_args :: "string \<Rightarrow> string option \<Rightarrow> nat \<Rightarrow> string list" where
  "exec_args exe user flags =
     (if flags AND FLAG_FORCE \<noteq> 0 then [exe, ''--force''] else [exe])
       @ (case user of None \<Rightarrow> [] | Some u \<Rightarrow> [u])"

definition apply_gpo :: "os \<Rightarrow> string \<Rightarrow> string option \<Rightarrow> nat \<Rightarrow> int branch list" where
  "apply_gpo os exe user flags =
     (if \<not> os_fork os then [Parent 1]
      else [if os_exec os exe then Exec exe (exec_args exe user flags) else Child 3,
            if \<not> os_waitpid os then Parent 2 else Parent 0])"

text \<open>
  \<open>gpupdate\<close>: the checks of the account, which only log, then the applier. A result is the
  return value with the text printed so far; the branches run on separately.
\<close>

definition check_account :: "os \<Rightarrow> string option \<Rightarrow> unit res" where
  "check_account os user = (case user of
       None \<Rightarrow> Inr ()
     | Some u \<Rightarrow> (case os_getpwnam os u of
         None \<Rightarrow> Inr ()
       | Some pwd \<Rightarrow> (case pw_dir pwd of
           None \<Rightarrow> Inl Null_deref
         | Some d \<Rightarrow> Inr ())))"

definition log_user :: "string option \<Rightarrow> string" where
  "log_user user = (case user of None \<Rightarrow> ''computer'' | Some u \<Rightarrow> u)"

definition apply_status :: "int branch \<Rightarrow> int branch" where
  "apply_status b = (let status = (\<lambda>ret. if ret \<noteq> 0 then HANDLER_FAILURE else 0)
     in case b of Parent r \<Rightarrow> Parent (status r) | Child r \<Rightarrow> Child (status r) | Exec p a \<Rightarrow> Exec p a)"

definition gpupdate ::
  "os \<Rightarrow> string option \<Rightarrow> string option \<Rightarrow> nat \<Rightarrow> (string \<times> int branch list) res" where
  "gpupdate os gpo_exe user flags =
     res_bind (check_account os user) (\<lambda>_.
       let exe = get_gpo_exe gpo_exe;
           printed = (if flags AND FLAG_QUIET = 0
                      then ''Apply group policies for '' @ log_user user @ ''.'' else [])
       in case os_stat os exe of
            None \<Rightarrow> Inr (printed, [Parent HANDLER_INVALID_INVOCATION])
          | Some mode \<Rightarrow>
              if \<not> S_ISREG mode \<and> \<not> S_ISLNK mode
              then Inr (printed, [Parent HANDLER_INVALID_INVOCATION])
              else Inr (printed, map apply_status (apply_gpo os exe user flags)))"

section \<open>The main program\<close>

text \<open>Counting the arguments read from standard input, at most up to 2.\<close>

function count_args :: "string option list option \<Rightarrow> nat \<Rightarrow> nat res" where
  "count_args argv argc = (case argv of
       None \<Rightarrow> Inr argc
     | Some a \<Rightarrow> (case arr_get a argc of
         Inl e \<Rightarrow> Inl e
       | Inr None \<Rightarrow> Inr argc
       | Inr (Some _) \<Rightarrow> if argc > 1 then Inr argc else count_args argv (argc + 1)))"
  by pat_completeness auto
termination
  by (relation "measure (\<lambda>(argv, argc). 2 - argc)") auto

declare count_args.simps [simp del]

text \<open>
  The vector as \<open>oddjob_free_args\<close> sees it: the vector at address 0, its strings after it.
\<close>

fun number_from :: "nat \<Rightarrow> 'a option list \<Rightarrow> nat option list" where
  "number_from i [] = []"
| "number_from i (None # xs) = None # number_from (Suc i) xs"
| "number_from i (Some x # xs) = Some i # number_from (Suc i) xs"

definition addr_vector :: "string option list option \<Rightarrow> vector" where
  "addr_vector argv = (case argv of None \<Rightarrow> None | Some a \<Rightarrow> Some (0, number_from 1 a))"

definition addr_heap :: "string option list option \<Rightarrow> heap" where
  "addr_heap argv = {0 .. length (elems argv)}"

text \<open>How a process ends: its exit code with the flushed output, or another program.\<close>

datatype ending = Exits int string | Becomes string "string list"

fun ending_of :: "string \<Rightarrow> int branch \<Rightarrow> ending" where
  "ending_of printed (Parent r) = Exits r printed"
| "ending_of printed (Child r) = Exits r printed"
| "ending_of printed (Exec p a) = Becomes p a"

definition gpupdate_main ::
  "avail \<Rightarrow> nat \<Rightarrow> os \<Rightarrow> string list \<Rightarrow> string \<Rightarrow> ending list res" where
  "gpupdate_main mem bufsiz os argv stdin =
     (case option_loop (getopt_words argv) 0 default_gpoa of
        None \<Rightarrow> Inr [Exits 1 []]
      | Some (flags, gpo_exe) \<Rightarrow>
          res_bind (oddjob_collect_args mem bufsiz stdin) (\<lambda>oddjob_argv.
          res_bind (count_args oddjob_argv 0) (\<lambda>oddjob_argc.
          res_bind
            (if oddjob_argc = 0 then gpupdate os (Some gpo_exe) None flags
             else if oddjob_argc = 1 then
               res_bind (arr_get (elems oddjob_argv) 0) (\<lambda>a. case a of
                   None \<Rightarrow> Inl Null_deref
                 | Some u \<Rightarrow> if length u > 0 then gpupdate os (Some gpo_exe) (Some u) flags
                             else Inr ([], [Parent HANDLER_INVALID_INVOCATION]))
             else Inr ([], [Parent HANDLER_INVALID_INVOCATION]))
            (\<lambda>(printed, branches).
               res_bind (oddjob_free_args (addr_vector oddjob_argv) (addr_heap oddjob_argv))
                 (\<lambda>_. Inr (map (ending_of printed) branches))))))"

section \<open>The options\<close>

lemma bit_test [simp]:
  "(f OR 2) AND 4 = f AND (4::nat)" "(f OR 4) AND 2 = f AND (2::nat)"
  "(f OR 2) AND 2 = (2::nat)" "(f OR 4) AND 4 = (4::nat)"
  by (simp_all add: and_or_distrib_nat and_or_absorb_nat)

text \<open>The last \<open>-p\<close> decides about the path.\<close>

definition paths :: "opt list \<Rightarrow> string list" where
  "paths os = concat (map (\<lambda>x. case x of Opt_p p \<Rightarrow> [p] | _ \<Rightarrow> []) os)"

lemma option_loop_flags:
  "Opt_bad \<notin> set os \<Longrightarrow>
   \<exists>fl. option_loop os flags exe = Some (fl, last (exe # paths os))
      \<and> (fl AND FLAG_QUIET \<noteq> 0 \<longleftrightarrow> flags AND FLAG_QUIET \<noteq> 0 \<or> Opt_q \<in> set os)
      \<and> (fl AND FLAG_FORCE \<noteq> 0 \<longleftrightarrow> flags AND FLAG_FORCE \<noteq> 0 \<or> Opt_f \<in> set os)"
proof (induction os flags exe rule: option_loop.induct)
  case (4 path os flags exe)
  then show ?case by (auto simp: paths_def)
qed (auto simp: paths_def)

lemma option_loop_bad: "Opt_bad \<in> set os \<Longrightarrow> option_loop os flags exe = None"
  by (induction os flags exe rule: option_loop.induct) auto

text \<open>
  The option loop fails exactly if getopt reports an unknown option; otherwise the quiet
  and force bits are set exactly if -q and -f occur and the applier path is the last -p
  argument, /usr/sbin/gpoa if there is none.
\<close>

theorem options_meaning:
  "(case option_loop os 0 default_gpoa of
      None \<Rightarrow> Opt_bad \<in> set os
    | Some (flags, exe) \<Rightarrow> Opt_bad \<notin> set os
        \<and> (flags AND FLAG_QUIET \<noteq> 0 \<longleftrightarrow> Opt_q \<in> set os)
        \<and> (flags AND FLAG_FORCE \<noteq> 0 \<longleftrightarrow> Opt_f \<in> set os)
        \<and> exe = last (default_gpoa # paths os))"
proof (cases "Opt_bad \<in> set os")
  case True
  then show ?thesis by (simp add: option_loop_bad)
next
  case False
  then show ?thesis
    using option_loop_flags [of os 0 default_gpoa] by auto
qed

section \<open>The account and the applier\<close>

definition applicable :: "os \<Rightarrow> string \<Rightarrow> bool" where
  "applicable os exe \<longleftrightarrow> (\<exists>mode. os_stat os exe = Some mode \<and> (S_ISREG mode \<or> S_ISLNK mode))"

lemma apply_status_simps [simp]:
  "apply_status (Parent r) = Parent (if r \<noteq> 0 then HANDLER_FAILURE else 0)"
  "apply_status (Child r) = Child (if r \<noteq> 0 then HANDLER_FAILURE else 0)"
  "apply_status (Exec p a) = Exec p a"
  by (simp_all add: apply_status_def)

lemma gpupdate_exec:
  assumes "gpupdate os (Some exe) user flags = Inr (printed, bs)" "Exec p a \<in> set bs"
  shows "p = exe \<and> a = exec_args exe user flags \<and> applicable os exe \<and> os_fork os \<and> os_exec os exe"
  using assms
  by (auto simp: gpupdate_def apply_gpo_def applicable_def get_gpo_exe_def Let_def res_simps
           split: option.splits if_splits)

lemma gpupdate_runs:
  assumes "check_account os user = Inr ()" "applicable os exe"
  shows "gpupdate os (Some exe) user flags
     = Inr (if flags AND FLAG_QUIET = 0
            then ''Apply group policies for '' @ log_user user @ ''.'' else [],
            map apply_status (apply_gpo os exe user flags))"
  using assms by (auto simp: gpupdate_def applicable_def get_gpo_exe_def Let_def)

section \<open>Counting and releasing the arguments\<close>

lemma arr_get_map_Some:
  "arr_get (map Some ls @ r) i
     = (if i < length ls then Inr (Some (ls ! i)) else arr_get r (i - length ls))"
  by (auto simp: arr_get_def nth_append)

lemma count_args_terminated:
  "count_args (Some (map Some ls @ [None])) 0 = Inr (min 2 (length ls))"
proof -
  note unfold = count_args.simps [of _ 0] count_args.simps [of _ "Suc 0"]
    count_args.simps [of _ "Suc (Suc 0)"]
  consider "ls = []" | a where "ls = [a]" | a b r where "ls = a # b # r"
    by (metis list.exhaust)
  then show ?thesis
    by cases (simp_all add: unfold arr_get_def numeral_2_eq_2 nth_append split: option.split)
qed

lemma count_args_None: "count_args None n = Inr n"
  by (subst count_args.simps) simp

lemma number_from_strings:
  "number_from i (map Some ls @ r) = map Some [i..<i + length ls] @ number_from (i + length ls) r"
  by (induction ls arbitrary: i) (simp_all add: upt_conv_Cons del: upt_Suc)

text \<open>The addresses of \<open>n\<close> strings and of their vector are distinct and live.\<close>

lemma vector_addresses: "n \<le> m \<Longrightarrow> set [1..<1 + n] \<subseteq> {0..(m::nat)}"
  by auto

lemma free_args_terminated:
  "\<exists>h. oddjob_free_args (addr_vector (Some (map Some ls @ [None])))
         (addr_heap (Some (map Some ls @ [None]))) = Inr h"
proof -
  let ?as = "[1..<1 + length ls]" and ?h = "{0 .. length ls + 1}"
  have "free_until_null (map Some ?as @ None # []) ?h = Inr (?h - set ?as)"
    by (rule free_until_null_all [OF distinct_upt vector_addresses]) simp_all
  moreover have "0 \<in> ?h - set ?as" by auto
  ultimately have "oddjob_free_args (Some (0, map Some ?as @ [None])) ?h = Inr (?h - set ?as - {0})"
    unfolding oddjob_free_args_def oddjob_free_def
    by (simp only: option.case prod.case res_bind_Inr if_True)
  moreover have "addr_vector (Some (map Some ls @ [None])) = Some (0, map Some ?as @ [None])"
    by (simp only: addr_vector_def option.case number_from_strings number_from.simps)
  moreover have "addr_heap (Some (map Some ls @ [None])) = ?h" by (simp add: addr_heap_def)
  ultimately show ?thesis by metis
qed

lemma free_until_null_runs_off:
  "distinct as \<Longrightarrow> set as \<subseteq> h \<Longrightarrow> free_until_null (map Some as) h = Inl Out_of_bounds"
proof (induction as arbitrary: h)
  case (Cons a as)
  then have "free_until_null (map Some as) (h - {a}) = Inl Out_of_bounds"
    by (intro Cons.IH) auto
  with Cons.prems show ?case by (simp add: oddjob_free_def)
qed simp

lemma free_args_unterminated:
  "oddjob_free_args (addr_vector (Some (map Some ls))) (addr_heap (Some (map Some ls)))
     = Inl Out_of_bounds"
proof -
  let ?as = "[1..<1 + length ls]"
  have "free_until_null (map Some ?as) {0 .. length ls} = Inl Out_of_bounds"
    by (rule free_until_null_runs_off [OF distinct_upt vector_addresses]) simp_all
  moreover have "number_from 1 (map Some ls) = map Some ?as"
    using number_from_strings [of 1 ls "[]"] by (simp del: upt_Suc)
  ultimately show ?thesis
    by (simp add: oddjob_free_args_def addr_vector_def addr_heap_def del: upt_Suc)
qed

section \<open>The program\<close>

text \<open>Running the program on a stream of complete lines: the arguments are those lines.\<close>

definition dispatch_args ::
  "os \<Rightarrow> nat \<Rightarrow> string \<Rightarrow> string list \<Rightarrow> (string \<times> int branch list) res" where
  "dispatch_args os flags exe ls = (case ls of
       [] \<Rightarrow> gpupdate os (Some exe) None flags
     | [u] \<Rightarrow> if u \<noteq> [] then gpupdate os (Some exe) (Some u) flags
              else Inr ([], [Parent HANDLER_INVALID_INVOCATION])
     | _ \<Rightarrow> Inr ([], [Parent HANDLER_INVALID_INVOCATION]))"

lemma min_two_zero: "min 2 n = 0 \<longleftrightarrow> n = (0::nat)"
  by (simp add: min_def)

lemma dispatch_args_select:
  "(if min 2 (length ls) = 0 then gpupdate os (Some exe) None flags
    else if min 2 (length ls) = 1 then
      res_bind (arr_get (map Some ls @ r) 0) (\<lambda>a. case a of
          None \<Rightarrow> Inl Null_deref
        | Some u \<Rightarrow> if length u > 0 then gpupdate os (Some exe) (Some u) flags
                    else Inr ([], [Parent HANDLER_INVALID_INVOCATION]))
    else Inr ([], [Parent HANDLER_INVALID_INVOCATION]))
   = dispatch_args os flags exe ls"
proof -
  consider "ls = []" | a where "ls = [a]" | a b s where "ls = a # b # s"
    by (metis list.exhaust)
  then show ?thesis
    by cases (simp_all add: dispatch_args_def arr_get_def)
qed

lemma gpupdate_main_lines:
  assumes "option_loop (getopt_words argv) 0 default_gpoa = Some (flags, exe)"
    and "oddjob_collect_args mem bufsiz stdin = Inr (vector_of ls [])"
  shows "gpupdate_main mem bufsiz os argv stdin
     = res_bind (dispatch_args os flags exe ls)
         (\<lambda>(printed, bs). Inr (map (ending_of printed) bs))"
proof (cases "ls = []")
  case True
  with assms show ?thesis
    by (simp add: gpupdate_main_def vector_of_def count_args_None dispatch_args_def
        addr_vector_def oddjob_free_args_def)
next
  case False
  obtain h where "oddjob_free_args (addr_vector (Some (map Some ls @ [None])))
      (addr_heap (Some (map Some ls @ [None]))) = Inr h"
    using free_args_terminated by blast
  then show ?thesis
    using assms False unfolding dispatch_args_select [of ls os exe flags "[None]", symmetric]
    by (simp add: gpupdate_main_def vector_of_def count_args_terminated min_two_zero)
qed

lemma gpupdate_main_stream:
  assumes "\<forall>n. mem n" "2 \<le> bufsiz"
    and "option_loop (getopt_words argv) 0 default_gpoa = Some (flags, exe)"
    and "\<forall>l \<in> set ls. line_ok l" "length ls + 2 \<le> 0xffff"
  shows "gpupdate_main mem bufsiz os argv (concat (map (\<lambda>l. l @ [LF]) ls))
     = res_bind (dispatch_args os flags exe ls)
         (\<lambda>(printed, bs). Inr (map (ending_of printed) bs))"
  using gpupdate_main_lines [OF assms(3)] collect_args_stream [of mem bufsiz ls "[]"] assms
  by (simp add: line_ok_def plain_def)

text \<open>The message a run prints unless it is quiet.\<close>

definition announcement :: "nat \<Rightarrow> string option \<Rightarrow> string" where
  "announcement flags user = (if flags AND FLAG_QUIET = 0
     then ''Apply group policies for '' @ log_user user @ ''.'' else [])"

lemma gpupdate_user_run:
  assumes "\<forall>n. mem n" "2 \<le> bufsiz"
    and "option_loop (getopt_words argv) 0 default_gpoa = Some (flags, exe)"
    and "line_ok u" "u \<noteq> []" "check_account os (Some u) = Inr ()" "applicable os exe" "os_fork os"
  shows "gpupdate_main mem bufsiz os argv (u @ [LF])
     = Inr [if os_exec os exe then Becomes exe (exec_args exe (Some u) flags)
            else Exits HANDLER_FAILURE (announcement flags (Some u)),
            Exits (if os_waitpid os then 0 else HANDLER_FAILURE) (announcement flags (Some u))]"
  using gpupdate_main_stream [of mem bufsiz argv flags exe "[u]" os] assms
  by (simp add: dispatch_args_def gpupdate_runs apply_gpo_def announcement_def)

text \<open>
  C3. Given one terminated line naming a user, valid options and an applicable applier,
  gpupdate forks once: the child becomes the applier with exactly the arguments path, --force
  if -f was given, and the user; the parent exits 0, or with HANDLER_FAILURE if waitpid fails.
  When execl fails the child goes on as a second copy of the helper that prints the
  announcement too and exits with HANDLER_FAILURE, while the parent still reports success.
\<close>

theorem gpupdate_user:
  assumes "\<forall>n. mem n" "2 \<le> bufsiz"
    and "option_loop (getopt_words argv) 0 default_gpoa = Some (flags, exe)"
    and "line_ok u" "u \<noteq> []" "check_account os (Some u) = Inr ()" "applicable os exe" "os_fork os"
  shows "gpupdate_main mem bufsiz os argv (u @ [LF])
     = Inr [if os_exec os exe then Becomes exe (exe # (if flags AND FLAG_FORCE \<noteq> 0 then [''--force''] else []) @ [u])
            else Exits HANDLER_FAILURE (announcement flags (Some u)),
            Exits (if os_waitpid os then 0 else HANDLER_FAILURE) (announcement flags (Some u))]"
  using gpupdate_user_run [OF assms] by (simp add: exec_args_def)

definition sample_os :: os where
  "sample_os = \<lparr>os_getpwnam = (\<lambda>u. if u = ''ann'' then Some \<lparr>pw_dir = Some ''/home/ann''\<rparr> else None),
     os_stat = (\<lambda>p. if p = default_gpoa then Some 0x81ED else None),
     os_fork = True, os_exec = (\<lambda>_. True), os_waitpid = True\<rparr>"

lemma sample_os_simps:
  "os_getpwnam sample_os ''ann'' = Some \<lparr>pw_dir = Some ''/home/ann''\<rparr>" "os_fork sample_os"
  "applicable sample_os default_gpoa" "os_exec sample_os p" "os_waitpid sample_os"
  by (simp_all add: sample_os_def applicable_def S_ISREG_def S_ISLNK_def S_IFMT_def S_IFREG_def)

theorem gpupdate_user_witness:
  "gpupdate_main (\<lambda>_. True) 8192 sample_os [''-f''] (''ann'' @ [LF])
     = Inr [Becomes default_gpoa [default_gpoa, ''--force'', ''ann''],
            Exits 0 ''Apply group policies for ann.'']"
  using gpupdate_user [of "\<lambda>_. True" 8192 "[''-f'']" 4 default_gpoa "''ann''" sample_os]
  by (simp add: sample_os_simps check_account_def line_ok_def plain_def LF_def NUL_def CR_def exec_args_def
      announcement_def log_user_def)

lemma ending_of_Becomes: "Becomes p a = ending_of s b \<longleftrightarrow> b = Exec p a"
  by (cases b) auto

text \<open>
  C4. Whatever is on the command line and on standard input, the only program a run can turn
  into is the applier chosen by the options, a regular file or symbolic link by stat, with the
  argument vector of apply_gpo and a user that is not the empty string.
\<close>

theorem gpupdate_main_exec_safe:
  assumes "gpupdate_main mem bufsiz os argv stdin = Inr es" "Becomes p a \<in> set es"
  shows "\<exists>flags user. option_loop (getopt_words argv) 0 default_gpoa = Some (flags, p)
           \<and> a = exec_args p user flags \<and> applicable os p \<and> user \<noteq> Some []"
proof -
  from assms obtain flags exe where opts: "option_loop (getopt_words argv) 0 default_gpoa = Some (flags, exe)"
    by (auto simp: gpupdate_main_def split: option.splits)
  define sel where "sel av argc = (if argc = 0 then gpupdate os (Some exe) None flags
    else if argc = 1 then
      res_bind (arr_get (elems av) 0) (\<lambda>a. case a of
          None \<Rightarrow> Inl Null_deref
        | Some u \<Rightarrow> if length u > 0 then gpupdate os (Some exe) (Some u) flags
                    else Inr ([], [Parent HANDLER_INVALID_INVOCATION]))
    else Inr ([], [Parent HANDLER_INVALID_INVOCATION]))" for av and argc :: nat
  have "gpupdate_main mem bufsiz os argv stdin
      = res_bind (oddjob_collect_args mem bufsiz stdin) (\<lambda>av. res_bind (count_args av 0) (\<lambda>argc.
          res_bind (sel av argc) (\<lambda>(printed, bs).
            res_bind (oddjob_free_args (addr_vector av) (addr_heap av))
              (\<lambda>_. Inr (map (ending_of printed) bs)))))"
    unfolding gpupdate_main_def opts sel_def by simp
  with assms(1) obtain av argc printed bs where
    sel: "sel av argc = Inr (printed, bs)" and es: "es = map (ending_of printed) bs"
    by (auto simp: res_bind_eq_Inr)
  have "Exec p a \<in> set bs" using assms(2) es by (auto simp: ending_of_Becomes)
  moreover from sel have "(\<exists>user. gpupdate os (Some exe) user flags = Inr (printed, bs) \<and> user \<noteq> Some [])
      \<or> bs = [Parent HANDLER_INVALID_INVOCATION]"
    by (auto simp: sel_def res_bind_eq_Inr split: if_splits option.splits)
  ultimately show ?thesis using opts gpupdate_exec by fastforce
qed

theorem gpupdate_main_exec_safe_witness:
  "\<exists>flags user. option_loop (getopt_words []) 0 default_gpoa = Some (flags, default_gpoa)
           \<and> [default_gpoa] = exec_args default_gpoa user flags \<and> applicable sample_os default_gpoa
           \<and> user \<noteq> Some []"
proof (rule gpupdate_main_exec_safe)
  show "gpupdate_main (\<lambda>_. True) 8192 sample_os [] []
      = Inr [Becomes default_gpoa [default_gpoa], Exits 0 ''Apply group policies for computer.'']"
    using gpupdate_main_stream [of "\<lambda>_. True" 8192 "[]" 0 default_gpoa "[]" sample_os]
    by (simp add: dispatch_args_def gpupdate_runs sample_os_simps check_account_def apply_gpo_def
        exec_args_def log_user_def)
qed simp

text \<open>
  Two or more lines, or one empty line, on standard input make the helper exit with
  HANDLER_INVALID_INVOCATION without forking and without printing.
\<close>

theorem gpupdate_main_wrong_arguments:
  assumes "\<forall>n. mem n" "2 \<le> bufsiz"
    and "option_loop (getopt_words argv) 0 default_gpoa = Some (flags, exe)"
    and "\<forall>l \<in> set ls. line_ok l" "length ls + 2 \<le> 0xffff" "2 \<le> length ls \<or> ls = [[]]"
  shows "gpupdate_main mem bufsiz os argv (concat (map (\<lambda>l. l @ [LF]) ls))
           = Inr [Exits HANDLER_INVALID_INVOCATION []]"
proof -
  have "dispatch_args os flags exe ls = Inr ([], [Parent HANDLER_INVALID_INVOCATION])"
    using assms(6) by (auto simp: dispatch_args_def Suc_le_length_iff numeral_2_eq_2)
  then show ?thesis
    using gpupdate_main_stream [OF assms(1-5), of os] by simp
qed

theorem gpupdate_main_wrong_arguments_witness:
  "gpupdate_main (\<lambda>_. True) 8192 sample_os [] (concat (map (\<lambda>l. l @ [LF]) [''a'', ''b'']))
     = Inr [Exits HANDLER_INVALID_INVOCATION []]"
  by (rule gpupdate_main_wrong_arguments [where flags = 0 and exe = default_gpoa])
     (simp_all add: line_ok_def plain_def LF_def NUL_def CR_def)

text \<open>
  C36. If standard input ends with an unterminated line after at least one complete line, the
  helper reads past the end of its argument vector: oddjob_collect_args stores the last line
  without growing the vector, so it has no terminating NULL.
\<close>

theorem gpupdate_main_unterminated_line:
  assumes "\<forall>n. mem n" "2 \<le> bufsiz"
    and "option_loop (getopt_words argv) 0 default_gpoa = Some (flags, exe)"
    and "\<forall>l \<in> set ls. line_ok l" "length ls + 2 \<le> 0xffff" "ls \<noteq> []" "line_ok r" "r \<noteq> []"
  shows "gpupdate_main mem bufsiz os argv (concat (map (\<lambda>l. l @ [LF]) ls) @ r) = Inl Out_of_bounds"
proof -
  note unfold = count_args.simps [of _ 0] count_args.simps [of _ "Suc 0"]
    count_args.simps [of _ "Suc (Suc 0)"]
  let ?v = "Some (map Some (ls @ [r]))"
  have collect: "oddjob_collect_args mem bufsiz (concat (map (\<lambda>l. l @ [LF]) ls) @ r) = Inr ?v"
    using collect_args_stream [OF assms(1,2,4,7,5)] assms(6,8) by (simp add: vector_of_def)
  have count: "count_args ?v 0 = (if length ls = 1 then Inl Out_of_bounds else Inr 2)"
  proof -
    from assms(6) consider a where "ls = [a]" | a b s where "ls = a # b # s"
      by (metis list.exhaust)
    then show ?thesis
      by cases (simp_all add: unfold arr_get_def nth_append numeral_2_eq_2 split: option.split)
  qed
  show ?thesis
    using assms(3) collect count free_args_unterminated [of "ls @ [r]"]
    by (simp add: gpupdate_main_def)
qed

theorem gpupdate_main_unterminated_line_witness:
  "gpupdate_main (\<lambda>_. True) 8192 sample_os [] (concat (map (\<lambda>l. l @ [LF]) [''ann'']) @ ''x'')
     = Inl Out_of_bounds"
  by (rule gpupdate_main_unterminated_line [where flags = 0 and exe = default_gpoa])
     (simp_all add: line_ok_def plain_def LF_def NUL_def CR_def)

text \<open>
  A user whose password entry has a NULL home directory is logged and then dereferenced:
  the run ends in a NULL pointer access.
\<close>

theorem gpupdate_main_null_home:
  assumes "\<forall>n. mem n" "2 \<le> bufsiz"
    and "option_loop (getopt_words argv) 0 default_gpoa = Some (flags, exe)"
    and "line_ok u" "u \<noteq> []" "os_getpwnam os u = Some pwd" "pw_dir pwd = None"
  shows "gpupdate_main mem bufsiz os argv (u @ [LF]) = Inl Null_deref"
  using gpupdate_main_stream [of mem bufsiz argv flags exe "[u]" os] assms
  by (simp add: dispatch_args_def gpupdate_def check_account_def)

theorem gpupdate_main_null_home_witness:
  "gpupdate_main (\<lambda>_. True) 8192 (sample_os\<lparr>os_getpwnam := (\<lambda>_. Some \<lparr>pw_dir = None\<rparr>)\<rparr>) []
     (''svc'' @ [LF]) = Inl Null_deref"
  by (rule gpupdate_main_null_home [where flags = 0 and exe = default_gpoa and pwd = "\<lparr>pw_dir = None\<rparr>"])
     (simp_all add: line_ok_def plain_def LF_def NUL_def CR_def)

end
