(* ===== verification/Selinux.thy ===== *)
theory Selinux
  imports Args "HOL-Library.Word" "HOL-Library.Sublist"
begin

unbundle bit_operations_syntax

text \<open>
  src/selinux.c: the file-creation context of the process, and \<open>oddjob_selinux_mkdir\<close>, which
  creates a directory and the directories leading to it. The kernel and libselinux are
  parameters: the kernel is a record of its calls over a world of any type, libselinux the
  results of its queries. The state of the process is its umask, its file-creation context, its
  \<open>errno\<close>, the cached answer of \<open>is_selinux_enabled\<close> and the \<open>mkdir\<close> calls made so far.
\<close>

type_synonym mode = "32 word"
type_synonym ident = "32 word"

record 'w kernel =
  k_stat :: "string \<Rightarrow> 'w \<Rightarrow> mode option"
  k_mkdir :: "string \<Rightarrow> mode \<Rightarrow> mode \<Rightarrow> 'w \<Rightarrow> errno option \<times> 'w"
  k_chown :: "string \<Rightarrow> ident \<Rightarrow> ident \<Rightarrow> 'w \<Rightarrow> bool \<times> 'w"
  k_rmdir :: "string \<Rightarrow> 'w \<Rightarrow> 'w"

text \<open>
  \<open>se_labels\<close>: built with SELINUX_LABELS. \<open>se_probe\<close>: what \<open>is_selinux_enabled\<close> answers.
  \<open>se_match\<close>: \<open>matchpathcon\<close>, \<open>None\<close> for a failure, \<open>Some None\<close> for a NULL context.
  \<open>se_setfscreate\<close>: \<open>setfscreatecon\<close>, \<open>None\<close> for success, else the error it leaves in \<open>errno\<close>.
\<close>

record selinux_lib =
  se_labels :: bool
  se_probe :: int
  se_match :: "string \<Rightarrow> mode \<Rightarrow> string option option"
  se_setfscreate :: "string option \<Rightarrow> errno option"

record mkdir_call =
  c_path :: string
  c_mode :: mode
  c_umask :: mode
  c_context :: "string option"

record 'w proc =
  world :: 'w
  proc_umask :: mode
  fscreate :: "string option"
  proc_errno :: errno
  selinux_enabled :: int
  calls :: "mkdir_call list"

section \<open>The file-creation context\<close>

definition setfscreatecon :: "selinux_lib \<Rightarrow> string option \<Rightarrow> 'w proc \<Rightarrow> 'w proc" where
  "setfscreatecon se context p = (case se_setfscreate se context of
     None \<Rightarrow> p\<lparr>fscreate := context\<rparr> | Some e \<Rightarrow> p\<lparr>proc_errno := e\<rparr>)"

definition oddjob_check_selinux_enabled :: "selinux_lib \<Rightarrow> 'w proc \<Rightarrow> bool \<times> 'w proc" where
  "oddjob_check_selinux_enabled se p =
     (let e = (if selinux_enabled p = - 1 then se_probe se else selinux_enabled p)
      in (e = 1, p\<lparr>selinux_enabled := e\<rparr>))"

definition oddjob_unset_selinux_file_creation_context :: "selinux_lib \<Rightarrow> 'w proc \<Rightarrow> 'w proc" where
  "oddjob_unset_selinux_file_creation_context se p =
     (if \<not> se_labels se then p
      else (let (enabled, p) = oddjob_check_selinux_enabled se p
            in if \<not> enabled then p else setfscreatecon se None p))"

definition oddjob_set_selinux_file_creation_context ::
  "selinux_lib \<Rightarrow> string \<Rightarrow> mode \<Rightarrow> 'w proc \<Rightarrow> 'w proc" where
  "oddjob_set_selinux_file_creation_context se path mode p =
     (if \<not> se_labels se then p
      else (let (enabled, p) = oddjob_check_selinux_enabled se p
            in if \<not> enabled then p
               else (case se_match se path mode of
                   None \<Rightarrow> p
                 | Some None \<Rightarrow> oddjob_unset_selinux_file_creation_context se p
                 | Some (Some context) \<Rightarrow>
                     if context = ''<<none>>''
                     then oddjob_unset_selinux_file_creation_context se p
                     else setfscreatecon se (Some context) p)))"

section \<open>Collapsing slashes in place\<close>

definition SLASH :: char where "SLASH = CHR 0x2F"

text \<open>Moving the rest of a string over its first byte takes one byte off it.\<close>

lemma cstr_moved:
  assumes "q = c # w" "c \<noteq> NUL" "length (cstr q) \<le> length w"
  shows "cstr (take (length (cstr q)) w @ drop (length (cstr q)) q) = cstr w"
proof -
  have n: "length (cstr q) = Suc (length (cstr w))" using assms by (simp add: cstr_def)
  with assms(3) have "cstr w \<noteq> w" by auto
  then obtain r where r: "w = cstr w @ NUL # r" using cstr_split by blast
  have "take (Suc (length (cstr w))) (cstr w @ NUL # r) = cstr w @ [NUL]" by simp
  with n r have "take (length (cstr q)) w = cstr w @ [NUL]" by metis
  then show ?thesis by (simp add: cstr_append_NUL)
qed

text \<open>
  The memory from \<open>q\<close> on. The \<open>while\<close> loop moves the rest of the string (with its NUL) over
  the slash at \<open>q\<close> as long as a slash or the end follows it.
\<close>

function squeeze :: "char list \<Rightarrow> char list res" where
  "squeeze q = (case q of
       [] \<Rightarrow> Inl Out_of_bounds
     | c # w \<Rightarrow>
         if c \<noteq> SLASH then Inr q
         else (case w of
             [] \<Rightarrow> Inl Out_of_bounds
           | d # _ \<Rightarrow>
               if d = SLASH \<or> d = NUL
               then (let n = length (cstr q)
                     in if n \<le> length w then squeeze (take n w @ drop n q) else Inl Out_of_bounds)
               else Inr q))"
  by pat_completeness auto
termination
proof (relation "measure (\<lambda>q. length (cstr q))", simp)
  fix q c w d v n
  assume "q = c # w" "\<not> c \<noteq> SLASH" "w = d # v" "d = SLASH \<or> d = NUL" "n = length (cstr q)" "n \<le> length w"
  then show "(take n w @ drop n q, q) \<in> measure (\<lambda>q. length (cstr q))"
    using cstr_moved [of q c w] by (simp add: SLASH_def NUL_def cstr_def)
qed

declare squeeze.simps [simp del]

lemma squeeze_step:
  "squeeze (c # w) = (if c \<noteq> SLASH then Inr (c # w)
     else if w = [] then Inl Out_of_bounds
     else if hd w \<noteq> SLASH \<and> hd w \<noteq> NUL then Inr (c # w)
     else if length (cstr (c # w)) \<le> length w
     then squeeze (take (length (cstr (c # w))) w @ drop (length (cstr (c # w))) (c # w))
     else Inl Out_of_bounds)"
proof (cases w)
  case Nil
  then show ?thesis by (subst squeeze.simps) simp
next
  case (Cons d v)
  then show ?thesis by (subst squeeze.simps) (simp add: Let_def)
qed

lemma squeeze_length: "squeeze q = Inr q' \<Longrightarrow> length q' = length q"
proof (induction "length (cstr q)" arbitrary: q q' rule: less_induct)
  case less
  show ?case
  proof (cases q)
    case Nil
    with less.prems show ?thesis by (simp add: squeeze.simps)
  next
    case (Cons c w)
    let ?n = "length (cstr q)"
    let ?q = "take ?n w @ drop ?n q"
    show ?thesis
    proof (cases "c = SLASH \<and> w \<noteq> [] \<and> (hd w = SLASH \<or> hd w = NUL) \<and> ?n \<le> length w")
      case True
      then have "c \<noteq> NUL" by (simp add: SLASH_def NUL_def)
      then have "?n = Suc (length (cstr w))" using Cons by (simp add: cstr_def)
      moreover have "cstr ?q = cstr w"
        using True \<open>c \<noteq> NUL\<close> Cons by (intro cstr_moved) auto
      ultimately have "length (cstr ?q) < ?n" by simp
      moreover have "squeeze q = squeeze ?q"
        unfolding Cons by (subst squeeze_step) (use True Cons in auto)
      then have "squeeze ?q = Inr q'" using less.prems by simp
      ultimately have "length q' = length ?q" using less.hyps by blast
      then show ?thesis using True Cons by auto
    next
      case False
      with less.prems Cons show ?thesis
        by (fastforce simp: squeeze_step split: if_splits)
    qed
  qed
qed

text \<open>
  The \<open>for\<close> loop over the copy of the path: \<open>before\<close> is the memory passed already, \<open>q\<close> the
  rest. The path afterwards is the string at the start of the memory.
\<close>

function collapse_loop :: "char list \<Rightarrow> char list \<Rightarrow> char list res" where
  "collapse_loop before q = (case q of
       [] \<Rightarrow> Inl Out_of_bounds
     | c # _ \<Rightarrow>
         if c = NUL then Inr (before @ q)
         else (case squeeze q of
             Inl e \<Rightarrow> Inl e
           | Inr [] \<Rightarrow> Inl Out_of_bounds
           | Inr (d # r) \<Rightarrow> collapse_loop (before @ [d]) r))"
  by pat_completeness auto
termination
  by (relation "measure (\<lambda>(_, q). length q)") (auto dest: squeeze_length)

declare collapse_loop.simps [simp del]

definition collapse_slashes :: "string \<Rightarrow> string res" where
  "collapse_slashes newpath =
     res_bind (collapse_loop [] (newpath @ [NUL])) (\<lambda>tmp. Inr (cstr tmp))"

section \<open>What the loop computes\<close>

text \<open>The path without the slashes that another slash or the end follows.\<close>

fun tidy :: "string \<Rightarrow> string" where
  "tidy [] = []"
| "tidy (c # cs) = (if c = SLASH \<and> (cs = [] \<or> hd cs = SLASH) then tidy cs else c # tidy cs)"

fun lead :: "string \<Rightarrow> string" where
  "lead [] = []"
| "lead (c # cs) = (if c = SLASH \<and> (cs = [] \<or> hd cs = SLASH) then lead cs else c # cs)"

lemma SLASH_not_NUL [simp]: "SLASH \<noteq> NUL" "NUL \<noteq> SLASH"
  by (simp_all add: SLASH_def NUL_def)

lemma tidy_lead: "tidy s = (case lead s of [] \<Rightarrow> [] | c # cs \<Rightarrow> c # tidy cs)"
  by (induction s) auto

lemma length_lead: "length (lead s) \<le> length s"
  by (induction s) auto

lemma lead_nul_free: "nul_free s \<Longrightarrow> nul_free (lead s)"
  by (induction s) auto

lemma squeeze_string:
  "nul_free s \<Longrightarrow> \<exists>k. squeeze (s @ NUL # r) = Inr (lead s @ replicate k NUL @ NUL # r)
                   \<and> (lead s = [] \<longrightarrow> s \<noteq> [] \<longrightarrow> 0 < k)"
proof (induction s arbitrary: r)
  case Nil
  then show ?case by (auto simp: squeeze.simps intro: exI [of _ 0])
next
  case (Cons c cs)
  show ?case
  proof (cases "c = SLASH \<and> (cs = [] \<or> hd cs = SLASH)")
    case False
    with Cons.prems show ?thesis
      by (cases cs) (auto simp: squeeze_step intro!: exI [of _ 0])
  next
    case True
    let ?q = "SLASH # cs @ NUL # r"
    have "cstr ?q = SLASH # cs"
      using Cons.prems cstr_append_NUL [of "SLASH # cs" r] by simp
    then have "squeeze ?q = squeeze (cs @ NUL # NUL # r)"
      using True squeeze_step [of SLASH "cs @ NUL # r"] by (cases cs) simp_all
    moreover obtain k where "squeeze (cs @ NUL # NUL # r)
        = Inr (lead cs @ replicate k NUL @ NUL # NUL # r)"
      using Cons by fastforce
    ultimately show ?thesis
      using True by (intro exI [of _ "Suc k"]) (simp add: replicate_app_Cons_same)
  qed
qed

lemma collapse_loop_string:
  "nul_free s \<Longrightarrow> nul_free before \<Longrightarrow>
     \<exists>m. collapse_loop before (s @ NUL # r) = Inr m \<and> cstr m = before @ tidy s"
proof (induction "length s" arbitrary: s before r rule: less_induct)
  case less
  show ?case
  proof (cases s)
    case Nil
    with less.prems show ?thesis
      by (simp add: collapse_loop.simps cstr_append_NUL)
  next
    case (Cons c cs)
    obtain k where k: "squeeze (s @ NUL # r) = Inr (lead s @ replicate k NUL @ NUL # r)"
      "lead s = [] \<longrightarrow> 0 < k"
      using squeeze_string [OF less.prems(1), of r] Cons by auto
    have c: "c \<noteq> NUL" using less.prems Cons by simp
    show ?thesis
    proof (cases "lead s")
      case Nil
      with k obtain j where "k = Suc j" by (cases k) auto
      with k Nil c Cons have "collapse_loop before (s @ NUL # r)
          = collapse_loop (before @ [NUL]) (replicate j NUL @ NUL # r)"
        by (simp add: collapse_loop.simps [of before])
      also have "\<dots> = Inr (before @ NUL # replicate j NUL @ NUL # r)"
        by (cases j) (simp_all add: collapse_loop.simps [of "before @ [NUL]"])
      finally show ?thesis
        using less.prems Nil by (simp add: cstr_append_NUL tidy_lead)
    next
      case (Cons d ds)
      with less.prems(1) have "nul_free (d # ds)" using lead_nul_free by metis
      moreover have "length ds < length s" using Cons length_lead [of s] by simp
      moreover have "collapse_loop before (s @ NUL # r)
          = collapse_loop (before @ [d]) (ds @ NUL # (replicate k NUL @ r))"
        using k Cons c \<open>s = c # cs\<close>
        by (simp add: collapse_loop.simps [of before] replicate_app_Cons_same)
      ultimately show ?thesis
        using less.hyps [of ds "before @ [d]" "replicate k NUL @ r"] less.prems Cons
        by (simp add: tidy_lead)
    qed
  qed
qed

lemma collapse_slashes_tidy: "nul_free s \<Longrightarrow> collapse_slashes s = Inr (tidy s)"
  using collapse_loop_string [of s "[]" "[]"] by (auto simp: collapse_slashes_def)

section \<open>Making directories\<close>

definition PATH_MAX :: nat where "PATH_MAX = 4096"
definition S_IFDIR :: mode where "S_IFDIR = 0x4000"
definition S_IRWXU :: mode where "S_IRWXU = 0x1C0"
definition S_IXGRP :: mode where "S_IXGRP = 0x8"
definition S_IXOTH :: mode where "S_IXOTH = 0x1"
definition perms :: mode where "perms = S_IRWXU OR S_IXGRP OR S_IXOTH"

text \<open>\<open>umask\<close> keeps the permission bits and returns the mask it replaces.\<close>

definition do_umask :: "mode \<Rightarrow> 'w proc \<Rightarrow> mode \<times> 'w proc" where
  "do_umask m p = (proc_umask p, p\<lparr>proc_umask := m AND 0x1FF\<rparr>)"

text \<open>Whether \<open>mkdir\<close> returned 0; the error of a failure is in \<open>errno\<close>.\<close>

definition do_mkdir :: "'w kernel \<Rightarrow> string \<Rightarrow> mode \<Rightarrow> 'w proc \<Rightarrow> bool \<times> 'w proc" where
  "do_mkdir k path mode p =
     (let (i, w) = k_mkdir k path mode (proc_umask p) (world p)
      in (i = None, p\<lparr>world := w, proc_errno := (case i of None \<Rightarrow> proc_errno p | Some e \<Rightarrow> e),
           calls := calls p @ [\<lparr>c_path = path, c_mode = mode,
               c_umask = proc_umask p, c_context = fscreate p\<rparr>]\<rparr>))"

text \<open>One leading directory; the result tells whether the walk goes on.\<close>

definition make_leading :: "selinux_lib \<Rightarrow> 'w kernel \<Rightarrow> string \<Rightarrow> 'w proc \<Rightarrow> bool \<times> 'w proc" where
  "make_leading se k path p =
     (if (case k_stat k path (world p) of None \<Rightarrow> False | Some st \<Rightarrow> st AND S_IFDIR \<noteq> 0)
      then (True, p)
      else (let p = oddjob_set_selinux_file_creation_context se path
                      (S_IRWXU OR S_IXGRP OR S_IXOTH OR S_IFDIR) p;
                (stored_umask, p) = do_umask (NOT perms) p;
                (i, p) = do_mkdir k path perms p;
                (_, p) = do_umask stored_umask p;
                p = oddjob_unset_selinux_file_creation_context se p
            in (i \<or> proc_errno p = EEXIST, p)))"

text \<open>The walk: \<open>path\<close> is the array, \<open>i\<close> is \<open>p - newpath\<close>; \<open>None\<close> is the failure return.\<close>

fun mkdir_walk ::
  "selinux_lib \<Rightarrow> 'w kernel \<Rightarrow> char list \<Rightarrow> nat \<Rightarrow> string \<Rightarrow> 'w proc \<Rightarrow> (char list option \<times> 'w proc) res"
where
  "mkdir_walk se k path i [] p = Inr (Some path, p)"
| "mkdir_walk se k path i (c # cs) p =
     (let (ok, p) = (if i > 0 \<and> c = SLASH then make_leading se k (cstr path) p else (True, p))
      in if \<not> ok then Inr (None, p)
         else res_bind (arr_set path i c) (\<lambda>path. mkdir_walk se k path (i + 1) cs p))"

definition make_last ::
  "selinux_lib \<Rightarrow> 'w kernel \<Rightarrow> string \<Rightarrow> mode \<Rightarrow> ident \<Rightarrow> ident \<Rightarrow> 'w proc \<Rightarrow> int \<times> 'w proc" where
  "make_last se k path mode uid gid p =
     (let p = oddjob_set_selinux_file_creation_context se path (mode OR S_IFDIR) p;
          (i, p) = do_mkdir k path mode p;
          p = oddjob_unset_selinux_file_creation_context se p
      in if \<not> i \<and> proc_errno p \<noteq> EEXIST then (HANDLER_FAILURE, p)
         else if uid \<noteq> - 1 \<and> gid \<noteq> - 1 then
           (let (ok, w) = k_chown k path uid gid (world p)
            in if \<not> ok then (HANDLER_FAILURE, p\<lparr>world := k_rmdir k path w\<rparr>)
               else (0, p\<lparr>world := w\<rparr>))
         else (0, p))"

definition oddjob_selinux_mkdir ::
  "selinux_lib \<Rightarrow> 'w kernel \<Rightarrow> string \<Rightarrow> mode \<Rightarrow> ident \<Rightarrow> ident \<Rightarrow> 'w proc \<Rightarrow> (int \<times> 'w proc) res"
where
  "oddjob_selinux_mkdir se k newpath mode uid gid p =
     res_bind (if length newpath < PATH_MAX + 1 then collapse_slashes newpath else Inr newpath)
       (\<lambda>newpath.
          if length newpath < PATH_MAX + 1
          then res_bind (mkdir_walk se k (replicate (PATH_MAX + 1) NUL) 0 newpath p)
                 (\<lambda>(r, p). case r of
                     None \<Rightarrow> Inr (HANDLER_FAILURE, p)
                   | Some path \<Rightarrow> Inr (make_last se k (cstr path) mode uid gid p))
          else Inr (HANDLER_INVALID_INVOCATION, p))"

section \<open>Which calls are made\<close>

text \<open>
  The label a new directory gets: that of the policy, or the kernel's default if it has none. Where
  \<open>matchpathcon\<close> fails, or SELinux is off, the context the process had before stays in force.
\<close>

definition label_of :: "selinux_lib \<Rightarrow> string option \<Rightarrow> string \<Rightarrow> mode \<Rightarrow> string option" where
  "label_of se before path mode =
     (if se_labels se \<and> se_probe se = 1
      then (case se_match se path mode of
          None \<Rightarrow> before
        | Some None \<Rightarrow> None
        | Some (Some context) \<Rightarrow> if context = ''<<none>>'' then None else Some context)
      else before)"

text \<open>What is left of the context of the process after each \<open>mkdir\<close>: nothing, where SELinux is on.\<close>

definition left_over :: "selinux_lib \<Rightarrow> string option \<Rightarrow> string option" where
  "left_over se before = (if se_labels se \<and> se_probe se = 1 then None else before)"

text \<open>A process that may set its file-creation context.\<close>

definition may_label :: "selinux_lib \<Rightarrow> bool" where
  "may_label se \<longleftrightarrow> (\<forall>context. se_setfscreate se context = None)"

lemma setfscreatecon_sets: "may_label se \<Longrightarrow> setfscreatecon se context p = p\<lparr>fscreate := context\<rparr>"
  by (simp add: may_label_def setfscreatecon_def)

text \<open>A mask of permission bits, and a cached answer that is that of \<open>is_selinux_enabled\<close>.\<close>

definition tidy_proc :: "selinux_lib \<Rightarrow> 'w proc \<Rightarrow> bool" where
  "tidy_proc se p \<longleftrightarrow> proc_umask p AND 0x1FF = proc_umask p
     \<and> (selinux_enabled p = - 1 \<or> selinux_enabled p = se_probe se)"

definition leading_dirs :: "string \<Rightarrow> string list" where
  "leading_dirs s = map (\<lambda>i. take i s) (filter (\<lambda>i. s ! i = SLASH) [1..<length s])"

definition leading_call :: "selinux_lib \<Rightarrow> string option \<Rightarrow> string \<Rightarrow> mkdir_call" where
  "leading_call se before path = \<lparr>c_path = path, c_mode = 0x1C9, c_umask = 0x36,
     c_context = label_of se before path 0x41C9\<rparr>"

fun leading_calls :: "selinux_lib \<Rightarrow> string option \<Rightarrow> string list \<Rightarrow> mkdir_call list" where
  "leading_calls se before [] = []"
| "leading_calls se before (d # ds) = leading_call se before d # leading_calls se (left_over se before) ds"

definition context_after :: "selinux_lib \<Rightarrow> string option \<Rightarrow> string list \<Rightarrow> string option" where
  "context_after se before ds = (if ds = [] then before else left_over se before)"

definition last_call :: "selinux_lib \<Rightarrow> string option \<Rightarrow> string \<Rightarrow> mode \<Rightarrow> mode \<Rightarrow> mkdir_call" where
  "last_call se before path mode um = \<lparr>c_path = path, c_mode = mode, c_umask = um,
     c_context = label_of se before path (mode OR S_IFDIR)\<rparr>"

lemma left_over_simps [simp]:
  "left_over se (left_over se c) = left_over se c" "left_over se (label_of se c path mode) = left_over se c"
  "left_over se (context_after se c ds) = left_over se c"
  by (simp_all add: left_over_def label_of_def context_after_def)

lemma context_after_append [simp]: "context_after se (context_after se c ds) es = context_after se c (ds @ es)"
  by (simp add: context_after_def)

lemma leading_calls_append:
  "leading_calls se c (ds @ es) = leading_calls se c ds @ leading_calls se (context_after se c ds) es"
  by (induction ds arbitrary: c) (simp_all add: context_after_def)

lemma unset_context:
  assumes "may_label se" "selinux_enabled p = - 1 \<or> selinux_enabled p = se_probe se"
  obtains e where "oddjob_unset_selinux_file_creation_context se p
      = p\<lparr>selinux_enabled := e, fscreate := left_over se (fscreate p)\<rparr>" "e = - 1 \<or> e = se_probe se"
proof
  let ?e = "if se_labels se \<and> selinux_enabled p = - 1 then se_probe se else selinux_enabled p"
  show "oddjob_unset_selinux_file_creation_context se p = p\<lparr>selinux_enabled := ?e, fscreate := left_over se (fscreate p)\<rparr>"
    using assms by (cases p) (auto simp: oddjob_check_selinux_enabled_def Let_def left_over_def
        oddjob_unset_selinux_file_creation_context_def setfscreatecon_sets)
  show "?e = - 1 \<or> ?e = se_probe se" using assms by simp
qed

lemma set_context:
  assumes "may_label se" "tidy_proc se p"
  obtains e where "oddjob_set_selinux_file_creation_context se path mode p
      = p\<lparr>selinux_enabled := e, fscreate := label_of se (fscreate p) path mode\<rparr>"
    "e = - 1 \<or> e = se_probe se"
proof
  let ?e = "if se_labels se \<and> selinux_enabled p = - 1 then se_probe se else selinux_enabled p"
  have e: "se_labels se \<Longrightarrow> ?e = se_probe se" using assms by (auto simp: tidy_proc_def)
  have check: "se_labels se \<Longrightarrow> oddjob_check_selinux_enabled se p
      = (se_probe se = 1, p\<lparr>selinux_enabled := se_probe se\<rparr>)"
    using assms by (auto simp: oddjob_check_selinux_enabled_def tidy_proc_def Let_def)
  have unset: "se_labels se \<Longrightarrow> oddjob_unset_selinux_file_creation_context se (p\<lparr>selinux_enabled := se_probe se\<rparr>)
      = p\<lparr>selinux_enabled := se_probe se, fscreate := (if se_probe se = 1 then None else fscreate p)\<rparr>"
    using assms by (cases p) (simp add: oddjob_unset_selinux_file_creation_context_def
        oddjob_check_selinux_enabled_def tidy_proc_def Let_def setfscreatecon_sets)
  show "oddjob_set_selinux_file_creation_context se path mode p
      = p\<lparr>selinux_enabled := ?e, fscreate := label_of se (fscreate p) path mode\<rparr>"
  proof (cases "se_labels se")
    case False
    then show ?thesis
      by (cases p) (simp add: oddjob_set_selinux_file_creation_context_def label_of_def)
  next
    case True
    have same: "p\<lparr>selinux_enabled := x, fscreate := fscreate p\<rparr> = p\<lparr>selinux_enabled := x\<rparr>" for x
      by (cases p) simp
    show ?thesis
      unfolding oddjob_set_selinux_file_creation_context_def label_of_def check [OF True] e [OF True]
      using True unset [OF True] by (auto simp: same setfscreatecon_sets [OF assms(1)] split: option.split)
  qed
  show "?e = - 1 \<or> ?e = se_probe se" using assms(2) by (simp add: tidy_proc_def)
qed

lemma make_leading_calls:
  assumes "may_label se" "tidy_proc se p"
  shows "\<exists>ok p' ds. make_leading se k path p = (ok, p') \<and> tidy_proc se p' \<and> proc_umask p' = proc_umask p
    \<and> fscreate p' = context_after se (fscreate p) ds \<and> calls p' = calls p @ leading_calls se (fscreate p) ds
    \<and> (ds = [] \<and> ok \<or> ds = [path])"
proof (cases "case k_stat k path (world p) of None \<Rightarrow> False | Some st \<Rightarrow> st AND S_IFDIR \<noteq> 0")
  case True
  then show ?thesis
    using assms by (intro exI [of _ True] exI [of _ p] exI [of _ "[]"]) (simp add: make_leading_def context_after_def)
next
  case False
  have bits: "S_IRWXU OR S_IXGRP OR S_IXOTH OR S_IFDIR = 0x41C9" "perms = 0x1C9"
    "NOT perms AND 0x1FF = (0x36 :: mode)"
    by (simp_all add: perms_def S_IRWXU_def S_IXGRP_def S_IXOTH_def S_IFDIR_def)
  let ?label = "label_of se (fscreate p) path 0x41C9" and ?left = "left_over se (fscreate p)"
  obtain e where e: "oddjob_set_selinux_file_creation_context se path 0x41C9 p
      = p\<lparr>selinux_enabled := e, fscreate := ?label\<rparr>" "e = - 1 \<or> e = se_probe se"
    using set_context [OF assms] by blast
  obtain i w where iw: "k_mkdir k path perms 0x36 (world p) = (i, w)" by fastforce
  let ?call = "leading_call se (fscreate p) path"
  let ?p = "p\<lparr>selinux_enabled := e, fscreate := ?label, world := w,
    proc_errno := (case i of None \<Rightarrow> proc_errno p | Some e \<Rightarrow> e), calls := calls p @ [?call]\<rparr>"
  obtain e' where e': "oddjob_unset_selinux_file_creation_context se ?p
      = ?p\<lparr>selinux_enabled := e', fscreate := ?left\<rparr>" "e' = - 1 \<or> e' = se_probe se"
    using unset_context [of se ?p] assms(1) e(2) by auto
  have "make_leading se k path p
      = (i = None \<or> proc_errno ?p = EEXIST, ?p\<lparr>selinux_enabled := e', fscreate := ?left\<rparr>)"
    using assms False iw e'(1) e(1)
    by (cases i) (simp_all add: make_leading_def bits do_umask_def do_mkdir_def Let_def leading_call_def
        tidy_proc_def)
  then show ?thesis
    using assms e'(2)
    by (intro exI [of _ "i = None \<or> proc_errno ?p = EEXIST"] exI [of _ "?p\<lparr>selinux_enabled := e', fscreate := ?left\<rparr>"]
        exI [of _ "[path]"]) (simp add: tidy_proc_def context_after_def)
qed

fun dirs_from :: "string \<Rightarrow> string \<Rightarrow> string list" where
  "dirs_from pre [] = []"
| "dirs_from pre (c # cs) =
     (if pre \<noteq> [] \<and> c = SLASH then [pre] else []) @ dirs_from (pre @ [c]) cs"

lemma dirs_from_leading:
  "dirs_from pre cs = map (\<lambda>i. take i (pre @ cs))
     (filter (\<lambda>i. (pre @ cs) ! i = SLASH) [max 1 (length pre)..<length (pre @ cs)])"
proof (induction cs arbitrary: pre)
  case Nil
  then show ?case by simp
next
  case (Cons c cs)
  show ?case
  proof (cases "pre = []")
    case True
    then show ?thesis using Cons.IH [of "[c]"] by simp
  next
    case False
    then have "max 1 (length pre) = length pre" by (cases pre) auto
    with False show ?thesis
      using Cons.IH [of "pre @ [c]"] by (simp add: upt_conv_Cons del: upt_Suc)
  qed
qed

lemma leading_dirs_from: "leading_dirs s = dirs_from [] s"
  by (simp add: leading_dirs_def dirs_from_leading)

lemma mkdir_walk_calls:
  "may_label se \<Longrightarrow> tidy_proc se p \<Longrightarrow> nul_free (pre @ cs) \<Longrightarrow> length cs < n \<Longrightarrow>
   \<exists>r p' ds. mkdir_walk se k (pre @ replicate n NUL) (length pre) cs p = Inr (r, p')
     \<and> tidy_proc se p' \<and> proc_umask p' = proc_umask p \<and> fscreate p' = context_after se (fscreate p) ds
     \<and> calls p' = calls p @ leading_calls se (fscreate p) ds \<and> subseq ds (dirs_from pre cs)
     \<and> (r = None \<longrightarrow> ds \<noteq> []) \<and> (\<forall>path. r = Some path \<longrightarrow> cstr path = pre @ cs)"
proof (induction cs arbitrary: pre n p)
  case Nil
  then obtain m where "n = Suc m" by (cases n) auto
  with Nil show ?case by (auto simp: cstr_append_NUL context_after_def intro!: exI [of _ "[]"])
next
  case (Cons c cs)
  then obtain m where m: "n = Suc m" "length cs < m" by (cases n) auto
  have path: "cstr (pre @ replicate n NUL) = pre"
    using Cons.prems m by (simp add: cstr_append_NUL)
  have set: "arr_set (pre @ replicate n NUL) (length pre) c = Inr ((pre @ [c]) @ replicate m NUL)"
    using m arr_set_append_None [of pre NUL "replicate m NUL" c] by simp
  define q where "q = (if length pre > 0 \<and> c = SLASH then make_leading se k pre p else (True, p))"
  obtain ok p1 where q: "q = (ok, p1)" by fastforce
  obtain ds1 where ds1: "tidy_proc se p1" "proc_umask p1 = proc_umask p" "fscreate p1 = context_after se (fscreate p) ds1"
    "calls p1 = calls p @ leading_calls se (fscreate p) ds1"
    "subseq ds1 (if pre \<noteq> [] \<and> c = SLASH then [pre] else [])" "\<not> ok \<Longrightarrow> ds1 \<noteq> []"
  proof (cases "length pre > 0 \<and> c = SLASH")
    case True
    then show ?thesis
      using that make_leading_calls [OF Cons.prems(1,2), of k pre] q by (auto simp: q_def)
  next
    case False
    then show ?thesis using that [of "[]"] Cons.prems(2) q by (auto simp: q_def context_after_def)
  qed
  have step: "mkdir_walk se k (pre @ replicate n NUL) (length pre) (c # cs) p =
     (if \<not> ok then Inr (None, p1)
      else mkdir_walk se k ((pre @ [c]) @ replicate m NUL) (length (pre @ [c])) cs p1)"
    using q unfolding q_def by (simp only: mkdir_walk.simps path set) simp
  have sub: "subseq ds1 (dirs_from pre (c # cs))"
    using list_emb_append_mono [OF ds1(5) list_emb_Nil [of "(=)" "dirs_from (pre @ [c]) cs"]]
    by simp
  show ?case
  proof (cases ok)
    case False
    then show ?thesis
      using step ds1 sub by (intro exI [of _ None] exI [of _ p1] exI [of _ ds1])
        (simp only: if_True not_False_eq_True, simp)
  next
    case True
    obtain r p' ds where r: "mkdir_walk se k ((pre @ [c]) @ replicate m NUL) (length (pre @ [c])) cs p1
        = Inr (r, p')" "tidy_proc se p'" "proc_umask p' = proc_umask p1" "fscreate p' = context_after se (fscreate p1) ds"
      "calls p' = calls p1 @ leading_calls se (fscreate p1) ds" "subseq ds (dirs_from (pre @ [c]) cs)"
      "r = None \<longrightarrow> ds \<noteq> []" "\<forall>path. r = Some path \<longrightarrow> cstr path = (pre @ [c]) @ cs"
      using Cons.IH [OF Cons.prems(1) ds1(1), of "pre @ [c]" m] Cons.prems m by auto
    then show ?thesis
      using step True ds1
      by (intro exI [of _ r] exI [of _ p'] exI [of _ "ds1 @ ds"])
         (simp add: list_emb_append_mono leading_calls_append)
  qed
qed

section \<open>The normal form of a path\<close>

text \<open>The non-empty components of a path; the word before the rest is the first argument.\<close>

fun components_from :: "string \<Rightarrow> string \<Rightarrow> string list" where
  "components_from w [] = (if w = [] then [] else [w])"
| "components_from w (c # cs) =
     (if c = SLASH then (if w = [] then [] else [w]) @ components_from [] cs
      else components_from (w @ [c]) cs)"

lemma tidy_components: "components_from w (tidy s) = components_from w s"
proof (induction s arbitrary: w)
  case (Cons c cs)
  show ?case
  proof (cases "c = SLASH \<and> (cs = [] \<or> hd cs = SLASH)")
    case True
    then show ?thesis using Cons by (cases cs) auto
  next
    case False
    then show ?thesis using Cons by auto
  qed
qed simp

lemma tidy_hd: "tidy s \<noteq> [] \<Longrightarrow> hd (tidy s) = SLASH \<longleftrightarrow> hd s = SLASH"
  by (induction s) auto

lemma tidy_no_double:
  "Suc i < length (tidy s) \<Longrightarrow> \<not> (tidy s ! i = SLASH \<and> tidy s ! Suc i = SLASH)"
proof (induction s arbitrary: i)
  case (Cons c cs)
  then show ?case
    using tidy_hd [of cs] by (cases i) (auto simp: hd_conv_nth split: if_splits)
qed simp

lemma tidy_last: "tidy s \<noteq> [] \<Longrightarrow> last (tidy s) \<noteq> SLASH"
proof (induction s)
  case (Cons c cs)
  show ?case
  proof (cases "tidy cs = []")
    case True
    with Cons.prems show ?thesis by (cases cs) (auto split: if_splits)
  next
    case False
    with Cons show ?thesis by auto
  qed
qed simp

lemma components_from_Nil: "components_from w s = [] \<Longrightarrow> w = [] \<and> set s \<subseteq> {SLASH}"
  by (induction w s rule: components_from.induct) (auto split: if_splits)

lemma tidy_Nil: "tidy s = [] \<longleftrightarrow> set s \<subseteq> {SLASH}"
proof
  show "tidy s = [] \<Longrightarrow> set s \<subseteq> {SLASH}"
    using tidy_components [of "[]" s] components_from_Nil [of "[]" s] by simp
  show "set s \<subseteq> {SLASH} \<Longrightarrow> tidy s = []"
  proof (induction s)
    case (Cons c cs)
    then show ?case by (cases cs) auto
  qed simp
qed

lemma length_tidy: "length (tidy s) \<le> length s"
  by (induction s) auto

lemma tidy_nul_free: "nul_free s \<Longrightarrow> nul_free (tidy s)"
  by (induction s) auto

text \<open>
  Collapsing slashes in place keeps the components of the path and whether it is absolute,
  and leaves no doubled and no trailing slash; a path of slashes only, as the root, becomes the
  empty string.
\<close>

theorem collapse_slashes_normal:
  assumes "nul_free s"
  shows "\<exists>t. collapse_slashes s = Inr t \<and> components_from [] t = components_from [] s
    \<and> (\<forall>i. Suc i < length t \<longrightarrow> \<not> (t ! i = SLASH \<and> t ! Suc i = SLASH))
    \<and> (t \<noteq> [] \<longrightarrow> last t \<noteq> SLASH \<and> (hd t = SLASH \<longleftrightarrow> hd s = SLASH))
    \<and> (t = [] \<longleftrightarrow> set s \<subseteq> {SLASH})"
  using tidy_no_double [of _ s] tidy_last [of s] tidy_hd [of s] tidy_Nil [of s]
    tidy_components [of "[]" s] by (simp add: collapse_slashes_tidy [OF assms])

theorem collapse_slashes_normal_witness:
  "\<exists>t. collapse_slashes ''//home///user/'' = Inr t
     \<and> components_from [] t = [''home'', ''user''] \<and> (t \<noteq> [] \<longrightarrow> last t \<noteq> SLASH)"
proof -
  have "nul_free ''//home///user/''" by (simp add: nul_free_def NUL_def)
  moreover have "components_from [] ''//home///user/'' = [''home'', ''user'']"
    by (simp add: SLASH_def)
  ultimately show ?thesis using collapse_slashes_normal [of "''//home///user/''"] by fastforce
qed

section \<open>The whole operation\<close>

lemma make_last_calls:
  assumes "may_label se" "tidy_proc se p"
  shows "\<exists>r p'. make_last se k path mode uid gid p = (r, p') \<and> tidy_proc se p'
    \<and> proc_umask p' = proc_umask p \<and> fscreate p' = left_over se (fscreate p)
    \<and> calls p' = calls p @ [last_call se (fscreate p) path mode (proc_umask p)]
    \<and> (r = 0 \<or> r = HANDLER_FAILURE)
    \<and> (r = 0 \<longrightarrow> (\<exists>e w. k_mkdir k path mode (proc_umask p) (world p) = (e, w) \<and> (e = None \<or> e = Some EEXIST)
         \<and> (if uid \<noteq> - 1 \<and> gid \<noteq> - 1 then k_chown k path uid gid w = (True, world p') else world p' = w)))"
proof -
  let ?label = "label_of se (fscreate p) path (mode OR S_IFDIR)"
  obtain e where e: "oddjob_set_selinux_file_creation_context se path (mode OR S_IFDIR) p
      = p\<lparr>selinux_enabled := e, fscreate := ?label\<rparr>"
    "e = - 1 \<or> e = se_probe se"
    using set_context [OF assms] by blast
  obtain i w where iw: "k_mkdir k path mode (proc_umask p) (world p) = (i, w)" by fastforce
  let ?p = "p\<lparr>selinux_enabled := e, fscreate := ?label, world := w, proc_errno := (case i of None \<Rightarrow> proc_errno p | Some e \<Rightarrow> e),
    calls := calls p @ [last_call se (fscreate p) path mode (proc_umask p)]\<rparr>"
  obtain e' where e': "oddjob_unset_selinux_file_creation_context se ?p
      = ?p\<lparr>selinux_enabled := e', fscreate := left_over se (fscreate p)\<rparr>" "e' = - 1 \<or> e' = se_probe se"
    using unset_context [of se ?p] assms(1) e(2) by auto
  obtain ok w' where ok: "k_chown k path uid gid w = (ok, w')" by fastforce
  let ?q = "?p\<lparr>selinux_enabled := e', fscreate := left_over se (fscreate p)\<rparr>"
  have eq: "make_last se k path mode uid gid p =
    (if i \<noteq> None \<and> proc_errno ?p \<noteq> EEXIST then (HANDLER_FAILURE, ?q)
     else if uid \<noteq> - 1 \<and> gid \<noteq> - 1 then
       (if \<not> ok then (HANDLER_FAILURE, ?q\<lparr>world := k_rmdir k path w'\<rparr>) else (0, ?q\<lparr>world := w'\<rparr>))
     else (0, ?q))"
    using e'(1) by (cases i) (simp_all add: make_last_def e(1) iw do_mkdir_def last_call_def ok)
  show ?thesis
    unfolding eq using assms(2) e'(2) iw ok
    by (auto simp: tidy_proc_def HANDLER_FAILURE_def split: option.splits)
qed

text \<open>
  C22. For every kernel and policy, and every path of at most PATH_MAX bytes, if setting the
  file-creation context never fails, making a directory restores the umask and, with SELinux
  enabled, leaves the process without a file-creation context, whatever it had before; it calls
  mkdir only for leading directories of the collapsed path, from the shortest on, with mode
  0711, umask 0066 and the label of the policy (the context still in force where matchpathcon
  fails), and then at most once for the path itself, with the mode asked for and the umask of
  the process.
\<close>

theorem selinux_mkdir_calls:
  assumes "nul_free newpath" "length newpath \<le> PATH_MAX" "may_label se" "tidy_proc se p"
  shows "\<exists>r p' ds. oddjob_selinux_mkdir se k newpath mode uid gid p = Inr (r, p')
    \<and> proc_umask p' = proc_umask p
    \<and> fscreate p' = (if se_labels se \<and> se_probe se = 1 then None else fscreate p)
    \<and> subseq ds (leading_dirs (tidy newpath))
    \<and> (r = HANDLER_FAILURE \<and> calls p' = calls p @ leading_calls se (fscreate p) ds
       \<or> r \<in> {0, HANDLER_FAILURE} \<and> calls p' = calls p @ leading_calls se (fscreate p) ds
           @ [last_call se (context_after se (fscreate p) ds) (tidy newpath) mode (proc_umask p)])"
proof -
  let ?t = "tidy newpath" and ?array = "replicate (PATH_MAX + 1) NUL"
  have len: "length ?t \<le> PATH_MAX" using length_tidy [of newpath] assms(2) by simp
  obtain r p1 ds where w: "mkdir_walk se k ?array 0 ?t p = Inr (r, p1)"
    "tidy_proc se p1" "proc_umask p1 = proc_umask p" "fscreate p1 = context_after se (fscreate p) ds"
    "calls p1 = calls p @ leading_calls se (fscreate p) ds" "subseq ds (dirs_from [] ?t)"
    "r = None \<longrightarrow> ds \<noteq> []" "\<forall>path. r = Some path \<longrightarrow> cstr path = ?t"
    using mkdir_walk_calls [OF assms(3,4), of "[]" ?t "PATH_MAX + 1" k] tidy_nul_free [OF assms(1)] len
    by (auto simp del: replicate_Suc)
  have eq: "oddjob_selinux_mkdir se k newpath mode uid gid p = (case r of
      None \<Rightarrow> Inr (HANDLER_FAILURE, p1)
    | Some path \<Rightarrow> Inr (make_last se k ?t mode uid gid p1))"
    using assms(2) len w(1,8) unfolding oddjob_selinux_mkdir_def
    by (simp add: collapse_slashes_tidy [OF assms(1)] del: replicate_Suc split: option.splits)
  have left: "left_over se (fscreate p) = (if se_labels se \<and> se_probe se = 1 then None else fscreate p)"
    by (simp add: left_over_def)
  show ?thesis
  proof (cases r)
    case None
    then show ?thesis using eq w unfolding left [symmetric] by (auto simp: leading_dirs_from context_after_def)
  next
    case (Some path)
    then show ?thesis
      using eq w make_last_calls [OF assms(3) w(2), of k ?t mode uid gid] unfolding left [symmetric]
      by (auto simp: leading_dirs_from)
  qed
qed

text \<open>A kernel that counts its calls, has no directories and refuses nothing.\<close>

definition counting_kernel :: "nat kernel" where
  "counting_kernel = \<lparr>k_stat = \<lambda>_ _. None, k_mkdir = \<lambda>_ _ _ n. (None, n + 1),
     k_chown = \<lambda>_ _ _ n. (True, n), k_rmdir = \<lambda>_ n. n\<rparr>"

definition sample_selinux :: selinux_lib where
  "sample_selinux = \<lparr>se_labels = True, se_probe = 1, se_match = \<lambda>_ _. Some (Some ''home_t''),
     se_setfscreate = \<lambda>_. None\<rparr>"

definition sample_proc :: "nat proc" where
  "sample_proc = \<lparr>world = 0, proc_umask = 0x12, fscreate = Some ''tmp_t'', proc_errno = EAGAIN,
     selinux_enabled = - 1, calls = []\<rparr>"

lemma sample_proc_tidy: "may_label sample_selinux" "tidy_proc sample_selinux sample_proc"
  by (simp_all add: may_label_def tidy_proc_def sample_selinux_def sample_proc_def)

theorem selinux_mkdir_calls_witness:
  "\<exists>r p' ds. oddjob_selinux_mkdir sample_selinux counting_kernel ''/a/b/'' 0x1C0 5 6 sample_proc
       = Inr (r, p') \<and> proc_umask p' = 0x12 \<and> fscreate p' = None \<and> subseq ds [''/a'']
     \<and> (\<exists>rest. calls p' = leading_calls sample_selinux (Some ''tmp_t'') ds @ rest)"
proof -
  have a: "nul_free ''/a/b/''" "length ''/a/b/'' \<le> PATH_MAX"
    by (simp_all add: nul_free_def NUL_def PATH_MAX_def)
  have t: "leading_dirs (tidy ''/a/b/'') = [''/a'']" by code_simp
  have p: "proc_umask sample_proc = 0x12" "fscreate sample_proc = Some ''tmp_t''" "calls sample_proc = []"
    "se_labels sample_selinux" "se_probe sample_selinux = 1"
    by (simp_all add: sample_proc_def sample_selinux_def)
  show ?thesis
    using selinux_mkdir_calls [OF a sample_proc_tidy, of counting_kernel "0x1C0" 5 6] unfolding t p
    by (simp only: append.simps if_True simp_thms p(4)) (metis append_Nil2)
qed

text \<open>
  \<open>errno\<close> is only tested after the context has been reset: where the reset fails, a directory
  that was there already is reported as a failure.
\<close>

lemma existing_directory_refused:
  assumes "se_labels se" "se_probe se = 1" "selinux_enabled p = - 1 \<or> selinux_enabled p = 1"
    "se_setfscreate se None = Some e" "e \<noteq> EEXIST"
    "\<And>um w. fst (k_mkdir k path mode um w) = Some EEXIST"
  shows "fst (make_last se k path mode uid gid p) = HANDLER_FAILURE"
proof -
  obtain p1 where p1: "oddjob_set_selinux_file_creation_context se path (mode OR S_IFDIR) p = p1"
    "selinux_enabled p1 = 1"
    using assms(1-4)
    by (auto simp: oddjob_set_selinux_file_creation_context_def oddjob_unset_selinux_file_creation_context_def
        oddjob_check_selinux_enabled_def setfscreatecon_def Let_def split: option.splits)
  obtain w where "k_mkdir k path mode (proc_umask p1) (world p1) = (Some EEXIST, w)"
    using assms(6) [of "proc_umask p1" "world p1"] by (cases "k_mkdir k path mode (proc_umask p1) (world p1)") auto
  with p1 assms(1,2,4,5) show ?thesis
    by (simp add: make_last_def do_mkdir_def oddjob_unset_selinux_file_creation_context_def
        oddjob_check_selinux_enabled_def setfscreatecon_def)
qed

text \<open>
  When oddjob_selinux_mkdir returns 0, mkdir of the collapsed path succeeded or found it
  existing, and if both a uid and a gid were given the last thing done is a successful chown of
  it to them.
\<close>

theorem selinux_mkdir_success:
  assumes "nul_free newpath" "length newpath \<le> PATH_MAX" "may_label se" "tidy_proc se p"
    "oddjob_selinux_mkdir se k newpath mode uid gid p = Inr (0, p')"
  shows "\<exists>w e w'. k_mkdir k (tidy newpath) mode (proc_umask p) w = (e, w')
    \<and> (e = None \<or> e = Some EEXIST)
    \<and> (if uid \<noteq> - 1 \<and> gid \<noteq> - 1 then k_chown k (tidy newpath) uid gid w' = (True, world p')
       else world p' = w')"
proof -
  let ?t = "tidy newpath" and ?array = "replicate (PATH_MAX + 1) NUL"
  have len: "length ?t \<le> PATH_MAX" using length_tidy [of newpath] assms(2) by simp
  obtain r p1 ds where w: "mkdir_walk se k ?array 0 ?t p = Inr (r, p1)"
    "tidy_proc se p1" "proc_umask p1 = proc_umask p" "\<forall>path. r = Some path \<longrightarrow> cstr path = ?t"
    using mkdir_walk_calls [OF assms(3,4), of "[]" ?t "PATH_MAX + 1" k] tidy_nul_free [OF assms(1)] len
    by auto
  have "(case r of None \<Rightarrow> Inr (HANDLER_FAILURE, p1)
    | Some path \<Rightarrow> Inr (make_last se k ?t mode uid gid p1)) = (Inr (0, p') :: (int \<times> 'a proc) res)"
    using assms(2,5) len w(1,4) unfolding oddjob_selinux_mkdir_def
    by (simp add: collapse_slashes_tidy [OF assms(1)] del: replicate_Suc split: option.splits)
  then have "make_last se k ?t mode uid gid p1 = (0, p')"
    by (auto simp: HANDLER_FAILURE_def split: option.splits)
  then show ?thesis
    using make_last_calls [OF assms(3) w(2), of k ?t mode uid gid] w(3) by (metis prod.inject)
qed

theorem selinux_mkdir_success_witness:
  "\<exists>w e w'. k_mkdir counting_kernel ''/a'' 0x1C0 0x12 w = (e, w') \<and> (e = None \<or> e = Some EEXIST)"
proof -
  have a: "nul_free ''/a''" "length ''/a'' \<le> PATH_MAX" "tidy ''/a'' = ''/a''"
    by (simp_all add: nul_free_def NUL_def PATH_MAX_def SLASH_def)
  obtain r p' where r: "oddjob_selinux_mkdir sample_selinux counting_kernel ''/a'' 0x1C0 5 6 sample_proc
      = Inr (r, p')" "r = 0"
    using a collapse_slashes_tidy [OF a(1)]
    by (simp add: oddjob_selinux_mkdir_def PATH_MAX_def SLASH_def arr_set_def NUL_def
        make_last_def counting_kernel_def do_mkdir_def Let_def split: prod.splits)
  then show ?thesis
    using selinux_mkdir_success [OF a(1,2) sample_proc_tidy, of counting_kernel "0x1C0" 5 6 p'] a(3)
    by (auto simp: sample_proc_def)
qed

end
