(* ===== verification/Tables.thy ===== *)
theory Tables
  imports Memory "HOL-Library.Multiset"
begin

text \<open>
  The arrays with an element count that src/oddjob_dbus.c keeps at four levels (services,
  objects, interfaces, methods): the search loop, adding an entry at the end, removing one by
  \<open>memmove\<close> and shrinking. The count and the array are kept apart, as in the code, so that
  every access is checked against the array that is really there.
\<close>

record 'a table =
  slots :: "'a list option"
  used :: nat

definition empty_table :: "'a table" where
  "empty_table = \<lparr>slots = None, used = 0\<rparr>"

section \<open>The operations\<close>

text \<open>\<open>for (i = 0; i < n; i++) if (p(&a[i])) break;\<close> from index \<open>i\<close> on, \<open>n\<close> rounds left.\<close>

fun find_slot :: "('a \<Rightarrow> bool res) \<Rightarrow> 'a list option \<Rightarrow> nat \<Rightarrow> nat \<Rightarrow> nat res" where
  "find_slot p arr i 0 = Inr i"
| "find_slot p arr i (Suc n) =
     res_bind (arr_get (elems arr) i) (\<lambda>x. res_bind (p x) (\<lambda>hit.
       if hit then Inr i else find_slot p arr (Suc i) n))"

definition find_named :: "('a \<Rightarrow> string option) \<Rightarrow> string \<Rightarrow> 'a table \<Rightarrow> nat res" where
  "find_named key name t = find_slot (\<lambda>x. Inr (key x = Some name)) (slots t) 0 (used t)"

text \<open>Make room for one more entry and write it, without counting it yet.\<close>

definition grow_slot :: "avail \<Rightarrow> 'a \<Rightarrow> nat \<Rightarrow> 'a \<Rightarrow> 'a table \<Rightarrow> 'a table res" where
  "grow_slot mem zero es x t =
     res_bind (oddjob_resize_array mem zero es (slots t) (used t) (used t + 1)) (\<lambda>arr.
     res_bind (arr_set (elems arr) (used t) x) (\<lambda>xs. Inr (t\<lparr>slots := Some xs\<rparr>)))"

text \<open>Find the entry or create it; the list has the copy made of the name, if one was made.\<close>

definition enter_slot ::
  "avail \<Rightarrow> 'a \<Rightarrow> nat \<Rightarrow> ('a \<Rightarrow> string option) \<Rightarrow> (string option \<Rightarrow> 'a) \<Rightarrow> string \<Rightarrow> 'a table
     \<Rightarrow> (nat \<times> string list \<times> 'a table) res"
where
  "enter_slot mem zero es key fresh name t =
     res_bind (find_named key name t) (\<lambda>i.
       if i \<ge> used t
       then res_bind (dup_str mem name) (\<lambda>copy.
            res_bind (grow_slot mem zero es (fresh (Some copy)) t) (\<lambda>t. Inr (i, [copy], t\<lparr>used := i + 1\<rparr>)))
       else Inr (i, [], t))"

text \<open>Work on the entry at an index through a pointer.\<close>

definition modify_slot :: "nat \<Rightarrow> ('a \<Rightarrow> ('r \<times> 'a) res) \<Rightarrow> 'a table \<Rightarrow> ('r \<times> 'a table) res" where
  "modify_slot i f t =
     res_bind (arr_get (elems (slots t)) i) (\<lambda>x. res_bind (f x) (\<lambda>(r, y).
     res_bind (arr_set (elems (slots t)) i y) (\<lambda>xs. Inr (r, t\<lparr>slots := Some xs\<rparr>))))"

definition with_entry ::
  "avail \<Rightarrow> 'a \<Rightarrow> nat \<Rightarrow> ('a \<Rightarrow> string option) \<Rightarrow> (string option \<Rightarrow> 'a) \<Rightarrow> string
     \<Rightarrow> ('a \<Rightarrow> (string list \<times> 'a) res) \<Rightarrow> 'a table \<Rightarrow> (string list \<times> 'a table) res"
where
  "with_entry mem zero es key fresh name f t =
     res_bind (enter_slot mem zero es key fresh name t) (\<lambda>(i, copies, t).
     res_bind (modify_slot i f t) (\<lambda>(made, t). Inr (copies @ made, t)))"

text \<open>\<open>memmove\<close> of the entries after \<open>i\<close> over it.\<close>

definition move_down :: "nat \<Rightarrow> 'a table \<Rightarrow> 'a list res" where
  "move_down i t =
     res_bind (slice (elems (slots t)) (i + 1) (used t - (i + 1)))
       (\<lambda>rest. blit (elems (slots t)) i rest)"

definition drop_slot :: "avail \<Rightarrow> 'a \<Rightarrow> nat \<Rightarrow> nat \<Rightarrow> 'a table \<Rightarrow> 'a table res" where
  "drop_slot mem zero es i t =
     (if used t > 1
      then res_bind (move_down i t) (\<lambda>xs.
           res_bind (oddjob_resize_array mem zero es (Some xs) (used t) (used t - 1)) (\<lambda>arr.
             Inr \<lparr>slots = arr, used = used t - 1\<rparr>))
      else res_bind (oddjob_resize_array mem zero es (slots t) (used t) 0) (\<lambda>arr.
             Inr \<lparr>slots = arr, used = 0\<rparr>))"

text \<open>
  Removing at one level: \<open>inner\<close> removes from the level below and tells whether nothing is left
  there; only then the name of the entry is released and the entry goes. The result tells whether this
  level is empty now, and the names released so far.
\<close>

definition remove_level ::
  "avail \<Rightarrow> 'a \<Rightarrow> nat \<Rightarrow> ('a \<Rightarrow> string option) \<Rightarrow> ('a \<Rightarrow> ((bool \<times> string option list) \<times> 'a) res) \<Rightarrow> string
     \<Rightarrow> 'a table \<Rightarrow> ((bool \<times> string option list) \<times> 'a table) res"
where
  "remove_level mem zero es key inner name t =
     res_bind (find_named key name t) (\<lambda>i.
       if i \<ge> used t then Inr ((False, []), t)
       else res_bind (modify_slot i inner t) (\<lambda>((emptied, freed), t).
         if \<not> emptied then Inr ((False, freed), t)
         else res_bind (arr_get (elems (slots t)) i) (\<lambda>x.
              res_bind (drop_slot mem zero es i t) (\<lambda>t. Inr ((used t = 0, freed @ [key x]), t)))))"

text \<open>A loop over the entries that releases what each of them owns, in this order.\<close>

fun release_slots :: "('a \<Rightarrow> 'r list res) \<Rightarrow> 'a list option \<Rightarrow> nat \<Rightarrow> nat \<Rightarrow> 'r list res" where
  "release_slots f arr i 0 = Inr []"
| "release_slots f arr i (Suc n) =
     res_bind (arr_get (elems arr) i) (\<lambda>x. res_bind (f x) (\<lambda>r.
       res_bind (release_slots f arr (i + 1) n) (\<lambda>rs. Inr (r @ rs))))"

section \<open>Tables as lists of entries\<close>

definition entries :: "'a table \<Rightarrow> 'a list" where
  "entries t = take (used t) (elems (slots t))"

definition table_wf :: "('a \<Rightarrow> string option) \<Rightarrow> 'a table \<Rightarrow> bool" where
  "table_wf key t \<longleftrightarrow> used t \<le> length (elems (slots t)) \<and> used t \<le> 0xffff
     \<and> distinct (map key (entries t)) \<and> None \<notin> set (map key (entries t))"

definition lookup :: "('a \<Rightarrow> string option) \<Rightarrow> 'a table \<Rightarrow> string \<Rightarrow> 'a option" where
  "lookup key t name = List.find (\<lambda>x. key x = Some name) (entries t)"

lemma entries_empty [simp]: "entries empty_table = []"
  by (simp add: entries_def empty_table_def)

lemma used_entries: "table_wf key t \<Longrightarrow> used t = length (entries t)"
  by (simp add: table_wf_def entries_def)

lemma table_wf_empty [simp]: "table_wf key empty_table"
  by (simp add: table_wf_def) (simp add: empty_table_def)

lemma used_empty [simp]: "used empty_table = 0"
  by (simp add: empty_table_def)

text \<open>A sum over the entries when one of them changes or goes.\<close>

lemma entries_sum:
  fixes g :: "'a \<Rightarrow> 'b :: comm_monoid_add"
  assumes "i < length (entries t)"
  obtains L where "sum_list (map g (entries t)) = L + g (entries t ! i)"
    "\<And>t' y. entries t' = (entries t)[i := y] \<Longrightarrow> sum_list (map g (entries t')) = L + g y"
    "\<And>t'. entries t' = take i (entries t) @ drop (Suc i) (entries t) \<Longrightarrow> sum_list (map g (entries t')) = L"
proof
  let ?L = "sum_list (map g (take i (entries t))) + sum_list (map g (drop (Suc i) (entries t)))"
  show "sum_list (map g (entries t)) = ?L + g (entries t ! i)"
    by (subst id_take_nth_drop [OF assms]) (simp add: ac_simps)
  show "sum_list (map g (entries t')) = ?L + g y" if "entries t' = (entries t)[i := y]" for t' y
    using that assms by (simp add: upd_conv_take_nth_drop ac_simps)
  show "sum_list (map g (entries t')) = ?L" if "entries t' = take i (entries t) @ drop (Suc i) (entries t)" for t'
    using that by simp
qed

lemma entries_sum_grow:
  fixes g :: "'a \<Rightarrow> 'b :: comm_monoid_add"
  assumes "i < length (entries t)" "entries t' = (entries t)[i := y]" "g y = g (entries t ! i) + d"
  shows "sum_list (map g (entries t')) = sum_list (map g (entries t)) + d"
  using assms(1)
proof (rule entries_sum [where g = g])
  fix L
  assume "sum_list (map g (entries t)) = L + g (entries t ! i)"
    "\<And>t' y. entries t' = (entries t)[i := y] \<Longrightarrow> sum_list (map g (entries t')) = L + g y"
  with assms(2,3) show ?thesis by (metis add.assoc)
qed

lemma entries_sum_shrink:
  fixes g :: "'a \<Rightarrow> 'b :: comm_monoid_add"
  assumes "i < length (entries t)" "entries t' = (entries t)[i := y]" "g (entries t ! i) = g y + d"
  shows "sum_list (map g (entries t)) = sum_list (map g (entries t')) + d"
  using assms(1)
proof (rule entries_sum [where g = g])
  fix L
  assume "sum_list (map g (entries t)) = L + g (entries t ! i)"
    "\<And>t' y. entries t' = (entries t)[i := y] \<Longrightarrow> sum_list (map g (entries t')) = L + g y"
  with assms(2,3) show ?thesis by (metis add.assoc)
qed

lemma modify_slotD:
  assumes "modify_slot i f t = Inr (r, t')"
  obtains x y where "arr_get (elems (slots t)) i = Inr x" "f x = Inr (r, y)"
    "elems (slots t') = (elems (slots t))[i := y]" "used t' = used t"
  using assms by (auto simp: modify_slot_def res_simps arr_set_def split: if_splits)

text \<open>The strings among pointers that may be NULL.\<close>

definition owned :: "string option list \<Rightarrow> string multiset" where
  "owned ps = mset (List.map_filter (\<lambda>p. p) ps)"

lemma owned_simps [simp]:
  "owned [] = {#}" "owned (p # ps) = (case p of None \<Rightarrow> {#} | Some s \<Rightarrow> {#s#}) + owned ps"
  "owned (ps @ qs) = owned ps + owned qs"
  by (simp_all add: owned_def map_filter_simps split: option.split) (simp add: map_filter_def)

lemma owned_concat: "owned (concat pss) = sum_list (map owned pss)"
  by (induction pss) simp_all

lemma owned_map: "owned (map f xs) = sum_list (map (\<lambda>x. owned [f x]) xs)"
  by (induction xs) simp_all

lemma find_slot_skip:
  "\<forall>j < n. i + j < length (elems arr) \<and> p (elems arr ! (i + j)) = Inr False \<Longrightarrow>
   find_slot p arr i n = Inr (i + n)"
proof (induction n arbitrary: i)
  case (Suc n)
  from Suc.prems have "i + 0 < length (elems arr) \<and> p (elems arr ! (i + 0)) = Inr False" by blast
  moreover have "\<forall>j < n. Suc i + j < length (elems arr) \<and> p (elems arr ! (Suc i + j)) = Inr False"
    using Suc.prems by (metis Suc_less_eq add_Suc_right add_Suc_shift)
  ultimately show ?case using Suc.IH [of "Suc i"] by (simp add: arr_get_def)
qed simp

lemma find_slot_hit:
  "\<forall>j < k. i + j < length (elems arr) \<and> p (elems arr ! (i + j)) = Inr False \<Longrightarrow>
   i + k < length (elems arr) \<Longrightarrow> p (elems arr ! (i + k)) = Inr True \<Longrightarrow> k < n \<Longrightarrow>
   find_slot p arr i n = Inr (i + k)"
proof (induction k arbitrary: i n)
  case 0
  then show ?case by (cases n) (simp_all add: arr_get_def)
next
  case (Suc k)
  obtain m where m: "n = Suc m" using Suc.prems(4) by (cases n) auto
  from Suc.prems(1) have "i + 0 < length (elems arr) \<and> p (elems arr ! (i + 0)) = Inr False" by blast
  moreover have "\<forall>j < k. Suc i + j < length (elems arr) \<and> p (elems arr ! (Suc i + j)) = Inr False"
    using Suc.prems(1) by (metis Suc_less_eq add_Suc_right add_Suc_shift)
  ultimately show ?case using Suc.IH [of "Suc i" m] Suc.prems m by (simp add: arr_get_def)
qed

text \<open>The search loop finds the first entry for which the test holds.\<close>

lemma find_slot_entries:
  assumes "used t \<le> length (elems (slots t))" "\<forall>x \<in> set (entries t). p x = Inr (q x)"
  shows "find_slot p (slots t) 0 (used t)
    = Inr (if \<exists>x \<in> set (entries t). q x then LEAST i. i < used t \<and> q (entries t ! i) else used t)"
proof -
  have nth: "i < used t \<Longrightarrow> entries t ! i = elems (slots t) ! i \<and> entries t ! i \<in> set (entries t)" for i
    using assms(1) by (auto simp: entries_def in_set_conv_nth)
  have val: "i < used t \<Longrightarrow> i < length (elems (slots t)) \<and> p (elems (slots t) ! i) = Inr (q (entries t ! i))" for i
    using nth [of i] assms by (metis less_le_trans)
  have len: "length (entries t) = used t" using assms(1) by (simp add: entries_def)
  show ?thesis
  proof (cases "\<exists>x \<in> set (entries t). q x")
    case False
    have "find_slot p (slots t) 0 (used t) = Inr (0 + used t)"
      using False nth val by (intro find_slot_skip) (metis add_0)
    with False show ?thesis by simp
  next
    case True
    define k where "k = (LEAST i. i < used t \<and> q (entries t ! i))"
    from True len obtain i where "i < used t \<and> q (entries t ! i)"
      by (metis in_set_conv_nth)
    then have k: "k < used t \<and> q (entries t ! k)" unfolding k_def by (rule LeastI)
    have least: "\<not> q (entries t ! j)" if "j < k" for j
      using that k not_less_Least [of j "\<lambda>i. i < used t \<and> q (entries t ! i)"]
      unfolding k_def [symmetric] by auto
    have "find_slot p (slots t) 0 (used t) = Inr (0 + k)"
      using k least val by (intro find_slot_hit) simp_all
    with True k_def show ?thesis by simp
  qed
qed

text \<open>The same as a search in the list of entries.\<close>

lemma find_slot_find:
  assumes "used t \<le> length (elems (slots t))" "\<forall>x \<in> set (entries t). p x = Inr (q x)"
  obtains (absent) "List.find q (entries t) = None" "find_slot p (slots t) 0 (used t) = Inr (used t)"
  | (present) i x where "List.find q (entries t) = Some x" "find_slot p (slots t) 0 (used t) = Inr i"
      "i < used t" "entries t ! i = x" "arr_get (elems (slots t)) i = Inr x"
proof (cases "\<exists>x \<in> set (entries t). q x")
  case False
  then show ?thesis using find_slot_entries [OF assms] absent by (auto simp: find_None_iff)
next
  case True
  let ?P = "\<lambda>i. i < used t \<and> q (entries t ! i)"
  have len: "length (entries t) = used t" using assms(1) by (simp add: entries_def)
  from True len obtain i where "?P i" by (metis in_set_conv_nth)
  then have k: "?P (LEAST i. ?P i)" by (rule LeastI)
  moreover have "\<not> q (entries t ! j)" if "j < (LEAST i. ?P i)" for j
    using that k not_less_Least [OF that] by auto
  ultimately have "List.find q (entries t) = Some (entries t ! (LEAST i. ?P i))"
    unfolding find_Some_iff len by blast
  moreover have "find_slot p (slots t) 0 (used t) = Inr (LEAST i. ?P i)"
    using find_slot_entries [OF assms] True by simp
  moreover have "arr_get (elems (slots t)) (LEAST i. ?P i) = Inr (entries t ! (LEAST i. ?P i))"
    using k assms(1) by (simp add: arr_get_def entries_def)
  ultimately show ?thesis using k present by blast
qed

text \<open>The releasing loop goes through the entries in order.\<close>

lemma release_slots_from:
  "i + n \<le> length (elems arr) \<Longrightarrow> \<forall>x \<in> set (take n (drop i (elems arr))). f x = Inr (g x) \<Longrightarrow>
   release_slots f arr i n = Inr (concat (map g (take n (drop i (elems arr)))))"
proof (induction n arbitrary: i)
  case (Suc n)
  then have "drop i (elems arr) = elems arr ! i # drop (Suc i) (elems arr)" by (simp add: Cons_nth_drop_Suc)
  with Suc show ?case by (simp add: arr_get_def)
qed simp

lemma release_slots_entries:
  assumes "used t \<le> length (elems (slots t))" "\<forall>x \<in> set (entries t). f x = Inr (g x)"
  shows "release_slots f (slots t) 0 (used t) = Inr (concat (map g (entries t)))"
  using release_slots_from [of 0 "used t" "slots t" f g] assms by (simp add: entries_def)

section \<open>The interface of a table of named entries\<close>

text \<open>
  One level of the registry: how its entries are named, the zeroed entry and its size. The
  laws below are what the registry relies on at every level.
\<close>

locale named_table =
  fixes key :: "'a \<Rightarrow> string option" and zero :: 'a and es :: nat
  assumes es_pos: "0 < es" and es_limit: "es \<le> 0xffff"
begin

lemma lookup_Some:
  "lookup key t n = Some x \<Longrightarrow> x \<in> set (entries t) \<and> key x = Some n"
  by (auto simp: lookup_def find_Some_iff in_set_conv_nth)

lemma lookup_None: "lookup key t n = None \<longleftrightarrow> (\<forall>x \<in> set (entries t). key x \<noteq> Some n)"
  by (auto simp: lookup_def find_None_iff)

lemma lookup_at:
  assumes "table_wf key t" "i < used t" "key (entries t ! i) = Some n"
  shows "lookup key t n = Some (entries t ! i)"
proof -
  have len: "length (entries t) = used t" using assms(1) by (simp add: used_entries)
  have "\<not> key (entries t ! j) = Some n" if "j < i" for j
  proof
    assume "key (entries t ! j) = Some n"
    then have "map key (entries t) ! j = map key (entries t) ! i"
      using assms(2,3) that len by simp
    moreover have "distinct (map key (entries t))" using assms(1) by (simp add: table_wf_def)
    ultimately have "j = i"
      using that assms(2) len nth_eq_iff_index_eq [of "map key (entries t)" j i] by simp
    with that show False by simp
  qed
  then show ?thesis
    using assms(2,3) len by (auto simp: lookup_def find_Some_iff intro: exI [of _ i])
qed

text \<open>The search of the code finds what the lookup finds.\<close>

lemma find_named_cases:
  assumes "table_wf key t"
  obtains (absent) "lookup key t n = None" "find_named key n t = Inr (used t)"
  | (present) i where "i < used t" "find_named key n t = Inr i" "key (entries t ! i) = Some n"
      "lookup key t n = Some (entries t ! i)"
proof (cases "lookup key t n = None")
  case True
  then have "find_named key n t = Inr (used t)"
    using find_slot_entries [of t "\<lambda>x. Inr (key x = Some n)" "\<lambda>x. key x = Some n"] assms
    by (auto simp: find_named_def lookup_None table_wf_def)
  with True show ?thesis by (rule absent)
next
  case False
  let ?q = "\<lambda>i. i < used t \<and> key (entries t ! i) = Some n"
  have ex: "\<exists>x \<in> set (entries t). key x = Some n" using False lookup_None [of t n] by auto
  then obtain i where "?q i" using assms by (metis in_set_conv_nth used_entries)
  then have least: "?q (LEAST i. ?q i)" by (rule LeastI)
  have "find_named key n t = Inr (LEAST i. ?q i)"
    using find_slot_entries [of t "\<lambda>x. Inr (key x = Some n)" "\<lambda>x. key x = Some n"] assms ex
    by (simp add: find_named_def table_wf_def)
  with least show ?thesis using lookup_at [OF assms] present by blast
qed

lemma grow_slot_ok:
  assumes "\<forall>n. mem n" "table_wf key t" "used t < 0xffff"
  shows "grow_slot mem zero es x t = Inr (t\<lparr>slots := Some (entries t @ [x])\<rparr>)"
proof -
  have "oddjob_resize_array mem zero es (slots t) (used t) (used t + 1)
      = Inr (Some (entries t @ [zero]))"
    using assms es_pos es_limit
    by (subst resize_array_grow) (auto simp: table_wf_def entries_def)
  moreover have "used t = length (entries t)" using assms(2) by (rule used_entries)
  ultimately show ?thesis by (simp add: grow_slot_def arr_set_append_None)
qed

lemma enter_slot_new:
  assumes "\<forall>n. mem n" "table_wf key t" "used t < 0xffff" "lookup key t n = None"
    "key (fresh (Some n)) = Some n" "nul_free n"
  shows "\<exists>t'. enter_slot mem zero es key fresh n t = Inr (used t, [n], t') \<and> table_wf key t'
     \<and> entries t' = entries t @ [fresh (Some n)]"
proof -
  have "find_named key n t = Inr (used t)"
    using assms(2) by (rule find_named_cases [of _ n]) (use assms(4) in auto)
  then have "enter_slot mem zero es key fresh n t
      = Inr (used t, [n], t\<lparr>slots := Some (entries t @ [fresh (Some n)]), used := used t + 1\<rparr>)"
    using assms by (simp add: enter_slot_def dup_str_eq grow_slot_ok)
  moreover have "entries (t\<lparr>slots := Some (entries t @ [fresh (Some n)]), used := used t + 1\<rparr>)
      = entries t @ [fresh (Some n)]"
    using used_entries [OF assms(2)] by (simp add: entries_def)
  ultimately show ?thesis
    using assms(2-5) used_entries [OF assms(2)] by (auto simp: table_wf_def lookup_None)
qed

lemma enter_slot_old:
  assumes "table_wf key t" "lookup key t n = Some x"
  shows "\<exists>i < used t. enter_slot mem zero es key fresh n t = Inr (i, [], t)
     \<and> entries t ! i = x \<and> key x = Some n"
  using assms(1) by (rule find_named_cases [of _ n]) (use assms(2) in \<open>auto simp: enter_slot_def\<close>)

lemma modify_slot_ok:
  assumes "table_wf key t" "i < used t" "f (entries t ! i) = Inr (r, y)" "key y = key (entries t ! i)"
  shows "\<exists>t'. modify_slot i f t = Inr (r, t') \<and> table_wf key t' \<and> used t' = used t
     \<and> entries t' = (entries t)[i := y]"
proof -
  let ?t = "t\<lparr>slots := Some ((elems (slots t))[i := y])\<rparr>"
  have i: "i < length (elems (slots t))" "elems (slots t) ! i = entries t ! i"
    using assms(1,2) by (auto simp: table_wf_def entries_def)
  have e: "entries ?t = (entries t)[i := y]" by (simp add: entries_def take_update_swap)
  have "map key ((entries t)[i := y]) = map key (entries t)"
    using assms(4) by (metis list_update_id map_update)
  with e assms(1) have "table_wf key ?t" by (simp add: table_wf_def del: map_update)
  with e i assms(3) show ?thesis by (simp add: modify_slot_def arr_get_def arr_set_def)
qed

lemma drop_slot_ok:
  assumes "\<forall>n. mem n" "table_wf key t" "i < used t"
  shows "\<exists>t'. drop_slot mem zero es i t = Inr t' \<and> table_wf key t' \<and> used t' = used t - 1
     \<and> entries t' = take i (entries t) @ drop (Suc i) (entries t)"
proof -
  let ?xs = "elems (slots t)" and ?n = "used t"
  let ?ys = "take i (entries t) @ drop (Suc i) (entries t)"
  have le: "?n \<le> length ?xs" "?n \<le> 0xffff" using assms(2) by (simp_all add: table_wf_def)
  have len: "length ?ys = ?n - 1" using assms(2,3) by (simp add: used_entries)
  have keys: "distinct (map key ?ys)" "None \<notin> set (map key ?ys)"
  proof -
    have "distinct (map key (entries t))" "None \<notin> set (map key (entries t))"
      using assms(2) by (simp_all add: table_wf_def)
    moreover have "i < length (entries t)" using assms(2,3) by (simp add: used_entries)
    then have "map key (entries t) = map key (take i (entries t)) @ key (entries t ! i) # map key (drop (Suc i) (entries t))"
      by (metis id_take_nth_drop list.simps(9) map_append)
    ultimately show "distinct (map key ?ys)" "None \<notin> set (map key ?ys)" by auto
  qed
  show ?thesis
  proof (cases "?n > 1")
    case True
    define zs where "zs = take i ?xs @ take (?n - Suc i) (drop (Suc i) ?xs) @ drop (?n - 1) ?xs"
    have "min (length ?xs - Suc i) (?n - Suc i) = ?n - Suc i" "i + (?n - Suc i) = ?n - 1"
      using le assms(3) by auto
    then have move: "move_down i t = Inr zs"
      using le assms(3) by (auto simp: move_down_def slice_def blit_def zs_def)
    have "zs = ?ys @ drop (?n - 1) ?xs"
      using assms(3) by (simp add: zs_def entries_def drop_take min_def)
    then obtain r where "zs = ?ys @ r" by (metis append.assoc)
    then have "length ?ys \<le> length zs" "take (length ?ys) zs = ?ys"
      by (metis append_eq_conv_conj length_append le_add1)+
    then have zs: "take (?n - 1) zs = ?ys" "?n - 1 \<le> length zs" "zs \<noteq> []"
      unfolding len using True by auto
    have "oddjob_resize_array mem zero es (Some zs) ?n (?n - 1) = Inr (ptr_of ?ys)"
      using assms(1) es_pos es_limit le zs by (subst resize_array_shrink) auto
    with True move have "drop_slot mem zero es i t = Inr \<lparr>slots = ptr_of ?ys, used = ?n - 1\<rparr>"
      by (simp add: drop_slot_def)
    then show ?thesis using keys len le by (auto simp: table_wf_def entries_def)
  next
    case False
    with assms(3) have one: "?n = 1" "i = 0" by simp_all
    then have "?ys = []" using len by simp
    moreover have "drop_slot mem zero es i t = Inr \<lparr>slots = None, used = 0\<rparr>"
      using one es_limit by (simp add: drop_slot_def oddjob_resize_array_def Let_def)
    ultimately show ?thesis using one by (simp add: table_wf_def entries_def)
  qed
qed

text \<open>The laws in terms of the lookup.\<close>

lemma lookup_iff:
  assumes "table_wf key t"
  shows "lookup key t n = Some x \<longleftrightarrow> x \<in> set (entries t) \<and> key x = Some n"
proof
  assume "x \<in> set (entries t) \<and> key x = Some n"
  then obtain i where "i < used t" "entries t ! i = x" "key (entries t ! i) = Some n"
    using used_entries [OF assms] by (metis in_set_conv_nth)
  then show "lookup key t n = Some x" using lookup_at [OF assms] by blast
qed (use lookup_Some in blast)

lemma entry_lookup:
  assumes "table_wf key t" "x \<in> set (entries t)"
  shows "\<exists>n. lookup key t n = Some x"
proof -
  have "key x \<noteq> None" using assms by (force simp: table_wf_def)
  then show ?thesis using lookup_iff [OF assms(1)] assms(2) by auto
qed

lemma lookup_empty: "table_wf key t \<Longrightarrow> used t = 0 \<longleftrightarrow> lookup key t = Map.empty"
proof
  assume wf: "table_wf key t" and none: "lookup key t = Map.empty"
  have "x \<notin> set (entries t)" for x
  proof
    assume x: "x \<in> set (entries t)"
    then obtain n where "key x = Some n"
      using wf by (cases "key x") (force simp: table_wf_def)+
    with x lookup_iff [OF wf] none show False by fastforce
  qed
  then show "used t = 0" using used_entries [OF wf] by (metis length_0_conv list.set_intros(1) neq_Nil_conv)
qed (auto simp: used_entries lookup_def)

lemma map_ext_Some: "(\<And>n x. f n = Some x \<longleftrightarrow> g n = Some x) \<Longrightarrow> f = g"
  by (rule ext) (metis option.exhaust)

lemma lookup_append:
  assumes "table_wf key t" "table_wf key t'" "entries t' = entries t @ [x]" "key x = Some n"
    "lookup key t n = None"
  shows "lookup key t' = (lookup key t)(n \<mapsto> x)"
  using assms by (intro map_ext_Some) (auto simp: lookup_iff lookup_None)

lemma lookup_update:
  assumes "table_wf key t" "table_wf key t'" "i < used t" "entries t' = (entries t)[i := y]"
    "key (entries t ! i) = Some n" "key y = Some n"
  shows "lookup key t' = (lookup key t)(n \<mapsto> y)"
proof
  fix n'
  have i: "i < length (entries t)" "used t' = used t"
    using assms(3,4) used_entries [OF assms(1)] used_entries [OF assms(2)] by simp_all
  show "lookup key t' n' = ((lookup key t)(n \<mapsto> y)) n'"
  proof (cases "n' = n")
    case True
    then show ?thesis using lookup_at [of t' i n] assms i by simp
  next
    case False
    have "x \<in> set (entries t') \<longleftrightarrow> x \<in> set (entries t)" if x: "key x = Some n'" for x
    proof -
      have "x \<noteq> y" "x \<noteq> entries t ! i" using x False assms(5,6) by auto
      then show ?thesis
        using i assms(4) by (auto simp: in_set_conv_nth nth_list_update split: if_splits)
    qed
    then have "lookup key t' n' = Some x \<longleftrightarrow> lookup key t n' = Some x" for x
      using lookup_iff assms(1,2) by blast
    with False show ?thesis by (metis fun_upd_other not_Some_eq)
  qed
qed

lemma lookup_drop:
  assumes "table_wf key t" "table_wf key t'" "i < used t" "key (entries t ! i) = Some n"
    "entries t' = take i (entries t) @ drop (Suc i) (entries t)"
  shows "lookup key t' = (lookup key t)(n := None)"
proof (rule map_ext_Some)
  fix n' x
  have split: "entries t = take i (entries t) @ entries t ! i # drop (Suc i) (entries t)"
    using assms(1,3) used_entries by (metis id_take_nth_drop)
  then have "set (entries t) = insert (entries t ! i) (set (entries t'))"
    using assms(5) by (metis Un_insert_right list.simps(15) set_append)
  moreover have "key (entries t ! i) \<notin> key ` set (entries t')"
  proof -
    have "distinct (map key (take i (entries t) @ entries t ! i # drop (Suc i) (entries t)))"
      using assms(1) split by (simp add: table_wf_def)
    then show ?thesis using assms(5) by auto
  qed
  ultimately show "lookup key t' n' = Some x \<longleftrightarrow> ((lookup key t)(n := None)) n' = Some x"
    using assms(4) by (auto simp: lookup_iff [OF assms(1)] lookup_iff [OF assms(2)]; metis image_eqI)
qed

text \<open>
  Entering a name and working on its entry: the names in the table grow by the copies made.
\<close>

lemma with_entry_ok:
  assumes "\<forall>n. mem n" "table_wf key t" "used t < 0xffff" "nul_free n"
    "key (fresh (Some n)) = Some n"
    "f (case lookup key t n of None \<Rightarrow> fresh (Some n) | Some x \<Rightarrow> x) = Inr (made, y)" "key y = Some n"
    and names: "names (fresh (Some n)) = {#n#}"
    "names y = names (case lookup key t n of None \<Rightarrow> fresh (Some n) | Some x \<Rightarrow> x) + mset made"
  shows "\<exists>copies t'. with_entry mem zero es key fresh n f t = Inr (copies, t') \<and> table_wf key t'
     \<and> lookup key t' = (lookup key t)(n \<mapsto> y) \<and> 0 < used t' \<and> used t' \<le> Suc (used t)
     \<and> sum_list (map names (entries t')) = sum_list (map names (entries t)) + mset copies"
proof (cases "lookup key t n")
  case None
  obtain t1 where t1: "enter_slot mem zero es key fresh n t = Inr (used t, [n], t1)" "table_wf key t1"
    "entries t1 = entries t @ [fresh (Some n)]"
    using enter_slot_new [OF assms(1-3) None, of fresh] assms(4,5) by blast
  have at: "used t < used t1" "entries t1 ! used t = fresh (Some n)" "used t1 = Suc (used t)"
    using t1 assms(2) by (simp_all add: used_entries)
  obtain t' where t': "modify_slot (used t) f t1 = Inr (made, t')" "table_wf key t'"
    "entries t' = (entries t1)[used t := y]" "used t' = used t1"
    using modify_slot_ok [OF t1(2) at(1), of f made y] assms(5,6,7) None at(2) by auto
  have "lookup key t' = (lookup key t1)(n \<mapsto> y)"
    using lookup_update [OF t1(2) t'(2) at(1) t'(3)] at(2) assms(5,7) by simp
  also have "lookup key t1 = (lookup key t)(n \<mapsto> fresh (Some n))"
    using lookup_append [OF assms(2) t1(2,3) assms(5) None] .
  finally have "lookup key t' = (lookup key t)(n \<mapsto> y)" by (simp only: fun_upd_upd)
  moreover have "with_entry mem zero es key fresh n f t = Inr (n # made, t')"
    using t1(1) t'(1) by (simp add: with_entry_def)
  moreover have "sum_list (map names (entries t')) = sum_list (map names (entries t)) + mset (n # made)"
    using t'(3) t1(3) used_entries [OF assms(2)] names None by (simp add: list_update_append)
  ultimately show ?thesis using t'(2,4) at(3) by (intro exI [of _ "n # made"] exI [of _ t'] conjI) simp_all
next
  case (Some x)
  obtain i where i: "i < used t" "enter_slot mem zero es key fresh n t = Inr (i, [], t)"
    "entries t ! i = x" "key x = Some n"
    using enter_slot_old [OF assms(2) Some, of mem fresh] by blast
  obtain t' where t': "modify_slot i f t = Inr (made, t')" "table_wf key t'"
    "entries t' = (entries t)[i := y]" "used t' = used t"
    using modify_slot_ok [OF assms(2) i(1), of f made y] assms(6,7) Some i(3,4) by auto
  have "with_entry mem zero es key fresh n f t = Inr (made, t')"
    using i(2) t'(1) by (simp add: with_entry_def)
  moreover have "lookup key t' = (lookup key t)(n \<mapsto> y)"
    using lookup_update [OF assms(2) t'(2) i(1) t'(3)] i(3,4) assms(7) by simp
  moreover have "i < length (entries t)" using i(1) used_entries [OF assms(2)] by simp
  then have "sum_list (map names (entries t')) = sum_list (map names (entries t)) + mset made"
    using t'(3) by (rule entries_sum_grow) (use i(3) names(2) Some in simp)
  ultimately show ?thesis using t'(2,4) i(1) by (intro exI [of _ made] exI [of _ t'] conjI) simp_all
qed

lemma remove_level_absent:
  assumes "table_wf key t" "lookup key t n = None"
  shows "remove_level mem zero es key inner n t = Inr ((False, []), t)"
  using assms(1)
  by (rule find_named_cases [of _ n]) (use assms(2) in \<open>auto simp: remove_level_def\<close>)

text \<open>Removing: the names in the table shrink by those released.\<close>

lemma remove_level_present:
  assumes "\<forall>n. mem n" "table_wf key t" "lookup key t n = Some x" "inner x = Inr ((emptied, freed), y)"
    "key y = Some n"
    and names: "names x = names y + owned freed" "emptied \<Longrightarrow> names y = {#n#}"
  shows "\<exists>b rel t'. remove_level mem zero es key inner n t = Inr ((b, rel), t') \<and> table_wf key t'
     \<and> lookup key t' = (lookup key t)(n := if emptied then None else Some y)
     \<and> (b \<longleftrightarrow> lookup key t' = Map.empty) \<and> used t' \<le> used t \<and> (\<not> emptied \<longrightarrow> used t' = used t)
     \<and> sum_list (map names (entries t)) = sum_list (map names (entries t')) + owned rel"
proof -
  have "\<exists>i < used t. find_named key n t = Inr i \<and> key (entries t ! i) = Some n \<and> entries t ! i = x"
    using assms(2) by (rule find_named_cases [of _ n]) (use assms(3) in auto)
  then obtain i where i: "i < used t" "find_named key n t = Inr i" "key (entries t ! i) = Some n"
    "entries t ! i = x" by blast
  obtain t1 where t1: "modify_slot i inner t = Inr ((emptied, freed), t1)" "table_wf key t1"
    "used t1 = used t" "entries t1 = (entries t)[i := y]"
    using modify_slot_ok [OF assms(2) i(1), of inner "(emptied, freed)" y] assms(4,5) i(3,4) by auto
  have l1: "lookup key t1 = (lookup key t)(n \<mapsto> y)"
    using lookup_update [OF assms(2) t1(2) i(1) t1(4) i(3) assms(5)] .
  have len: "i < length (entries t)" "i < length (entries t1)"
    using i(1) t1(4) used_entries [OF assms(2)] by simp_all
  have s1: "sum_list (map names (entries t)) = sum_list (map names (entries t1)) + owned freed"
    using len(1) t1(4) by (rule entries_sum_shrink) (use i(4) names(1) in simp)
  show ?thesis
  proof (cases emptied)
    case False
    then have "remove_level mem zero es key inner n t = Inr ((False, freed), t1)"
      using i(1,2) t1(1) by (simp add: remove_level_def)
    moreover have "lookup key t1 \<noteq> Map.empty" unfolding l1 by simp
    ultimately show ?thesis using False t1(2,3) l1 s1 by auto
  next
    case True
    obtain t2 where t2: "drop_slot mem zero es i t1 = Inr t2" "table_wf key t2"
      "entries t2 = take i (entries t1) @ drop (Suc i) (entries t1)" "used t2 = used t1 - 1"
      using drop_slot_ok [OF assms(1) t1(2), of i] i(1) t1(3) by auto
    have y: "entries t1 ! i = y" using t1(4) len(1) by simp
    then have "arr_get (elems (slots t1)) i = Inr y"
      using i(1) t1(2,3) by (auto simp: arr_get_def entries_def table_wf_def)
    moreover have "lookup key t2 = (lookup key t1)(n := None)"
      using lookup_drop [OF t1(2) t2(2) _ _ t2(3)] i(1) t1(3) y assms(5) by simp
    then have l2: "lookup key t2 = (lookup key t)(n := None)" unfolding l1 by (simp only: fun_upd_upd)
    ultimately have "remove_level mem zero es key inner n t = Inr ((used t2 = 0, freed @ [Some n]), t2)"
      using True i(1,2) t1(1) t2(1) assms(5) by (simp add: remove_level_def)
    moreover have "(used t2 = 0) = (lookup key t2 = Map.empty)" by (rule lookup_empty [OF t2(2)])
    moreover have "sum_list (map names (entries t1)) = sum_list (map names (entries t2)) + {#n#}"
      using len(2) by (rule entries_sum [where g = names]) (use t2(3) y names(2) True in auto)
    then have "sum_list (map names (entries t)) = sum_list (map names (entries t2)) + owned (freed @ [Some n])"
      using s1 by simp
    ultimately show ?thesis
      using True t2(2,4) t1(3) l2
      by (intro exI [of _ "used t2 = 0"] exI [of _ "freed @ [Some n]"] exI [of _ t2] conjI) simp_all
  qed
qed

end

end
