(* ===== verification/Ledger.thy ===== *)
theory Ledger
  imports Prelude "HOL-Library.Multiset"
begin

text \<open>
  Accounting over a log of events, used for what src/oddjob_dbus.c acquires and gives back: connections
  that are opened and closed, attached to the main loop and detached, and copies of names.
\<close>

section \<open>What is held after a log\<close>

text \<open>
  Some events take something, some give it back; \<open>None\<close> if one gives back what is not held. The events
  are read in order.
\<close>

fun hold_step :: "('e \<Rightarrow> 'k option) \<Rightarrow> ('e \<Rightarrow> 'k option) \<Rightarrow> 'e \<Rightarrow> 'k multiset option \<Rightarrow> 'k multiset option" where
  "hold_step takes gives e None = None"
| "hold_step takes gives e (Some H) = (case takes e of
       Some c \<Rightarrow> Some (add_mset c H)
     | None \<Rightarrow> (case gives e of
           Some c \<Rightarrow> if c \<in># H then Some (H - {#c#}) else None
         | None \<Rightarrow> Some H))"

definition held :: "('e \<Rightarrow> 'k option) \<Rightarrow> ('e \<Rightarrow> 'k option) \<Rightarrow> 'e list \<Rightarrow> 'k multiset option" where
  "held takes gives lg = fold (hold_step takes gives) lg (Some {#})"

definition tally :: "('e \<Rightarrow> 'k option) \<Rightarrow> 'e list \<Rightarrow> 'k multiset" where
  "tally f lg = mset (List.map_filter f lg)"

lemma held_Nil [simp]: "held t g [] = Some {#}"
  by (simp add: held_def)

lemma held_append: "held t g (lg @ lg') = fold (hold_step t g) lg' (held t g lg)"
  by (simp add: held_def)

lemma hold_step_neutral [simp]: "t e = None \<Longrightarrow> g e = None \<Longrightarrow> hold_step t g e H = H"
  by (cases H) simp_all

lemma tally_simps [simp]:
  "tally f [] = {#}"
  "tally f (e # lg) = (case f e of None \<Rightarrow> tally f lg | Some c \<Rightarrow> add_mset c (tally f lg))"
  "tally f (lg @ lg') = tally f lg + tally f lg'"
  by (simp_all add: tally_def map_filter_simps split: option.split) (simp add: map_filter_def)

lemma tally_none: "list_all (\<lambda>e. f e = None) es \<Longrightarrow> tally f es = {#}"
  by (induction es) simp_all

section \<open>Ledgers\<close>

locale ledger =
  fixes takes gives :: "'e \<Rightarrow> 'k option"
  assumes one_way: "takes e = None \<or> gives e = None"
begin

text \<open>What was taken is what was given back and what is held.\<close>

lemma conservation: "held takes gives lg = Some H \<Longrightarrow> tally takes lg = tally gives lg + H"
proof (induction lg arbitrary: H rule: rev_induct)
  case (snoc e lg)
  then obtain H' where H': "held takes gives lg = Some H'" by (cases "held takes gives lg") (auto simp: held_append)
  show ?case
    using snoc.IH [OF H'] snoc.prems H' one_way [of e]
    by (auto simp: held_append split: option.splits if_splits)
qed simp

lemma neutral: "list_all (\<lambda>e. takes e = None \<and> gives e = None) es \<Longrightarrow> held takes gives (lg @ es) = held takes gives lg"
  by (induction es arbitrary: lg) (simp_all add: held_append)

lemma taking:
  "held takes gives lg = Some H \<Longrightarrow> list_all (\<lambda>e. gives e = None) es \<Longrightarrow>
   held takes gives (lg @ es) = Some (H + tally takes es)"
proof (induction es arbitrary: lg H)
  case (Cons e es)
  have "held takes gives (lg @ [e]) = Some (H + tally takes [e])"
    using Cons.prems by (auto simp: held_append split: option.split)
  from Cons.IH [OF this] Cons.prems(2) show ?case by (auto split: option.splits)
qed simp

lemma giving:
  "held takes gives lg = Some (H + tally gives es) \<Longrightarrow> list_all (\<lambda>e. takes e = None) es \<Longrightarrow>
   held takes gives (lg @ es) = Some H"
proof (induction es arbitrary: lg)
  case (Cons e es)
  then have "held takes gives (lg @ [e]) = Some (H + tally gives es)"
    by (auto simp: held_append split: option.splits)
  from Cons.IH [OF this] Cons.prems(2) show ?case by simp
qed simp

end

end
