(* ===== verification/Registry.thy ===== *)
theory Registry
  imports Tables Ledger
begin

text \<open>
  The listener registry of src/oddjob_dbus.c: services with their bus connections, objects,
  interfaces and methods; connecting and reconnecting, adding and removing methods. Handlers,
  their data and connections are addresses. The bus is a record of the answers libdbus gives,
  with the log of what changes outside the registry: the calls of libdbus and of the main loop, and the
  names that are copied and released.
\<close>

section \<open>The data\<close>

record reg_method =
  meth_name :: "string option"
  meth_args :: int
  meth_handler :: "nat option"
  meth_data :: "nat option"

record reg_interface =
  if_name :: "string option"
  if_methods :: "reg_method table"

record reg_object =
  obj_path :: "string option"
  obj_interfaces :: "reg_interface table"

record service =
  srv_conn :: "nat option"
  srv_name :: "string option"
  srv_objects :: "reg_object table"

record registry =
  ctx_bustype :: nat
  ctx_timeout :: int
  ctx_selinux :: bool
  ctx_services :: "service table"
  ctx_array :: nat

text \<open>
  \<open>ctx_array\<close> tells the allocations of the array of services apart: \<open>oddjob_resize_array\<close> always
  allocates a new array and releases the old one. A pointer into the array is the allocation and an index;
  once there is another allocation, it points to released memory.
\<close>

type_synonym service_ptr = "nat \<times> nat"

fun points_to :: "nat \<Rightarrow> service list \<Rightarrow> service_ptr \<Rightarrow> service res" where
  "points_to now xs (a, i) = (if a \<noteq> now then Inl Use_after_free else arr_get xs i)"

text \<open>The zeroed structures; a structure pointed to by an array has its size in bytes.\<close>

definition zero_method :: reg_method where
  "zero_method = \<lparr>meth_name = None, meth_args = 0, meth_handler = None, meth_data = None\<rparr>"

definition zero_interface :: reg_interface where
  "zero_interface = \<lparr>if_name = None, if_methods = empty_table\<rparr>"

definition zero_object :: reg_object where
  "zero_object = \<lparr>obj_path = None, obj_interfaces = empty_table\<rparr>"

definition zero_service :: service where
  "zero_service = \<lparr>srv_conn = None, srv_name = None, srv_objects = empty_table\<rparr>"

section \<open>The bus\<close>

datatype bus_event =
    Opened nat
  | Closed nat
  | Slept int
  | Exit_on_disconnect "nat option" bool
  | Filter_added nat
  | Filter_removed nat
  | Name_acquired nat "string option"
  | Name_released nat "string option"
  | Attached nat
  | Detached nat
  | Copied string
  | Freed "string option"

text \<open>\<open>dbus_bus_get_private\<close>: no connection, or one that is connected or not.\<close>

datatype conn_answer = No_conn | Conn nat bool

record bus =
  bus_answers :: "conn_answer list"
  bus_filter_ok :: "nat \<Rightarrow> bool"
  bus_request_name :: "nat \<Rightarrow> string option \<Rightarrow> int"
  bus_log :: "bus_event list"

definition say :: "bus_event \<Rightarrow> bus \<Rightarrow> bus" where
  "say e b = b\<lparr>bus_log := bus_log b @ [e]\<rparr>"

lemma say_fields [simp]:
  "bus_answers (say e b) = bus_answers b" "bus_filter_ok (say e b) = bus_filter_ok b"
  "bus_request_name (say e b) = bus_request_name b"
  by (simp_all add: say_def)

definition say_all :: "bus_event list \<Rightarrow> bus \<Rightarrow> bus" where
  "say_all es b = b\<lparr>bus_log := bus_log b @ es\<rparr>"

text \<open>Acquiring and releasing a well-known name (without queueing), closing a connection.\<close>

definition PRIMARY_OWNER :: int where "PRIMARY_OWNER = 1"

definition oddjob_dbus_bind :: "nat \<Rightarrow> string option \<Rightarrow> bus \<Rightarrow> bool \<times> bus" where
  "oddjob_dbus_bind c name b =
     (if bus_request_name b c name = PRIMARY_OWNER then (True, say (Name_acquired c name) b) else (False, b))"

definition oddjob_dbus_unbind :: "nat \<Rightarrow> string option \<Rightarrow> bus \<Rightarrow> bus" where
  "oddjob_dbus_unbind c name b = say (Name_released c name) b"

definition oddjob_dbus_connection_close :: "nat \<Rightarrow> bus \<Rightarrow> bus" where
  "oddjob_dbus_connection_close c b = say (Closed c) b"

lemmas bus_call_defs = oddjob_dbus_bind_def oddjob_dbus_unbind_def oddjob_dbus_connection_close_def

declare bus_call_defs [simp]

definition FAST_RECONNECT_ATTEMPTS :: nat where "FAST_RECONNECT_ATTEMPTS = 10"
definition FAST_RECONNECT_TIMEOUT :: int where "FAST_RECONNECT_TIMEOUT = 5"

text \<open>
  The connection loop of \<open>service_connect\<close>; when the answers run out it is still trying
  (\<open>Diverges\<close>). The attempts are counted in an \<open>int\<close>; \<open>sleep\<close> takes an unsigned number of seconds.
\<close>

definition connect_pause :: "registry \<Rightarrow> nat \<Rightarrow> int" where
  "connect_pause ctx attempt =
     (if attempt < FAST_RECONNECT_ATTEMPTS \<and> ctx_timeout ctx > FAST_RECONNECT_TIMEOUT
      then FAST_RECONNECT_TIMEOUT else ctx_timeout ctx mod 2 ^ 32)"

fun connect_loop ::
  "registry \<Rightarrow> nat \<Rightarrow> conn_answer list \<Rightarrow> bus_event list \<Rightarrow> (nat \<times> conn_answer list \<times> bus_event list) res"
where
  "connect_loop ctx attempt [] lg = Inl Diverges"
| "connect_loop ctx attempt (No_conn # as) lg =
     (if int attempt = INT_MAX then Inl Int_overflow
      else connect_loop ctx (attempt + 1) as (lg @ [Slept (connect_pause ctx attempt)]))"
| "connect_loop ctx attempt (Conn c up # as) lg =
     (if up then Inr (c, as, lg @ [Opened c])
      else if int attempt = INT_MAX then Inl Int_overflow
      else connect_loop ctx (attempt + 1) as (lg @ [Opened c, Closed c, Slept (connect_pause ctx attempt)]))"

definition service_connect :: "registry \<Rightarrow> service \<Rightarrow> bus \<Rightarrow> (bool \<times> service \<times> bus) res" where
  "service_connect ctx srv bus =
     res_bind (connect_loop ctx 0 (bus_answers bus) (bus_log bus)) (\<lambda>(c, as, lg).
       let bus = bus\<lparr>bus_answers := as, bus_log := lg\<rparr>;
           bus = say (Exit_on_disconnect (Some c) (ctx_timeout ctx \<le> 0)) bus
       in if \<not> bus_filter_ok bus c then Inr (False, srv, oddjob_dbus_connection_close c bus)
          else let (bound, bus) = oddjob_dbus_bind c (srv_name srv) (say (Filter_added c) bus)
               in if \<not> bound then Inr (False, srv, oddjob_dbus_connection_close c bus)
                  else Inr (True, srv\<lparr>srv_conn := Some c\<rparr>, say (Attached c) bus))"

definition service_disconnect :: "service \<Rightarrow> bus \<Rightarrow> service \<times> bus" where
  "service_disconnect srv bus = (case srv_conn srv of
       None \<Rightarrow> (srv, bus)
     | Some c \<Rightarrow>
         (srv\<lparr>srv_conn := None\<rparr>,
          oddjob_dbus_connection_close c
            (oddjob_dbus_unbind c (srv_name srv) (say (Filter_removed c) (say (Detached c) bus)))))"

section \<open>The whole registry\<close>

definition oddjob_dbus_listeners_new :: "avail \<Rightarrow> nat \<Rightarrow> bool \<Rightarrow> registry res" where
  "oddjob_dbus_listeners_new mem bustype selinux_enabled =
     res_bind (oddjob_malloc0 mem 32) (\<lambda>_.
       Inr \<lparr>ctx_bustype = bustype, ctx_timeout = 0, ctx_selinux = selinux_enabled,
            ctx_services = empty_table, ctx_array = 0\<rparr>)"

text \<open>A loop over the services that works on each one through a pointer.\<close>

fun each_service ::
  "(service \<Rightarrow> bus \<Rightarrow> (service \<times> bus) res) \<Rightarrow> nat \<Rightarrow> nat \<Rightarrow> service table \<Rightarrow> bus \<Rightarrow> (service table \<times> bus) res"
where
  "each_service f i 0 t bus = Inr (t, bus)"
| "each_service f i (Suc n) t bus =
     res_bind (modify_slot i (\<lambda>srv. res_bind (f srv bus) (\<lambda>(srv, bus). Inr (bus, srv))) t) (\<lambda>(bus, t).
       each_service f (i + 1) n t bus)"

definition oddjob_dbus_listeners_set_reconnect_timeout ::
  "registry \<Rightarrow> int \<Rightarrow> bus \<Rightarrow> (registry \<times> bus) res" where
  "oddjob_dbus_listeners_set_reconnect_timeout ctx timeout bus =
     (let ctx = ctx\<lparr>ctx_timeout := timeout\<rparr>
      in res_bind (each_service
             (\<lambda>srv bus. Inr (srv, say (Exit_on_disconnect (srv_conn srv) (ctx_timeout ctx \<le> 0)) bus))
             0 (used (ctx_services ctx)) (ctx_services ctx) bus)
           (\<lambda>(t, bus). Inr (ctx\<lparr>ctx_services := t\<rparr>, bus)))"

text \<open>\<open>up c\<close>: \<open>dbus_connection_get_is_connected\<close> when the loop comes to the service.\<close>

definition reconnect_service ::
  "registry \<Rightarrow> (nat \<Rightarrow> bool) \<Rightarrow> service \<Rightarrow> bus \<Rightarrow> (service \<times> bus) res" where
  "reconnect_service ctx up srv bus =
     (if (case srv_conn srv of None \<Rightarrow> False | Some c \<Rightarrow> up c) then Inr (srv, bus)
      else (let (srv, bus) = service_disconnect srv bus
            in res_bind (service_connect ctx srv bus) (\<lambda>(ok, srv, bus). Inr (srv, bus))))"

definition oddjob_dbus_listeners_reconnect_if_needed ::
  "registry \<Rightarrow> (nat \<Rightarrow> bool) \<Rightarrow> bus \<Rightarrow> (registry \<times> bus) res" where
  "oddjob_dbus_listeners_reconnect_if_needed ctx up bus =
     res_bind (each_service (reconnect_service ctx up) 0 (used (ctx_services ctx)) (ctx_services ctx) bus)
       (\<lambda>(t, bus). Inr (ctx\<lparr>ctx_services := t\<rparr>, bus))"

section \<open>Adding a method\<close>

definition add_to_interface ::
  "avail \<Rightarrow> string \<Rightarrow> int \<Rightarrow> nat option \<Rightarrow> nat option \<Rightarrow> reg_interface \<Rightarrow> (string list \<times> reg_interface) res"
where
  "add_to_interface mem m n h d interf =
     res_bind (with_entry mem zero_method 32 meth_name (\<lambda>s. zero_method\<lparr>meth_name := s\<rparr>) m
         (\<lambda>meth. Inr ([], meth\<lparr>meth_args := n, meth_handler := h, meth_data := d\<rparr>))
         (if_methods interf))
       (\<lambda>(copies, t). Inr (copies, interf\<lparr>if_methods := t\<rparr>))"

definition add_to_object ::
  "avail \<Rightarrow> string \<Rightarrow> string \<Rightarrow> int \<Rightarrow> nat option \<Rightarrow> nat option \<Rightarrow> reg_object \<Rightarrow> (string list \<times> reg_object) res"
where
  "add_to_object mem i m n h d obj =
     res_bind (with_entry mem zero_interface 24 if_name (\<lambda>s. zero_interface\<lparr>if_name := s\<rparr>) i
         (add_to_interface mem m n h d) (obj_interfaces obj))
       (\<lambda>(copies, t). Inr (copies, obj\<lparr>obj_interfaces := t\<rparr>))"

definition add_to_service ::
  "avail \<Rightarrow> string \<Rightarrow> string \<Rightarrow> string \<Rightarrow> int \<Rightarrow> nat option \<Rightarrow> nat option \<Rightarrow> service
     \<Rightarrow> (string list \<times> service) res"
where
  "add_to_service mem p i m n h d srv =
     res_bind (with_entry mem zero_object 24 obj_path (\<lambda>s. zero_object\<lparr>obj_path := s\<rparr>) p
         (add_to_object mem i m n h d) (srv_objects srv))
       (\<lambda>(copies, t). Inr (copies, srv\<lparr>srv_objects := t\<rparr>))"

text \<open>
  The service is entered like the entries below it, except that it is only counted once it is
  connected; when that fails the array stays grown and the copy of the name is lost.
\<close>

definition enter_service ::
  "avail \<Rightarrow> registry \<Rightarrow> string \<Rightarrow> bus \<Rightarrow> (bool \<times> nat \<times> (nat \<times> service table) \<times> bus) res" where
  "enter_service mem ctx s bus =
     (let t = ctx_services ctx
      in res_bind (find_named srv_name s t) (\<lambda>k.
           if k \<ge> used t then
             res_bind (dup_str mem s) (\<lambda>copy.
             res_bind (grow_slot mem zero_service 40 (zero_service\<lparr>srv_name := Some copy\<rparr>) t) (\<lambda>t.
             res_bind (modify_slot k
                 (\<lambda>srv. res_bind (service_connect ctx srv (say (Copied copy) bus)) (\<lambda>(ok, srv, bus). Inr ((ok, bus), srv))) t)
               (\<lambda>((ok, bus), t).
                 Inr (ok, k, (ctx_array ctx + 1, if ok then t\<lparr>used := k + 1\<rparr> else t), bus))))
           else Inr (True, k, (ctx_array ctx, t), bus)))"

definition oddjob_dbus_listeners_add_method ::
  "avail \<Rightarrow> registry \<Rightarrow> string \<Rightarrow> string \<Rightarrow> string \<Rightarrow> string \<Rightarrow> int \<Rightarrow> nat option \<Rightarrow> nat option
     \<Rightarrow> bus \<Rightarrow> (bool \<times> registry \<times> bus) res"
where
  "oddjob_dbus_listeners_add_method mem ctx s p i m n h d bus =
     res_bind (enter_service mem ctx s bus) (\<lambda>(ok, k, (a, t), bus).
       if \<not> ok then Inr (False, ctx\<lparr>ctx_services := t, ctx_array := a\<rparr>, bus)
       else res_bind (modify_slot k (add_to_service mem p i m n h d) t) (\<lambda>(copies, t).
              Inr (True, ctx\<lparr>ctx_services := t, ctx_array := a\<rparr>, say_all (map Copied copies) bus)))"

section \<open>Removing a method\<close>

definition remove_from_interface ::
  "avail \<Rightarrow> string \<Rightarrow> reg_interface \<Rightarrow> ((bool \<times> string option list) \<times> reg_interface) res" where
  "remove_from_interface mem m interf =
     res_bind (remove_level mem zero_method 32 meth_name
         (\<lambda>meth. Inr ((True, []), meth\<lparr>meth_args := 0, meth_handler := None, meth_data := None\<rparr>))
         m (if_methods interf))
       (\<lambda>(r, t). Inr (r, interf\<lparr>if_methods := t\<rparr>))"

definition remove_from_object ::
  "avail \<Rightarrow> string \<Rightarrow> string \<Rightarrow> reg_object \<Rightarrow> ((bool \<times> string option list) \<times> reg_object) res" where
  "remove_from_object mem i m obj =
     res_bind (remove_level mem zero_interface 24 if_name (remove_from_interface mem m) i (obj_interfaces obj))
       (\<lambda>(r, t). Inr (r, obj\<lparr>obj_interfaces := t\<rparr>))"

definition remove_from_service ::
  "avail \<Rightarrow> string \<Rightarrow> string \<Rightarrow> string \<Rightarrow> service \<Rightarrow> ((bool \<times> string option list) \<times> service) res" where
  "remove_from_service mem p i m srv =
     res_bind (remove_level mem zero_object 24 obj_path (remove_from_object mem i m) p (srv_objects srv))
       (\<lambda>(r, t). Inr (r, srv\<lparr>srv_objects := t\<rparr>))"

text \<open>
  The end of \<open>remove_method\<close>: after the \<open>memmove\<close>, \<open>srv\<close> points to what moved into its place,
  and the counts it passes are those of \<open>srv\<close>, not of the registry. The decrement \<open>srv->n_objects--\<close>
  that follows goes through the pointer into the array that was resized.
\<close>

definition one_object_less :: "service \<Rightarrow> service" where
  "one_object_less srv = srv\<lparr>srv_objects := (srv_objects srv)\<lparr>used := used (srv_objects srv) - 1\<rparr>\<rparr>"

definition leave_service :: "bus \<Rightarrow> service \<Rightarrow> (bus \<times> service) res" where
  "leave_service bus srv = (let (srv, bus) = service_disconnect srv bus in Inr (say (Freed (srv_name srv)) bus, srv))"

definition drop_service :: "avail \<Rightarrow> service_ptr \<Rightarrow> service table \<Rightarrow> (nat \<times> service table) res" where
  "drop_service mem ptr t =
     (let (a, k) = ptr
      in if used t > 1
         then res_bind (move_down k t) (\<lambda>xs.
              res_bind (points_to a xs ptr) (\<lambda>srv.
              res_bind (oddjob_resize_array mem zero_service 40 (Some xs)
                  (used (srv_objects srv)) (size_of_int (int (used (srv_objects srv)) - 1))) (\<lambda>arr.
              res_bind (points_to (a + 1) (elems arr) ptr) (\<lambda>srv.
              res_bind (arr_set (elems arr) k (one_object_less srv)) (\<lambda>xs.
                Inr (a + 1, \<lparr>slots = Some xs, used = used t\<rparr>))))))
         else res_bind (points_to a (elems (slots t)) ptr) (\<lambda>srv.
              res_bind (oddjob_resize_array mem zero_service 40 (slots t) (used (srv_objects srv)) 0) (\<lambda>arr.
                Inr (a + 1, \<lparr>slots = arr, used = 0\<rparr>))))"

definition oddjob_dbus_listeners_remove_method ::
  "avail \<Rightarrow> registry \<Rightarrow> string \<Rightarrow> string \<Rightarrow> string \<Rightarrow> string \<Rightarrow> bus \<Rightarrow> (registry \<times> bus) res" where
  "oddjob_dbus_listeners_remove_method mem ctx s p i m bus =
     (let t = ctx_services ctx
      in res_bind (find_named srv_name s t) (\<lambda>k.
           if k \<ge> used t then Inr (ctx, bus)
           else res_bind (modify_slot k (remove_from_service mem p i m) t) (\<lambda>((emptied, freed), t).
             let bus = say_all (map Freed freed) bus
             in if \<not> emptied then Inr (ctx\<lparr>ctx_services := t\<rparr>, bus)
                else res_bind (modify_slot k (leave_service bus) t) (\<lambda>(bus, t).
                     res_bind (drop_service mem (ctx_array ctx, k) t) (\<lambda>(a, t).
                       Inr (ctx\<lparr>ctx_services := t, ctx_array := a\<rparr>, bus))))))"

section \<open>Releasing the registry\<close>

definition release_interface :: "reg_interface \<Rightarrow> string option list res" where
  "release_interface x =
     res_bind (release_slots (\<lambda>meth. Inr [meth_name meth]) (slots (if_methods x)) 0 (used (if_methods x)))
       (\<lambda>r. Inr (r @ [if_name x]))"

definition release_object :: "reg_object \<Rightarrow> string option list res" where
  "release_object x =
     res_bind (release_slots release_interface (slots (obj_interfaces x)) 0 (used (obj_interfaces x)))
       (\<lambda>r. Inr (r @ [obj_path x]))"

fun release_services :: "service list option \<Rightarrow> nat \<Rightarrow> nat \<Rightarrow> bus \<Rightarrow> bus res" where
  "release_services arr i 0 bus = Inr bus"
| "release_services arr i (Suc n) bus =
     res_bind (arr_get (elems arr) i) (\<lambda>srv.
       let (srv, bus) = service_disconnect srv bus
       in res_bind (release_slots release_object (slots (srv_objects srv)) 0 (used (srv_objects srv)))
            (\<lambda>r. release_services arr (i + 1) n (say_all (map Freed (r @ [srv_name srv])) bus)))"

definition oddjob_dbus_listeners_free :: "registry option \<Rightarrow> bus \<Rightarrow> bus res" where
  "oddjob_dbus_listeners_free ctx bus = (case ctx of
       None \<Rightarrow> Inr bus
     | Some ctx \<Rightarrow> release_services (slots (ctx_services ctx)) 0 (used (ctx_services ctx)) bus)"

section \<open>What a registry offers\<close>

interpretation methods: named_table meth_name zero_method 32 by unfold_locales simp_all
interpretation interfaces: named_table if_name zero_interface 24 by unfold_locales simp_all
interpretation objects: named_table obj_path zero_object 24 by unfold_locales simp_all
interpretation services: named_table srv_name zero_service 40 by unfold_locales simp_all

type_synonym offer = "int \<times> nat option \<times> nat option"

definition offer_of :: "reg_method \<Rightarrow> offer" where
  "offer_of x = (meth_args x, meth_handler x, meth_data x)"

definition interface_offers :: "reg_interface \<Rightarrow> string \<Rightarrow> offer option" where
  "interface_offers x m = map_option offer_of (lookup meth_name (if_methods x) m)"

definition object_offers :: "reg_object \<Rightarrow> string \<Rightarrow> string \<Rightarrow> offer option" where
  "object_offers x i m = Option.bind (lookup if_name (obj_interfaces x) i) (\<lambda>y. interface_offers y m)"

definition service_offers :: "service \<Rightarrow> string \<Rightarrow> string \<Rightarrow> string \<Rightarrow> offer option" where
  "service_offers x p i m = Option.bind (lookup obj_path (srv_objects x) p) (\<lambda>y. object_offers y i m)"

definition offers :: "registry \<Rightarrow> string \<Rightarrow> string \<Rightarrow> string \<Rightarrow> string \<Rightarrow> offer option" where
  "offers ctx s p i m = Option.bind (lookup srv_name (ctx_services ctx) s) (\<lambda>y. service_offers y p i m)"

text \<open>
  A well-formed registry: distinct names at each level, at most \<open>N\<close> entries in each array, and
  no object, interface or service without anything below it.
\<close>

definition interface_pre :: "nat \<Rightarrow> reg_interface \<Rightarrow> bool" where
  "interface_pre N x \<longleftrightarrow> table_wf meth_name (if_methods x) \<and> used (if_methods x) \<le> N"

definition interface_ok :: "nat \<Rightarrow> reg_interface \<Rightarrow> bool" where
  "interface_ok N x \<longleftrightarrow> interface_pre N x \<and> 0 < used (if_methods x)"

definition object_pre :: "nat \<Rightarrow> reg_object \<Rightarrow> bool" where
  "object_pre N x \<longleftrightarrow> table_wf if_name (obj_interfaces x) \<and> used (obj_interfaces x) \<le> N
     \<and> (\<forall>n y. lookup if_name (obj_interfaces x) n = Some y \<longrightarrow> interface_ok N y)"

definition object_ok :: "nat \<Rightarrow> reg_object \<Rightarrow> bool" where
  "object_ok N x \<longleftrightarrow> object_pre N x \<and> 0 < used (obj_interfaces x)"

definition service_pre :: "nat \<Rightarrow> service \<Rightarrow> bool" where
  "service_pre N x \<longleftrightarrow> table_wf obj_path (srv_objects x) \<and> used (srv_objects x) \<le> N
     \<and> (\<forall>n y. lookup obj_path (srv_objects x) n = Some y \<longrightarrow> object_ok N y)"

definition service_ok :: "nat \<Rightarrow> service \<Rightarrow> bool" where
  "service_ok N x \<longleftrightarrow> service_pre N x \<and> 0 < used (srv_objects x)"

definition registry_ok :: "nat \<Rightarrow> registry \<Rightarrow> bool" where
  "registry_ok N ctx \<longleftrightarrow> table_wf srv_name (ctx_services ctx) \<and> used (ctx_services ctx) \<le> N
     \<and> (\<forall>n y. lookup srv_name (ctx_services ctx) n = Some y \<longrightarrow> service_ok N y)"

lemmas pre_defs = interface_pre_def object_pre_def service_pre_def
lemmas ok_defs = interface_ok_def object_ok_def service_ok_def
lemmas offers_defs = interface_offers_def object_offers_def service_offers_def

lemma pre_mono:
  "interface_pre N x \<Longrightarrow> N \<le> M \<Longrightarrow> interface_pre M x"
  "object_pre N y \<Longrightarrow> N \<le> M \<Longrightarrow> object_pre M y"
  "service_pre N z \<Longrightarrow> N \<le> M \<Longrightarrow> service_pre M z"
  by (fastforce simp: pre_defs ok_defs)+

lemma ok_mono:
  "interface_ok N x \<Longrightarrow> N \<le> M \<Longrightarrow> interface_ok M x"
  "object_ok N y \<Longrightarrow> N \<le> M \<Longrightarrow> object_ok M y"
  "service_ok N z \<Longrightarrow> N \<le> M \<Longrightarrow> service_ok M z"
  by (auto simp: ok_defs pre_mono)

text \<open>The strings of a registry, in the order of the array they hang from.\<close>

definition interface_names :: "reg_interface \<Rightarrow> string option list" where
  "interface_names x = map meth_name (entries (if_methods x)) @ [if_name x]"
definition object_names :: "reg_object \<Rightarrow> string option list" where
  "object_names x = concat (map interface_names (entries (obj_interfaces x))) @ [obj_path x]"
definition service_names :: "service \<Rightarrow> string option list" where
  "service_names x = concat (map object_names (entries (srv_objects x))) @ [srv_name x]"

definition table_names :: "service table \<Rightarrow> string option list" where
  "table_names t = concat (map service_names (entries t))"

abbreviation method_owned :: "reg_method \<Rightarrow> string multiset" where
  "method_owned x \<equiv> owned [meth_name x]"
abbreviation interface_owned :: "reg_interface \<Rightarrow> string multiset" where
  "interface_owned x \<equiv> owned (interface_names x)"
abbreviation object_owned :: "reg_object \<Rightarrow> string multiset" where
  "object_owned x \<equiv> owned (object_names x)"
abbreviation service_owned :: "service \<Rightarrow> string multiset" where
  "service_owned x \<equiv> owned (service_names x)"

lemma owned_names:
  "interface_owned x = sum_list (map method_owned (entries (if_methods x))) + owned [if_name x]"
  "object_owned y = sum_list (map interface_owned (entries (obj_interfaces y))) + owned [obj_path y]"
  "service_owned z = sum_list (map object_owned (entries (srv_objects z))) + owned [srv_name z]"
  "owned (table_names t) = sum_list (map service_owned (entries t))"
  by (simp_all only: interface_names_def object_names_def service_names_def table_names_def owned_simps(3) owned_concat
      owned_map [of meth_name] map_map comp_def)

section \<open>Adding refines an update of the offers\<close>

lemma add_to_interface_ok:
  assumes "\<forall>n. mem n" "interface_pre N x" "N < 0xffff" "nul_free m"
  shows "\<exists>cs y. add_to_interface mem m n h d x = Inr (cs, y) \<and> if_name y = if_name x
     \<and> interface_ok (Suc N) y \<and> interface_offers y = (interface_offers x)(m \<mapsto> (n, h, d))
     \<and> interface_owned y = interface_owned x + mset cs"
proof -
  let ?set = "\<lambda>meth. Inr ([], meth\<lparr>meth_args := n, meth_handler := h, meth_data := d\<rparr>)"
  define old where "old = (case lookup meth_name (if_methods x) m of
      None \<Rightarrow> zero_method\<lparr>meth_name := Some m\<rparr> | Some x \<Rightarrow> x)"
  let ?y = "old\<lparr>meth_args := n, meth_handler := h, meth_data := d\<rparr>"
  have "meth_name old = Some m"
    using methods.lookup_Some [of "if_methods x" m] by (simp add: old_def split: option.split)
  then obtain cs t where t: "with_entry mem zero_method 32 meth_name (\<lambda>s. zero_method\<lparr>meth_name := s\<rparr>) m ?set (if_methods x)
      = Inr (cs, t)" "table_wf meth_name t" "lookup meth_name t = (lookup meth_name (if_methods x))(m \<mapsto> ?y)"
    "0 < used t" "used t \<le> Suc (used (if_methods x))"
    "sum_list (map method_owned (entries t)) = sum_list (map method_owned (entries (if_methods x))) + mset cs"
    using methods.with_entry_ok [OF assms(1), of "if_methods x" m "\<lambda>s. zero_method\<lparr>meth_name := s\<rparr>"
        ?set "[]" ?y method_owned] assms(2-4)
    by (auto simp: pre_defs old_def)
  then show ?thesis
    using assms(2)
    by (auto simp: add_to_interface_def interface_offers_def ok_defs pre_defs offer_of_def owned_names(1))
qed

lemma zero_pre [simp]:
  "interface_pre N (zero_interface\<lparr>if_name := a\<rparr>)" "object_pre N (zero_object\<lparr>obj_path := a\<rparr>)"
  "service_pre N (zero_service\<lparr>srv_name := a, srv_conn := c\<rparr>)" "service_pre N (zero_service\<lparr>srv_name := a\<rparr>)"
  by (simp_all add: pre_defs zero_interface_def zero_object_def zero_service_def lookup_def)

lemma zero_offers [simp]:
  "interface_offers (zero_interface\<lparr>if_name := a\<rparr>) = (\<lambda>m. None)"
  "object_offers (zero_object\<lparr>obj_path := a\<rparr>) = (\<lambda>i m. None)"
  "service_offers (zero_service\<lparr>srv_name := a, srv_conn := c\<rparr>) = (\<lambda>p i m. None)"
  "service_offers (zero_service\<lparr>srv_name := a\<rparr>) = (\<lambda>p i m. None)"
  by (simp_all add: offers_defs zero_interface_def zero_object_def zero_service_def lookup_def fun_eq_iff)

lemma fresh_owned:
  "interface_owned (zero_interface\<lparr>if_name := Some n\<rparr>) = {#n#}"
  "object_owned (zero_object\<lparr>obj_path := Some n\<rparr>) = {#n#}"
  "service_owned (zero_service\<lparr>srv_name := Some n\<rparr>) = {#n#}"
  by (simp_all add: interface_names_def object_names_def service_names_def zero_interface_def zero_object_def
      zero_service_def)

lemma add_to_object_ok:
  assumes "\<forall>n. mem n" "object_pre N x" "N < 0xffff" "nul_free i" "nul_free m"
  shows "\<exists>cs y. add_to_object mem i m n h d x = Inr (cs, y) \<and> obj_path y = obj_path x
     \<and> object_ok (Suc N) y \<and> object_offers y = (object_offers x)(i := (object_offers x i)(m \<mapsto> (n, h, d)))
     \<and> object_owned y = object_owned x + mset cs"
proof -
  let ?fresh = "\<lambda>s. zero_interface\<lparr>if_name := s\<rparr>"
  define old where "old = (case lookup if_name (obj_interfaces x) i of None \<Rightarrow> ?fresh (Some i) | Some x \<Rightarrow> x)"
  have old: "interface_pre N old" "interface_offers old = object_offers x i" "if_name old = Some i"
    using assms(2) interfaces.lookup_Some [of "obj_interfaces x" i]
    by (auto simp: old_def object_pre_def interface_ok_def object_offers_def fun_eq_iff split: option.split)
  obtain cs y where y: "add_to_interface mem m n h d old = Inr (cs, y)" "if_name y = Some i"
    "interface_ok (Suc N) y" "interface_offers y = (object_offers x i)(m \<mapsto> (n, h, d))"
    "interface_owned y = interface_owned old + mset cs"
    using add_to_interface_ok [OF assms(1) old(1) assms(3,5), of n h d] old(2,3) by auto
  obtain cs' t where t: "with_entry mem zero_interface 24 if_name ?fresh i (add_to_interface mem m n h d)
      (obj_interfaces x) = Inr (cs', t)" "table_wf if_name t"
    "lookup if_name t = (lookup if_name (obj_interfaces x))(i \<mapsto> y)"
    "0 < used t" "used t \<le> Suc (used (obj_interfaces x))"
    "sum_list (map interface_owned (entries t)) = sum_list (map interface_owned (entries (obj_interfaces x))) + mset cs'"
    using interfaces.with_entry_ok [OF assms(1), of "obj_interfaces x" i ?fresh
        "add_to_interface mem m n h d" cs y interface_owned] assms(2-4) y(1,2,5)
    by (auto simp: object_pre_def old_def fresh_owned)
  have "object_ok (Suc N) (x\<lparr>obj_interfaces := t\<rparr>)"
    using assms(2) t(2-5) y(3) ok_mono(1) by (fastforce simp: object_ok_def object_pre_def)
  moreover have "object_offers (x\<lparr>obj_interfaces := t\<rparr>)
      = (object_offers x)(i := (object_offers x i)(m \<mapsto> (n, h, d)))"
    using t(3) y(4) by (auto simp: object_offers_def fun_eq_iff)
  ultimately show ?thesis using t(1,6) by (simp add: add_to_object_def owned_names(2))
qed

lemma add_to_service_ok:
  assumes "\<forall>n. mem n" "service_pre N x" "N < 0xffff" "nul_free p" "nul_free i" "nul_free m"
  shows "\<exists>cs y. add_to_service mem p i m n h d x = Inr (cs, y) \<and> srv_name y = srv_name x
     \<and> srv_conn y = srv_conn x \<and> service_ok (Suc N) y
     \<and> service_offers y = (service_offers x)(p := (service_offers x p)(i := (service_offers x p i)(m \<mapsto> (n, h, d))))
     \<and> service_owned y = service_owned x + mset cs"
proof -
  let ?fresh = "\<lambda>s. zero_object\<lparr>obj_path := s\<rparr>"
  define old where "old = (case lookup obj_path (srv_objects x) p of None \<Rightarrow> ?fresh (Some p) | Some x \<Rightarrow> x)"
  have old: "object_pre N old" "object_offers old = service_offers x p" "obj_path old = Some p"
    using assms(2) objects.lookup_Some [of "srv_objects x" p]
    by (auto simp: old_def service_pre_def object_ok_def service_offers_def fun_eq_iff split: option.split)
  obtain cs y where y: "add_to_object mem i m n h d old = Inr (cs, y)" "obj_path y = Some p"
    "object_ok (Suc N) y" "object_offers y = (service_offers x p)(i := (service_offers x p i)(m \<mapsto> (n, h, d)))"
    "object_owned y = object_owned old + mset cs"
    using add_to_object_ok [OF assms(1) old(1) assms(3,5,6), of n h d] old(2,3) by auto
  obtain cs' t where t: "with_entry mem zero_object 24 obj_path ?fresh p (add_to_object mem i m n h d)
      (srv_objects x) = Inr (cs', t)" "table_wf obj_path t"
    "lookup obj_path t = (lookup obj_path (srv_objects x))(p \<mapsto> y)"
    "0 < used t" "used t \<le> Suc (used (srv_objects x))"
    "sum_list (map object_owned (entries t)) = sum_list (map object_owned (entries (srv_objects x))) + mset cs'"
    using objects.with_entry_ok [OF assms(1), of "srv_objects x" p ?fresh
        "add_to_object mem i m n h d" cs y object_owned] assms(2-4) y(1,2,5)
    by (auto simp: service_pre_def old_def fresh_owned)
  have "service_ok (Suc N) (x\<lparr>srv_objects := t\<rparr>)"
    using assms(2) t(2-5) y(3) ok_mono(2) by (fastforce simp: service_ok_def service_pre_def)
  moreover have "service_offers (x\<lparr>srv_objects := t\<rparr>)
      = (service_offers x)(p := (service_offers x p)(i := (service_offers x p i)(m \<mapsto> (n, h, d))))"
    using t(3) y(4) by (auto simp: service_offers_def fun_eq_iff)
  ultimately show ?thesis using t(1,6) by (simp add: add_to_service_def owned_names(3))
qed

section \<open>Connections are neither lost nor closed twice\<close>

text \<open>What the events of the log take and give back.\<close>

fun opens :: "bus_event \<Rightarrow> nat option" where
  "opens (Opened c) = Some c"
| "opens _ = None"

fun closes :: "bus_event \<Rightarrow> nat option" where
  "closes (Closed c) = Some c"
| "closes _ = None"

fun attaches :: "bus_event \<Rightarrow> nat option" where
  "attaches (Attached c) = Some c"
| "attaches _ = None"

fun detaches :: "bus_event \<Rightarrow> nat option" where
  "detaches (Detached c) = Some c"
| "detaches _ = None"

fun allocates :: "bus_event \<Rightarrow> string option" where
  "allocates (Copied s) = Some s"
| "allocates _ = None"

fun releases :: "bus_event \<Rightarrow> string option" where
  "releases (Freed p) = p"
| "releases _ = None"

interpretation opened: ledger opens closes
proof
  show "opens e = None \<or> closes e = None" for e by (cases e) simp_all
qed

interpretation attached: ledger attaches detaches
proof
  show "attaches e = None \<or> detaches e = None" for e by (cases e) simp_all
qed

interpretation copied: ledger allocates releases
proof
  show "allocates e = None \<or> releases e = None" for e by (cases e) simp_all
qed

lemma more_opened: "A \<subseteq># B \<Longrightarrow> A \<subseteq># add_mset c B"
  by (metis add_mset_add_single subset_mset.trans mset_subset_eq_add_left)

text \<open>
  The connections \<open>L\<close> are open and attached to the main loop, and no others; none was ever closed or
  detached that was not open or attached.
\<close>

definition balanced :: "bus_event list \<Rightarrow> nat multiset \<Rightarrow> bool" where
  "balanced lg L \<longleftrightarrow> held opens closes lg = Some L \<and> held attaches detaches lg = Some L
     \<and> tally attaches lg \<subseteq># tally opens lg"

lemma balanced_tally: "balanced lg L \<Longrightarrow> tally opens lg = tally closes lg + L \<and> tally attaches lg = tally detaches lg + L"
  by (simp add: balanced_def opened.conservation attached.conservation)

text \<open>
  The names a registry holds, and those that were lost, are those that were copied and not released; no
  name was released that was not held.
\<close>

definition accounted :: "bus_event list \<Rightarrow> service table \<Rightarrow> string multiset \<Rightarrow> bool" where
  "accounted lg t lost \<longleftrightarrow> held allocates releases lg = Some (owned (table_names t) + lost)"

lemma balanced_neutral:
  assumes "list_all (\<lambda>e. opens e = None \<and> closes e = None \<and> attaches e = None \<and> detaches e = None) es"
  shows "balanced (lg @ es) L = balanced lg L"
proof -
  have "held opens closes (lg @ es) = held opens closes lg" "held attaches detaches (lg @ es) = held attaches detaches lg"
    using assms by (auto intro!: opened.neutral attached.neutral simp: list_all_iff)
  moreover have "tally attaches es = {#}" "tally opens es = {#}"
    using assms by (auto intro!: tally_none simp: list_all_iff)
  ultimately show ?thesis by (simp add: balanced_def)
qed

lemma balanced_say [simp]:
  "balanced (bus_log (say_all (map Copied cs) bus)) L = balanced (bus_log bus) L"
  "balanced (bus_log (say_all (map Freed ps) bus)) L = balanced (bus_log bus) L"
  "balanced (bus_log (say (Copied s) bus)) L = balanced (bus_log bus) L"
  "balanced (bus_log (say (Freed q) bus)) L = balanced (bus_log bus) L"
  by (simp_all add: say_all_def say_def balanced_neutral list_all_iff)

lemma held_copied:
  assumes "held allocates releases lg = Some H"
  shows "held allocates releases (lg @ map Copied cs) = Some (H + mset cs)"
proof -
  have "tally allocates (map Copied cs) = mset cs" by (induction cs) simp_all
  then show ?thesis using copied.taking [OF assms, of "map Copied cs"] by (simp add: list_all_iff)
qed

lemma held_freed:
  assumes "held allocates releases lg = Some (H + owned ps)"
  shows "held allocates releases (lg @ map Freed ps) = Some H"
proof -
  have "tally releases (map Freed ps) = owned ps" by (induction ps) (auto split: option.split)
  then show ?thesis using copied.giving [of lg H "map Freed ps"] assms by (simp add: list_all_iff)
qed

definition conn_of :: "service \<Rightarrow> nat multiset" where
  "conn_of srv = (case srv_conn srv of None \<Rightarrow> {#} | Some c \<Rightarrow> {#c#})"

definition live :: "service table \<Rightarrow> nat multiset" where
  "live t = sum_list (map conn_of (entries t))"

lemma connect_loop_balance:
  "connect_loop ctx a as lg = Inr (c, as', lg') \<Longrightarrow> balanced lg L \<Longrightarrow>
   held opens closes lg' = Some (add_mset c L) \<and> held attaches detaches lg' = Some L
     \<and> add_mset c (tally attaches lg') \<subseteq># tally opens lg'"
  by (induction ctx a as lg arbitrary: c as' lg' rule: connect_loop.induct)
     (auto simp: balanced_def held_append more_opened split: if_splits)

lemma service_connect_balance:
  assumes "service_connect ctx srv bus = Inr (ok, srv', bus')" "balanced (bus_log bus) L" "srv_conn srv = None"
  shows "balanced (bus_log bus') (L + conn_of srv')"
proof -
  obtain c as lg where c: "connect_loop ctx 0 (bus_answers bus) (bus_log bus) = Inr (c, as, lg)"
    using assms(1) by (auto simp: service_connect_def res_simps)
  then show ?thesis
    using connect_loop_balance [OF c assms(2)] assms(1,3)
    by (auto simp: service_connect_def Let_def say_def balanced_def conn_of_def held_append
        split: if_splits dest: mset_subset_eq_insertD)
qed

lemma service_disconnect_balance:
  assumes "service_disconnect srv bus = (srv', bus')" "balanced (bus_log bus) (L + conn_of srv)"
  shows "balanced (bus_log bus') L \<and> srv' = srv\<lparr>srv_conn := None\<rparr>"
  using assms
  by (cases srv) (auto simp: service_disconnect_def say_def balanced_def conn_of_def held_append
      split: option.splits)

lemma connect_loop_names:
  "connect_loop ctx a as lg = Inr (c, as', lg') \<Longrightarrow> held allocates releases lg' = held allocates releases lg"
  by (induction ctx a as lg arbitrary: c as' lg' rule: connect_loop.induct)
     (auto simp: held_append split: if_splits)

lemma service_connect_names:
  assumes "service_connect ctx srv bus = Inr (ok, srv', bus')"
  shows "held allocates releases (bus_log bus') = held allocates releases (bus_log bus)"
proof -
  obtain c as lg where "connect_loop ctx 0 (bus_answers bus) (bus_log bus) = Inr (c, as, lg)"
    using assms by (auto simp: service_connect_def res_simps)
  with connect_loop_names [OF this] assms show ?thesis
    by (auto simp: service_connect_def Let_def say_def held_append split: if_splits)
qed

lemma service_disconnect_names:
  "service_disconnect srv bus = (srv', bus') \<Longrightarrow> held allocates releases (bus_log bus') = held allocates releases (bus_log bus)"
  by (auto simp: service_disconnect_def say_def held_append split: option.splits)

lemma service_connect_service:
  "service_connect ctx srv bus = Inr (ok, srv', bus') \<Longrightarrow>
   (if ok then \<exists>c. srv' = srv\<lparr>srv_conn := Some c\<rparr> else srv' = srv)"
  by (auto simp: service_connect_def Let_def res_simps split: if_splits)

text \<open>The first connection of the answers that is up.\<close>

fun first_up :: "conn_answer list \<Rightarrow> nat option" where
  "first_up [] = None"
| "first_up (No_conn # as) = first_up as"
| "first_up (Conn c up # as) = (if up then Some c else first_up as)"

text \<open>
  The first connection that is up among the answers an \<open>int\<close> can count; without one the loop goes
  on for ever or the count of the attempts overflows.
\<close>

definition reached :: "bus \<Rightarrow> nat option" where
  "reached bus = first_up (take (2 ^ 31) (bus_answers bus))"

definition unreached :: "fault \<Rightarrow> bool" where
  "unreached e \<longleftrightarrow> e = Diverges \<or> e = Int_overflow"

definition can_connect :: "bus \<Rightarrow> string \<Rightarrow> bool" where
  "can_connect bus s \<longleftrightarrow> (case reached bus of
     None \<Rightarrow> False | Some c \<Rightarrow> bus_filter_ok bus c \<and> bus_request_name bus c (Some s) = PRIMARY_OWNER)"

lemma connect_loop_first_up:
  "a < 2 ^ 31 \<Longrightarrow> (case first_up (take (2 ^ 31 - a) as) of
      None \<Rightarrow> \<exists>e. connect_loop ctx a as lg = Inl e \<and> unreached e
    | Some c \<Rightarrow> \<exists>as' lg'. connect_loop ctx a as lg = Inr (c, as', lg'))"
proof (induction as arbitrary: a lg)
  case (Cons x as)
  have t: "take (2 ^ 31 - a) (x # as) = x # take (2 ^ 31 - Suc a) as"
    using Cons.prems by (simp add: take_Cons')
  show ?case
  proof (cases "int a = INT_MAX")
    case True
    then have "2 ^ 31 - Suc a = 0" by (simp add: INT_MAX_def)
    then show ?thesis using True unfolding t by (cases x) (auto simp: unreached_def)
  next
    case False
    then have "Suc a < 2 ^ 31" using Cons.prems by (simp add: INT_MAX_def)
    from Cons.IH [OF this] show ?thesis using False unfolding t by (cases x) (auto split: option.splits)
  qed
qed (simp add: unreached_def)

lemma service_connect_result:
  assumes "srv_name srv = Some s"
  shows "(case service_connect ctx srv bus of
      Inl e \<Rightarrow> unreached e \<and> reached bus = None
    | Inr (ok, srv', bus') \<Rightarrow> reached bus \<noteq> None \<and> (ok \<longleftrightarrow> can_connect bus s))"
proof (cases "reached bus")
  case None
  then obtain e where "connect_loop ctx 0 (bus_answers bus) (bus_log bus) = Inl e" "unreached e"
    using connect_loop_first_up [where a = 0 and as = "bus_answers bus" and ctx = ctx and lg = "bus_log bus"] by (auto simp: reached_def)
  with None show ?thesis by (simp add: service_connect_def)
next
  case (Some c)
  then obtain as lg where "connect_loop ctx 0 (bus_answers bus) (bus_log bus) = Inr (c, as, lg)"
    using connect_loop_first_up [where a = 0 and as = "bus_answers bus" and ctx = ctx and lg = "bus_log bus"] by (auto simp: reached_def)
  with Some assms show ?thesis
    by (simp add: service_connect_def can_connect_def say_def Let_def)
qed

lemma service_connect_unreached: "service_connect ctx srv bus = Inl e \<Longrightarrow> unreached e"
  using connect_loop_first_up [where a = 0 and as = "bus_answers bus" and ctx = ctx and lg = "bus_log bus"]
  by (auto simp: service_connect_def res_simps Let_def split: option.splits if_splits)

text \<open>The seconds slept, one for each attempt that failed: fast ones first, then the timeout.\<close>

fun seconds :: "bus_event \<Rightarrow> int option" where
  "seconds (Slept t) = Some t"
| "seconds _ = None"

definition slept :: "bus_event list \<Rightarrow> int list" where
  "slept lg = List.map_filter seconds lg"

definition pauses :: "int \<Rightarrow> nat \<Rightarrow> int list" where
  "pauses timeout k = replicate (min k 10) (if timeout > 5 then 5 else timeout mod 2 ^ 32)
     @ replicate (k - 10) (timeout mod 2 ^ 32)"

fun is_up :: "conn_answer \<Rightarrow> bool" where
  "is_up No_conn = False"
| "is_up (Conn c up) = up"

lemma slept_simps [simp]:
  "slept [] = []" "slept (e # lg) = (case seconds e of None \<Rightarrow> slept lg | Some t \<Rightarrow> t # slept lg)"
  "slept (lg @ lg') = slept lg @ slept lg'"
  by (simp_all add: slept_def map_filter_simps split: option.split) (simp add: map_filter_def)

lemma pauses_less: "pauses timeout (Suc k) = pauses timeout k @ [if k < 10 \<and> timeout > 5 then 5 else timeout mod 2 ^ 32]"
proof (cases "k < 10")
  case True
  then show ?thesis by (simp add: pauses_def replicate_append_same)
next
  case False
  then have "Suc k - 10 = Suc (k - 10)" "min k 10 = 10" "min (Suc k) 10 = 10" by simp_all
  with False show ?thesis by (simp add: pauses_def replicate_append_same del: replicate_Suc flip: replicate_Suc)
qed

lemma connect_loop_waits:
  "list_all (\<lambda>a. \<not> is_up a) tries \<Longrightarrow> k + length tries < 2 ^ 31 \<Longrightarrow> slept lg = before @ pauses (ctx_timeout ctx) k \<Longrightarrow>
   \<exists>lg'. connect_loop ctx k (tries @ Conn c True # rest) lg = Inr (c, rest, lg')
     \<and> slept lg' = before @ pauses (ctx_timeout ctx) (k + length tries)"
proof (induction tries arbitrary: k lg)
  case (Cons a tries)
  have count: "int k \<noteq> INT_MAX" using Cons.prems(2) by (simp add: INT_MAX_def)
  have pause: "connect_pause ctx k = (if k < 10 \<and> ctx_timeout ctx > 5 then 5 else ctx_timeout ctx mod 2 ^ 32)"
    by (simp add: connect_pause_def FAST_RECONNECT_ATTEMPTS_def FAST_RECONNECT_TIMEOUT_def)
  show ?case
  proof (cases a)
    case No_conn
    then show ?thesis
      using Cons.IH [of "Suc k" "lg @ [Slept (connect_pause ctx k)]"] Cons.prems by (simp add: pause pauses_less count)
  next
    case (Conn d up)
    then show ?thesis
      using Cons.IH [of "Suc k" "lg @ [Opened d, Closed d, Slept (connect_pause ctx k)]"] Cons.prems
      by (simp add: pause pauses_less count)
  qed
qed simp

text \<open>
  C34. When the bus becomes reachable after any number of failed attempts that an int can
  count, service_connect stops trying: it returns TRUE with that connection, attached to the
  main loop, exactly if the filter can be added and the bus makes it the primary owner of the
  name, and otherwise closes it and returns FALSE; before it, each failed attempt is followed
  by one pause, five seconds for the first ten when the timeout is longer than that, and the
  timeout as an unsigned number otherwise.
\<close>

theorem connect_keeps_trying:
  assumes "bus_answers bus = tries @ Conn c True # rest" "list_all (\<lambda>a. \<not> is_up a) tries" "length tries < 2 ^ 31"
  shows "\<exists>ok bus'. service_connect ctx srv bus = Inr (ok, (if ok then srv\<lparr>srv_conn := Some c\<rparr> else srv), bus')
    \<and> (ok \<longleftrightarrow> bus_filter_ok bus c \<and> bus_request_name bus c (srv_name srv) = PRIMARY_OWNER)
    \<and> last (bus_log bus') = (if ok then Attached c else Closed c)
    \<and> bus_answers bus' = rest \<and> slept (bus_log bus') = slept (bus_log bus) @ pauses (ctx_timeout ctx) (length tries)"
proof -
  have "pauses (ctx_timeout ctx) 0 = []" by (simp add: pauses_def)
  then obtain lg where "connect_loop ctx 0 (bus_answers bus) (bus_log bus) = Inr (c, rest, lg)"
    "slept lg = slept (bus_log bus) @ pauses (ctx_timeout ctx) (length tries)"
    using connect_loop_waits [OF assms(2), of 0 "bus_log bus" "slept (bus_log bus)" ctx c rest] assms(1,3) by auto
  then show ?thesis
    by (cases "bus_filter_ok bus c"; cases "bus_request_name bus c (srv_name srv) = PRIMARY_OWNER")
      (auto simp: service_connect_def say_def)
qed

lemma live_append: "entries t' = entries t @ [x] \<Longrightarrow> live t' = live t + conn_of x"
  by (simp add: live_def)

lemma live_split:
  assumes "table_wf srv_name t" "i < used t"
  obtains L where "live t = L + conn_of (entries t ! i)"
    "\<And>t' y. entries t' = (entries t)[i := y] \<Longrightarrow> live t' = L + conn_of y"
    "\<And>t'. entries t' = take i (entries t) @ drop (Suc i) (entries t) \<Longrightarrow> live t' = L"
proof -
  have "i < length (entries t)" using assms by (simp add: used_entries)
  then show ?thesis by (rule entries_sum [where g = conn_of]) (rule that [unfolded live_def])
qed

section \<open>Adding a method\<close>

lemma add_at_service:
  assumes "\<forall>n. mem n" "table_wf srv_name t" "k < used t" "srv_name (entries t ! k) = Some s"
    "service_pre N (entries t ! k)" "N < 0xffff" "nul_free p" "nul_free i" "nul_free m"
  shows "\<exists>cs t' y. modify_slot k (add_to_service mem p i m n h d) t = Inr (cs, t')
    \<and> table_wf srv_name t' \<and> used t' = used t \<and> lookup srv_name t' = (lookup srv_name t)(s \<mapsto> y)
    \<and> service_ok (Suc N) y \<and> live t' = live t
    \<and> service_offers y = (service_offers (entries t ! k))(p := (service_offers (entries t ! k) p)
         (i := (service_offers (entries t ! k) p i)(m \<mapsto> (n, h, d))))
    \<and> owned (table_names t') = owned (table_names t) + mset cs"
proof -
  obtain cs y where y: "add_to_service mem p i m n h d (entries t ! k) = Inr (cs, y)"
    "srv_name y = srv_name (entries t ! k)" "srv_conn y = srv_conn (entries t ! k)" "service_ok (Suc N) y"
    "service_offers y = (service_offers (entries t ! k))(p := (service_offers (entries t ! k) p)
         (i := (service_offers (entries t ! k) p i)(m \<mapsto> (n, h, d))))"
    "service_owned y = service_owned (entries t ! k) + mset cs"
    using add_to_service_ok [OF assms(1,5,6,7,8,9), of n h d] by blast
  obtain t' where t': "modify_slot k (add_to_service mem p i m n h d) t = Inr (cs, t')"
    "table_wf srv_name t'" "used t' = used t" "entries t' = (entries t)[k := y]"
    using services.modify_slot_ok [where f = "add_to_service mem p i m n h d", OF assms(2,3) y(1,2)] by blast
  have "lookup srv_name t' = (lookup srv_name t)(s \<mapsto> y)"
    using services.lookup_update [OF assms(2) t'(2) assms(3) t'(4)] assms(4) y(2) by simp
  moreover have "live t' = live t"
    using live_split [OF assms(2,3)] t'(4) y(3) by (metis conn_of_def)
  moreover have "k < length (entries t)" using assms(2,3) used_entries [of srv_name t] by simp
  then have "owned (table_names t') = owned (table_names t) + mset cs"
    unfolding owned_names(4) using t'(4) y(6) by (rule entries_sum_grow)
  ultimately show ?thesis using t'(1-3) y(4,5) by blast
qed

lemma enter_service_present:
  assumes "registry_ok N ctx" "lookup srv_name (ctx_services ctx) s = Some x"
  shows "\<exists>k < used (ctx_services ctx). enter_service mem ctx s bus = Inr (True, k, (ctx_array ctx, ctx_services ctx), bus)
    \<and> srv_name (entries (ctx_services ctx) ! k) = Some s \<and> entries (ctx_services ctx) ! k = x"
proof -
  have "table_wf srv_name (ctx_services ctx)" using assms(1) by (simp add: registry_ok_def)
  then show ?thesis
    by (rule services.find_named_cases [of _ s]) (use assms(2) in \<open>auto simp: enter_service_def\<close>)
qed

lemma enter_service_absent:
  assumes "\<forall>n. mem n" "registry_ok N ctx" "N < 0xffff" "nul_free s"
    "lookup srv_name (ctx_services ctx) s = None" "balanced (bus_log bus) (live (ctx_services ctx))"
  shows "(case enter_service mem ctx s bus of
      Inl e \<Rightarrow> unreached e \<and> reached bus = None
    | Inr (ok, k, (a, t), bus') \<Rightarrow> reached bus \<noteq> None \<and> (ok \<longleftrightarrow> can_connect bus s)
        \<and> table_wf srv_name t \<and> used t \<le> Suc N \<and> balanced (bus_log bus') (live t)
        \<and> (if ok then k < used t \<and> srv_name (entries t ! k) = Some s \<and> service_pre N (entries t ! k)
             \<and> service_offers (entries t ! k) = (\<lambda>p i m. None)
             \<and> lookup srv_name t = (lookup srv_name (ctx_services ctx))(s \<mapsto> entries t ! k)
           else lookup srv_name t = lookup srv_name (ctx_services ctx))
        \<and> (\<forall>lost. accounted (bus_log bus) (ctx_services ctx) lost
             \<longrightarrow> accounted (bus_log bus') t (if ok then lost else add_mset s lost)))"
proof -
  let ?t = "ctx_services ctx" and ?x = "zero_service\<lparr>srv_name := Some s\<rparr>" and ?bus = "say (Copied s) bus"
  let ?es = "entries ?t" and ?n = "used ?t"
  have wf: "table_wf srv_name ?t" "?n \<le> N" "length ?es = ?n"
    using assms(2) used_entries [of srv_name ?t] by (simp_all add: registry_ok_def)
  have f: "find_named srv_name s ?t = Inr ?n"
    using wf(1) by (rule services.find_named_cases [of _ s]) (use assms(5) in auto)
  have eq: "enter_service mem ctx s bus = (case service_connect ctx ?x ?bus of
      Inl e \<Rightarrow> Inl e
    | Inr (ok, srv, bus') \<Rightarrow>
        Inr (ok, ?n, (ctx_array ctx + 1, if ok then ?t\<lparr>slots := Some (?es @ [srv]), used := ?n + 1\<rparr>
                     else ?t\<lparr>slots := Some (?es @ [srv])\<rparr>), bus'))"
  proof -
    have d: "dup_str mem s = Inr s" using assms(1,4) by (simp add: dup_str_eq)
    have g: "grow_slot mem zero_service 40 ?x ?t = Inr (?t\<lparr>slots := Some (?es @ [?x])\<rparr>)"
      using services.grow_slot_ok [OF assms(1) wf(1), of ?x] wf(2) assms(3) by simp
    have u: "(?es @ [?x])[?n := y] = ?es @ [y]" for y
      unfolding wf(3) [symmetric] by (rule list_update_length)
    show ?thesis
      unfolding enter_service_def Let_def using wf(3)
      by (simp add: f d g u modify_slot_def arr_get_def arr_set_def nth_append split: sum.split)
  qed
  have same: "can_connect ?bus s = can_connect bus s" "reached ?bus = reached bus"
    by (simp_all add: can_connect_def reached_def split: option.split)
  have r: "(case service_connect ctx ?x ?bus of
      Inl e \<Rightarrow> unreached e \<and> reached bus = None
    | Inr (ok, srv', bus') \<Rightarrow> reached bus \<noteq> None \<and> (ok \<longleftrightarrow> can_connect bus s))"
    using service_connect_result [where srv = ?x and s = s and ctx = ctx and bus = ?bus]
    unfolding same by simp
  show ?thesis
  proof (cases "service_connect ctx ?x ?bus")
    case (Inl e)
    with r eq show ?thesis by simp
  next
    case (Inr z)
    then obtain ok x bus' where z: "service_connect ctx ?x ?bus = Inr (ok, x, bus')" by (cases z) auto
    have names: "held allocates releases (bus_log bus') = Some (owned (table_names ?t) + lost + {#s#})"
      if "accounted (bus_log bus) ?t lost" for lost
      using that held_copied [of "bus_log bus" _ "[s]"] service_connect_names [OF z] by (simp add: accounted_def say_def)
    have bal: "balanced (bus_log bus') (live ?t + conn_of x)"
      using service_connect_balance [OF z, of "live ?t"] assms(6) by (simp add: zero_service_def)
    have x: "if ok then \<exists>c. x = ?x\<lparr>srv_conn := Some c\<rparr> else x = ?x"
      using service_connect_service [OF z] .
    show ?thesis
    proof (cases ok)
      case False
      let ?t' = "?t\<lparr>slots := Some (?es @ [x])\<rparr>"
      have e: "entries ?t' = ?es" using wf(3) by (simp add: entries_def)
      then have "lookup srv_name ?t' = lookup srv_name ?t" "live ?t' = live ?t" "table_wf srv_name ?t'"
        using wf by (simp_all add: lookup_def live_def table_wf_def fun_eq_iff)
      moreover have "conn_of x = {#}" using x False by (simp add: conn_of_def zero_service_def)
      moreover have "table_names ?t' = table_names ?t" using e by (simp add: table_names_def)
      ultimately show ?thesis using False r eq z bal wf names by (simp add: accounted_def)
    next
      case True
      let ?t' = "?t\<lparr>slots := Some (?es @ [x]), used := ?n + 1\<rparr>"
      have e: "entries ?t' = ?es @ [x]" using wf(3) by (simp add: entries_def)
      have name: "srv_name x = Some s" and pre: "service_pre N x" "service_offers x = (\<lambda>p i m. None)"
        using x True by auto
      have wf': "table_wf srv_name ?t'"
        using wf assms(3,5) name e by (auto simp: table_wf_def services.lookup_None)
      have "lookup srv_name ?t' = (lookup srv_name ?t)(s \<mapsto> x)"
        using services.lookup_append [OF wf(1) wf' e name assms(5)] .
      moreover have "live ?t' = live ?t + conn_of x" using e by (rule live_append)
      moreover have "entries ?t' ! ?n = x" using e wf(3) by (simp add: nth_append)
      moreover have "service_owned x = {#s#}"
        using x True by (auto simp: service_names_def zero_service_def)
      then have "owned (table_names ?t') = owned (table_names ?t) + {#s#}" using e by (simp add: owned_names(4))
      ultimately show ?thesis using True r eq z bal wf wf' name pre names by (simp add: accounted_def)
    qed
  qed
qed

text \<open>The second half of the operation, once the service is entered at \<open>k\<close>.\<close>

lemma add_after_enter:
  assumes "\<forall>n. mem n" "N < 0xffff" "nul_free p" "nul_free i" "nul_free m" "registry_ok N ctx"
    and "enter_service mem ctx s bus = Inr (True, k, (a, t), bus')"
    and "table_wf srv_name t" "used t \<le> Suc N" "k < used t" "srv_name (entries t ! k) = Some s"
    and "service_pre N (entries t ! k)" "service_offers (entries t ! k) = offers ctx s"
    and "\<forall>s'. s' \<noteq> s \<longrightarrow> lookup srv_name t s' = lookup srv_name (ctx_services ctx) s'"
    and "balanced (bus_log bus') (live t)"
  shows "\<exists>ctx' bus''. oddjob_dbus_listeners_add_method mem ctx s p i m n h d bus = Inr (True, ctx', bus'')
    \<and> registry_ok (Suc N) ctx' \<and> balanced (bus_log bus'') (live (ctx_services ctx'))
    \<and> (\<forall>s' p' i' m'. offers ctx' s' p' i' m'
             = (if (s', p', i', m') = (s, p, i, m) then Some (n, h, d) else offers ctx s' p' i' m'))
    \<and> (\<forall>lost. accounted (bus_log bus') t lost \<longrightarrow> accounted (bus_log bus'') (ctx_services ctx') lost)"
proof -
  obtain cs t' y where t': "modify_slot k (add_to_service mem p i m n h d) t = Inr (cs, t')"
    "table_wf srv_name t'" "used t' = used t" "lookup srv_name t' = (lookup srv_name t)(s \<mapsto> y)"
    "service_ok (Suc N) y" "live t' = live t"
    "service_offers y = (offers ctx s)(p := (offers ctx s p)(i := (offers ctx s p i)(m \<mapsto> (n, h, d))))"
    "owned (table_names t') = owned (table_names t) + mset cs"
    using add_at_service [OF assms(1,8,10,11,12,2-5), of n h d] assms(13) by auto
  let ?c = "ctx\<lparr>ctx_services := t', ctx_array := a\<rparr>"
  have "service_ok (Suc N) z" if "lookup srv_name (ctx_services ctx) a = Some z" for a z
    using assms(6) that ok_mono(3) [of N z "Suc N"] by (auto simp: registry_ok_def)
  then have "registry_ok (Suc N) ?c"
    using t'(2-5) assms(9,14) by (auto simp: registry_ok_def)
  moreover have "offers ?c = (offers ctx)(s := service_offers y)"
    using t'(4) assms(14) by (auto simp: offers_def fun_eq_iff)
  moreover have "accounted (bus_log (say_all (map Copied cs) bus')) t' lost" if "accounted (bus_log bus') t lost" for lost
    using that held_copied [of "bus_log bus'" _ cs] t'(8) by (simp add: accounted_def say_all_def ac_simps)
  ultimately show ?thesis
    using assms(7,15) t'(1,6,7)
    by (intro exI [of _ ?c] exI [of _ "say_all (map Copied cs) bus'"]) (auto simp: oddjob_dbus_listeners_add_method_def)
qed

lemma add_method_ok:
  assumes "\<forall>n. mem n" "registry_ok N ctx" "N < 0xffff" "nul_free s" "nul_free p" "nul_free i" "nul_free m"
    and "balanced (bus_log bus) (live (ctx_services ctx))"
  shows "(case oddjob_dbus_listeners_add_method mem ctx s p i m n h d bus of
      Inl e \<Rightarrow> unreached e \<and> lookup srv_name (ctx_services ctx) s = None \<and> reached bus = None
    | Inr (ok, ctx', bus') \<Rightarrow>
        registry_ok (Suc N) ctx' \<and> balanced (bus_log bus') (live (ctx_services ctx'))
        \<and> (ok \<longleftrightarrow> lookup srv_name (ctx_services ctx) s \<noteq> None \<or> can_connect bus s)
        \<and> (\<forall>s' p' i' m'. offers ctx' s' p' i' m'
             = (if ok \<and> (s', p', i', m') = (s, p, i, m) then Some (n, h, d) else offers ctx s' p' i' m'))
        \<and> (\<forall>lost. accounted (bus_log bus) (ctx_services ctx) lost
             \<longrightarrow> accounted (bus_log bus') (ctx_services ctx') (if ok then lost else add_mset s lost)))"
proof (cases "lookup srv_name (ctx_services ctx) s")
  case (Some x)
  let ?t = "ctx_services ctx"
  obtain k where k: "k < used ?t" "enter_service mem ctx s bus = Inr (True, k, (ctx_array ctx, ?t), bus)"
    "srv_name (entries ?t ! k) = Some s" "entries ?t ! k = x"
    using enter_service_present [OF assms(2) Some, of mem bus] by blast
  have "table_wf srv_name ?t" "used ?t \<le> Suc N" "service_pre N x" "service_offers x = offers ctx s"
    using assms(2) Some by (auto simp: registry_ok_def service_ok_def offers_def fun_eq_iff)
  with k Some assms show ?thesis
    using add_after_enter [OF assms(1,3,5-7,2) k(2), of n h d] by auto
next
  case None
  note r = enter_service_absent [OF assms(1-4) None assms(8)]
  show ?thesis
  proof (cases "enter_service mem ctx s bus")
    case (Inl e)
    with r None show ?thesis by (simp add: oddjob_dbus_listeners_add_method_def)
  next
    case (Inr z)
    then obtain ok k a t bus' where z: "enter_service mem ctx s bus = Inr (ok, k, (a, t), bus')" by (cases z) auto
    show ?thesis
    proof (cases ok)
      case False
      moreover have "service_ok (Suc N) z" if "lookup srv_name (ctx_services ctx) a = Some z" for a z
        using assms(2) that ok_mono(3) [of N z "Suc N"] by (auto simp: registry_ok_def)
      ultimately show ?thesis
        using r z None by (auto simp: oddjob_dbus_listeners_add_method_def registry_ok_def offers_def)
    next
      case True
      have "offers ctx s = (\<lambda>p i m. None)" using None by (simp add: offers_def fun_eq_iff)
      moreover have z': "enter_service mem ctx s bus = Inr (True, k, (a, t), bus')" using z True by simp
      ultimately show ?thesis
        using r None add_after_enter [OF assms(1,3,5-7,2) z', of n h d] by auto
    qed
  qed
qed

text \<open>
  C9. Adding a method to a well-formed registry updates the finite map of offers at that one
  name and nowhere else, keeps the registry well formed and its connections balanced with the
  bus, and accounts for every name copied; it returns FALSE exactly if the service is new and
  cannot be connected, and then changes no offer and loses the copy of the name; it only fails
  to return if none of the answers that an int can count is a connection that is up.
\<close>

theorem add_method_refines:
  assumes "\<forall>n. mem n" "registry_ok N ctx" "N < 0xffff" "nul_free s" "nul_free p" "nul_free i" "nul_free m"
    and "balanced (bus_log bus) (live (ctx_services ctx))"
  shows "(case oddjob_dbus_listeners_add_method mem ctx s p i m n h d bus of
      Inl e \<Rightarrow> unreached e \<and> lookup srv_name (ctx_services ctx) s = None \<and> reached bus = None
    | Inr (ok, ctx', bus') \<Rightarrow>
        registry_ok (Suc N) ctx' \<and> balanced (bus_log bus') (live (ctx_services ctx'))
        \<and> (ok \<longleftrightarrow> lookup srv_name (ctx_services ctx) s \<noteq> None \<or> can_connect bus s)
        \<and> (\<forall>s' p' i' m'. offers ctx' s' p' i' m'
             = (if ok \<and> (s', p', i', m') = (s, p, i, m) then Some (n, h, d) else offers ctx s' p' i' m'))
        \<and> (\<forall>lost. accounted (bus_log bus) (ctx_services ctx) lost
             \<longrightarrow> accounted (bus_log bus') (ctx_services ctx') (if ok then lost else add_mset s lost)))"
  by (rule add_method_ok [OF assms])

section \<open>Removing refines the removal of an offer\<close>

lemma interface_offers_empty:
  "interface_pre N x \<Longrightarrow> interface_offers x = (\<lambda>m. None) \<longleftrightarrow> used (if_methods x) = 0"
  using methods.lookup_empty [of "if_methods x"]
  by (auto simp: interface_pre_def interface_offers_def fun_eq_iff)

lemma object_offers_empty:
  "object_pre N x \<Longrightarrow> object_offers x = (\<lambda>i m. None) \<longleftrightarrow> used (obj_interfaces x) = 0"
proof
  assume pre: "object_pre N x" and none: "object_offers x = (\<lambda>i m. None)"
  have "lookup if_name (obj_interfaces x) i = None" for i
  proof (rule ccontr)
    assume "lookup if_name (obj_interfaces x) i \<noteq> None"
    then obtain y where y: "lookup if_name (obj_interfaces x) i = Some y" by blast
    then have "interface_ok N y" using pre by (simp add: object_pre_def)
    then have "interface_offers y \<noteq> (\<lambda>m. None)" using interface_offers_empty by (auto simp: interface_ok_def)
    moreover have "interface_offers y = object_offers x i" using y by (simp add: object_offers_def fun_eq_iff)
    ultimately show False using none by simp
  qed
  then show "used (obj_interfaces x) = 0"
    using interfaces.lookup_empty [of "obj_interfaces x"] pre by (auto simp: object_pre_def fun_eq_iff)
qed (auto simp: object_pre_def object_offers_def fun_eq_iff interfaces.lookup_empty)

lemma service_offers_empty:
  "service_pre N x \<Longrightarrow> service_offers x = (\<lambda>p i m. None) \<longleftrightarrow> used (srv_objects x) = 0"
proof
  assume pre: "service_pre N x" and none: "service_offers x = (\<lambda>p i m. None)"
  have "lookup obj_path (srv_objects x) p = None" for p
  proof (rule ccontr)
    assume "lookup obj_path (srv_objects x) p \<noteq> None"
    then obtain y where y: "lookup obj_path (srv_objects x) p = Some y" by blast
    then have "object_ok N y" using pre by (simp add: service_pre_def)
    then have "object_offers y \<noteq> (\<lambda>i m. None)" using object_offers_empty by (auto simp: object_ok_def)
    moreover have "object_offers y = service_offers x p" using y by (simp add: service_offers_def fun_eq_iff)
    ultimately show False using none by simp
  qed
  then show "used (srv_objects x) = 0"
    using objects.lookup_empty [of "srv_objects x"] pre by (auto simp: service_pre_def fun_eq_iff)
qed (auto simp: service_pre_def service_offers_def fun_eq_iff objects.lookup_empty)

lemma remove_from_interface_ok:
  assumes "\<forall>n. mem n" "interface_ok N x"
  shows "\<exists>b rel y. remove_from_interface mem m x = Inr ((b, rel), y) \<and> if_name y = if_name x \<and> interface_pre N y
    \<and> interface_offers y = (interface_offers x)(m := None) \<and> (b \<longleftrightarrow> used (if_methods y) = 0)
    \<and> interface_owned x = interface_owned y + owned rel"
proof (cases "lookup meth_name (if_methods x) m")
  case None
  then have "interface_offers x = (interface_offers x)(m := None)" by (simp add: interface_offers_def fun_eq_iff)
  with None show ?thesis
    using assms(2) methods.remove_level_absent [OF _ None]
    by (auto simp: remove_from_interface_def ok_defs pre_defs)
next
  case (Some z)
  let ?clear = "\<lambda>meth. Inr ((True, []), meth\<lparr>meth_args := 0, meth_handler := None, meth_data := None\<rparr>)"
  obtain b rel t where t: "remove_level mem zero_method 32 meth_name ?clear m (if_methods x) = Inr ((b, rel), t)"
    "table_wf meth_name t" "lookup meth_name t = (lookup meth_name (if_methods x))(m := None)"
    "b \<longleftrightarrow> lookup meth_name t = Map.empty" "used t \<le> used (if_methods x)"
    "sum_list (map method_owned (entries (if_methods x))) = sum_list (map method_owned (entries t)) + owned rel"
    using methods.remove_level_present [OF assms(1) _ Some, of ?clear True "[]" _ method_owned] assms(2)
      methods.lookup_Some [OF Some] by (auto simp: interface_ok_def interface_pre_def)
  have "interface_owned x = interface_owned (x\<lparr>if_methods := t\<rparr>) + owned rel"
    unfolding owned_names(1) t(6) by (simp del: owned_simps(2))
  then show ?thesis
    using t(1-5) assms(2) methods.lookup_empty [OF t(2)]
    by (auto simp: remove_from_interface_def ok_defs pre_defs interface_offers_def fun_eq_iff)
qed

lemma emptied_owned:
  "used (if_methods x) = 0 \<Longrightarrow> interface_owned x = owned [if_name x]"
  "used (obj_interfaces y) = 0 \<Longrightarrow> object_owned y = owned [obj_path y]"
  "used (srv_objects z) = 0 \<Longrightarrow> service_owned z = owned [srv_name z]"
  by (simp_all add: interface_names_def object_names_def service_names_def entries_def)

lemma remove_from_object_ok:
  assumes "\<forall>n. mem n" "object_ok N x"
  shows "\<exists>b rel y. remove_from_object mem i m x = Inr ((b, rel), y) \<and> obj_path y = obj_path x \<and> object_pre N y
    \<and> object_offers y = (object_offers x)(i := (object_offers x i)(m := None))
    \<and> (b \<longleftrightarrow> used (obj_interfaces y) = 0) \<and> object_owned x = object_owned y + owned rel"
proof (cases "lookup if_name (obj_interfaces x) i")
  case None
  then have "object_offers x = (object_offers x)(i := (object_offers x i)(m := None))"
    by (simp add: object_offers_def fun_eq_iff)
  with None show ?thesis
    using assms(2) interfaces.remove_level_absent [OF _ None]
    by (auto simp: remove_from_object_def object_ok_def object_pre_def)
next
  case (Some z)
  have z: "interface_ok N z" "if_name z = Some i" "table_wf if_name (obj_interfaces x)"
    using assms(2) Some interfaces.lookup_Some [OF Some] by (auto simp: object_ok_def object_pre_def)
  obtain e freed w where w: "remove_from_interface mem m z = Inr ((e, freed), w)" "if_name w = Some i" "interface_pre N w"
    "interface_offers w = (interface_offers z)(m := None)" "e \<longleftrightarrow> used (if_methods w) = 0"
    "interface_owned z = interface_owned w + owned freed"
    using remove_from_interface_ok [OF assms(1) z(1), of m] z(2) by auto
  have "e \<Longrightarrow> interface_owned w = {#i#}" using emptied_owned(1) [of w] w(2,5) by simp
  then obtain b rel t where t: "remove_level mem zero_interface 24 if_name (remove_from_interface mem m) i (obj_interfaces x)
      = Inr ((b, rel), t)"
    "table_wf if_name t" "lookup if_name t = (lookup if_name (obj_interfaces x))(i := if e then None else Some w)"
    "b \<longleftrightarrow> lookup if_name t = Map.empty" "used t \<le> used (obj_interfaces x)"
    "sum_list (map interface_owned (entries (obj_interfaces x))) = sum_list (map interface_owned (entries t)) + owned rel"
    using interfaces.remove_level_present [where inner = "remove_from_interface mem m" and names = interface_owned,
        OF assms(1) z(3) Some w(1,2,6)] by blast
  have "object_pre N (x\<lparr>obj_interfaces := t\<rparr>)"
    using assms(2) t w(3,5) by (auto simp: object_ok_def object_pre_def interface_ok_def)
  moreover have "object_offers (x\<lparr>obj_interfaces := t\<rparr>) = (object_offers x)(i := (object_offers x i)(m := None))"
  proof -
    have at: "object_offers x i = interface_offers z"
      using Some by (simp add: object_offers_def fun_eq_iff)
    have "object_offers (x\<lparr>obj_interfaces := t\<rparr>) i = interface_offers w"
      using t(3) interface_offers_empty [OF w(3)] w(5) by (auto simp: object_offers_def fun_eq_iff)
    moreover have "object_offers (x\<lparr>obj_interfaces := t\<rparr>) a = object_offers x a" if "a \<noteq> i" for a
      using that t(3) by (auto simp: object_offers_def fun_eq_iff)
    ultimately show ?thesis unfolding at w(4) [symmetric] by (intro ext [of _ "fun_upd _ _ _"]) simp
  qed
  moreover have "object_owned x = object_owned (x\<lparr>obj_interfaces := t\<rparr>) + owned rel"
    by (simp add: owned_names(2) t(6) ac_simps)
  ultimately show ?thesis
    using t(1-5) interfaces.lookup_empty [OF t(2)] by (auto simp: remove_from_object_def)
qed

lemma remove_from_service_ok:
  assumes "\<forall>n. mem n" "service_ok N x"
  shows "\<exists>b rel y. remove_from_service mem p i m x = Inr ((b, rel), y) \<and> srv_name y = srv_name x
    \<and> srv_conn y = srv_conn x \<and> service_pre N y
    \<and> service_offers y = (service_offers x)(p := (service_offers x p)(i := (service_offers x p i)(m := None)))
    \<and> (b \<longleftrightarrow> used (srv_objects y) = 0) \<and> service_owned x = service_owned y + owned rel"
proof (cases "lookup obj_path (srv_objects x) p")
  case None
  then have "service_offers x = (service_offers x)(p := (service_offers x p)(i := (service_offers x p i)(m := None)))"
    by (simp add: service_offers_def fun_eq_iff)
  with None show ?thesis
    using assms(2) objects.remove_level_absent [OF _ None]
    by (auto simp: remove_from_service_def service_ok_def service_pre_def)
next
  case (Some z)
  have z: "object_ok N z" "obj_path z = Some p" "table_wf obj_path (srv_objects x)"
    using assms(2) Some objects.lookup_Some [OF Some] by (auto simp: service_ok_def service_pre_def)
  obtain e freed w where w: "remove_from_object mem i m z = Inr ((e, freed), w)" "obj_path w = Some p" "object_pre N w"
    "object_offers w = (object_offers z)(i := (object_offers z i)(m := None))" "e \<longleftrightarrow> used (obj_interfaces w) = 0"
    "object_owned z = object_owned w + owned freed"
    using remove_from_object_ok [OF assms(1) z(1), of i m] z(2) by auto
  have "e \<Longrightarrow> object_owned w = {#p#}" using emptied_owned(2) [of w] w(2,5) by simp
  then obtain b rel t where t: "remove_level mem zero_object 24 obj_path (remove_from_object mem i m) p (srv_objects x)
      = Inr ((b, rel), t)"
    "table_wf obj_path t" "lookup obj_path t = (lookup obj_path (srv_objects x))(p := if e then None else Some w)"
    "b \<longleftrightarrow> lookup obj_path t = Map.empty" "used t \<le> used (srv_objects x)"
    "sum_list (map object_owned (entries (srv_objects x))) = sum_list (map object_owned (entries t)) + owned rel"
    using objects.remove_level_present [where inner = "remove_from_object mem i m" and names = object_owned,
        OF assms(1) z(3) Some w(1,2,6)] by blast
  have "service_pre N (x\<lparr>srv_objects := t\<rparr>)"
    using assms(2) t w(3,5) by (auto simp: service_ok_def service_pre_def object_ok_def)
  moreover have "service_offers (x\<lparr>srv_objects := t\<rparr>)
      = (service_offers x)(p := (service_offers x p)(i := (service_offers x p i)(m := None)))"
  proof -
    have at: "service_offers x p = object_offers z"
      using Some by (simp add: service_offers_def fun_eq_iff)
    have "service_offers (x\<lparr>srv_objects := t\<rparr>) p = object_offers w"
      using t(3) object_offers_empty [OF w(3)] w(5) by (auto simp: service_offers_def fun_eq_iff)
    moreover have "service_offers (x\<lparr>srv_objects := t\<rparr>) a = service_offers x a" if "a \<noteq> p" for a
      using that t(3) by (auto simp: service_offers_def fun_eq_iff)
    ultimately show ?thesis unfolding at w(4) [symmetric] by (intro ext [of _ "fun_upd _ _ _"]) simp
  qed
  moreover have "service_owned x = service_owned (x\<lparr>srv_objects := t\<rparr>) + owned rel"
    by (simp add: owned_names(3) t(6) ac_simps)
  ultimately show ?thesis
    using t(1-5) objects.lookup_empty [OF t(2)] by (auto simp: remove_from_service_def)
qed

text \<open>The offer is the only one of its service.\<close>

definition last_offer :: "registry \<Rightarrow> string \<Rightarrow> string \<Rightarrow> string \<Rightarrow> string \<Rightarrow> bool" where
  "last_offer ctx s p i m \<longleftrightarrow> offers ctx s p i m \<noteq> None
     \<and> (\<forall>p' i' m'. offers ctx s p' i' m' \<noteq> None \<longrightarrow> (p', i', m') = (p, i, m))"

lemma upd3_apply:
  "(f(p := (f p)(i := (f p i)(m := v)))) p' i' m' = (if (p', i', m') = (p, i, m) then v else f p' i' m')"
  by auto

lemma only_offer:
  assumes "f \<noteq> (\<lambda>p i m. None)"
  shows "f(p := (f p)(i := (f p i)(m := None))) = (\<lambda>p i m. None)
    \<longleftrightarrow> f p i m \<noteq> None \<and> (\<forall>p' i' m'. f p' i' m' \<noteq> None \<longrightarrow> (p', i', m') = (p, i, m))"
proof -
  have some: "\<exists>p' i' m'. f p' i' m' \<noteq> None" using assms unfolding fun_eq_iff by blast
  have "(\<forall>p' i' m'. (if (p', i', m') = (p, i, m) then None else f p' i' m') = None)
    \<longleftrightarrow> (\<forall>p' i' m'. f p' i' m' \<noteq> None \<longrightarrow> (p', i', m') = (p, i, m))"
    by (simp del: not_None_eq split: if_split) metis
  with some show ?thesis unfolding fun_eq_iff upd3_apply by (metis prod.inject)
qed

text \<open>The two halves: the entry is found and emptied as far as possible; then it may go.\<close>

lemma remove_first_half:
  assumes "\<forall>n. mem n" "registry_ok N ctx" "lookup srv_name (ctx_services ctx) s = Some x"
  shows "\<exists>k b rel y t. find_named srv_name s (ctx_services ctx) = Inr k \<and> k < used (ctx_services ctx)
    \<and> modify_slot k (remove_from_service mem p i m) (ctx_services ctx) = Inr ((b, rel), t)
    \<and> table_wf srv_name t \<and> used t = used (ctx_services ctx) \<and> entries t ! k = y
    \<and> lookup srv_name t = (lookup srv_name (ctx_services ctx))(s \<mapsto> y) \<and> live t = live (ctx_services ctx)
    \<and> service_pre N y \<and> srv_name y = Some s
    \<and> (b \<longleftrightarrow> used (srv_objects y) = 0) \<and> (b \<longleftrightarrow> last_offer ctx s p i m)
    \<and> service_offers y = (offers ctx s)(p := (offers ctx s p)(i := (offers ctx s p i)(m := None)))
    \<and> owned (table_names (ctx_services ctx)) = owned (table_names t) + owned rel"
proof -
  let ?t = "ctx_services ctx"
  have wf: "table_wf srv_name ?t" "service_ok N x" using assms(2,3) by (auto simp: registry_ok_def)
  have "\<exists>k < used ?t. find_named srv_name s ?t = Inr k \<and> srv_name (entries ?t ! k) = Some s \<and> entries ?t ! k = x"
    using wf(1) by (rule services.find_named_cases [of _ s]) (use assms(3) in auto)
  then obtain k where k: "k < used ?t" "find_named srv_name s ?t = Inr k" "srv_name (entries ?t ! k) = Some s"
    "entries ?t ! k = x" by blast
  have x: "service_offers x = offers ctx s" using assms(3) by (simp add: offers_def fun_eq_iff)
  obtain b rel y where y: "remove_from_service mem p i m x = Inr ((b, rel), y)" "srv_name y = srv_name x"
    "srv_conn y = srv_conn x" "service_pre N y" "b \<longleftrightarrow> used (srv_objects y) = 0"
    "service_offers y = (offers ctx s)(p := (offers ctx s p)(i := (offers ctx s p i)(m := None)))"
    "service_owned x = service_owned y + owned rel"
    using remove_from_service_ok [OF assms(1) wf(2), of p i m] x by auto
  obtain t where t: "modify_slot k (remove_from_service mem p i m) ?t = Inr ((b, rel), t)" "table_wf srv_name t"
    "used t = used ?t" "entries t = (entries ?t)[k := y]"
    using services.modify_slot_ok [where f = "remove_from_service mem p i m", OF wf(1) k(1)] k(4) y(1,2) by blast
  have "lookup srv_name t = (lookup srv_name ?t)(s \<mapsto> y)"
    using services.lookup_update [OF wf(1) t(2) k(1) t(4)] k(3,4) y(2) by simp
  moreover have "live t = live ?t" using live_split [OF wf(1) k(1)] t(4) y(3) k(4) by (metis conn_of_def)
  moreover have "entries t ! k = y" using t(4) k(1) used_entries [OF wf(1)] by simp
  moreover have "b \<longleftrightarrow> last_offer ctx s p i m"
  proof -
    have "offers ctx s \<noteq> (\<lambda>p i m. None)"
      using wf(2) service_offers_empty [of N x] x by (auto simp: service_ok_def)
    then show ?thesis
      unfolding y(5) service_offers_empty [OF y(4), symmetric] y(6) last_offer_def by (rule only_offer)
  qed
  moreover have "k < length (entries ?t)" using k(1) used_entries [OF wf(1)] by simp
  then have "owned (table_names ?t) = owned (table_names t) + owned rel"
    unfolding owned_names(4) using t(4) by (rule entries_sum_shrink) (use k(4) y(7) in simp)
  ultimately show ?thesis
    using k t y by (intro exI [of _ k] exI [of _ b] exI [of _ rel] exI [of _ y] exI [of _ t]) simp
qed

lemma leave_half:
  assumes "table_wf srv_name t" "k < used t" "balanced (bus_log bus) (live t)"
  shows "\<exists>bus' t'. modify_slot k (leave_service bus) t = Inr (bus', t')
    \<and> table_wf srv_name t' \<and> used t' = used t \<and> entries t' = (entries t)[k := (entries t ! k)\<lparr>srv_conn := None\<rparr>]
    \<and> balanced (bus_log bus') (live t')
    \<and> held allocates releases (bus_log bus')
        = held allocates releases (bus_log bus @ [Freed (srv_name (entries t ! k))])"
proof -
  obtain srv' bus1 where d: "service_disconnect (entries t ! k) bus = (srv', bus1)" by fastforce
  obtain L where L: "live t = L + conn_of (entries t ! k)"
    "\<And>t' y. entries t' = (entries t)[k := y] \<Longrightarrow> live t' = L + conn_of y"
    using live_split [OF assms(1,2)] by metis
  have b: "balanced (bus_log bus1) L" "srv' = (entries t ! k)\<lparr>srv_conn := None\<rparr>"
    using service_disconnect_balance [OF d] assms(3) L(1) by auto
  let ?bus' = "say (Freed (srv_name srv')) bus1"
  obtain t' where t': "modify_slot k (leave_service bus) t = Inr (?bus', t')" "table_wf srv_name t'" "used t' = used t"
    "entries t' = (entries t)[k := srv']"
    using services.modify_slot_ok [where f = "leave_service bus", OF assms(1,2), of ?bus' srv'] d b(2)
    by (auto simp: leave_service_def)
  moreover have "live t' = L" using L(2) [OF t'(4)] b(2) by (simp add: conn_of_def)
  moreover have "held allocates releases (bus_log ?bus')
      = held allocates releases (bus_log bus @ [Freed (srv_name (entries t ! k))])"
    using service_disconnect_names [OF d] b(2) by (simp add: say_def held_append)
  ultimately show ?thesis using b by (intro exI [of _ ?bus'] exI [of _ t']) simp
qed

text \<open>The last offer of the only service goes: the service is disconnected and the registry is empty.\<close>

lemma remove_only_service:
  assumes "table_wf srv_name t" "used t = 1" "entries t ! 0 = y" "used (srv_objects y) = 0"
    "balanced (bus_log bus) (live t)"
  shows "\<exists>bus' t'. modify_slot 0 (leave_service bus) t = Inr (bus', t')
    \<and> (\<forall>a. drop_service mem (a, 0) t' = Inr (a + 1, empty_table)) \<and> balanced (bus_log bus') {#}
    \<and> (\<forall>lost. accounted (bus_log bus) t lost \<longrightarrow> accounted (bus_log bus') empty_table lost)"
proof -
  obtain bus' t' where d: "modify_slot 0 (leave_service bus) t = Inr (bus', t')"
    "table_wf srv_name t'" "used t' = used t" "entries t' = (entries t)[0 := y\<lparr>srv_conn := None\<rparr>]"
    "balanced (bus_log bus') (live t')"
    "held allocates releases (bus_log bus') = held allocates releases (bus_log bus @ [Freed (srv_name y)])"
    using leave_half [OF assms(1), of 0 bus] assms(2,3,5) by auto
  have one: "entries t = [y]"
    using assms(2,3) used_entries [OF assms(1)] by (cases "entries t") auto
  have e: "entries t' = [y\<lparr>srv_conn := None\<rparr>]"
    using d(4) one by simp
  then have "elems (slots t') ! 0 = y\<lparr>srv_conn := None\<rparr>" "0 < length (elems (slots t'))"
    by (cases "elems (slots t')"; cases "used t'"; simp add: entries_def)+
  then have "drop_service mem (a, 0) t' = Inr (a + 1, empty_table)" for a
    using d(3) assms(2,4) by (simp add: drop_service_def arr_get_def oddjob_resize_array_def empty_table_def)
  moreover have "live t' = {#}" using e by (simp add: live_def conn_of_def)
  moreover have "accounted (bus_log bus') empty_table lost" if "accounted (bus_log bus) t lost" for lost
  proof -
    have "owned (table_names t) = owned [srv_name y]" "table_names empty_table = []"
      using one assms(4) by (simp_all add: table_names_def emptied_owned)
    then show ?thesis using that d(6) held_freed [of "bus_log bus" lost "[srv_name y]"] by (simp add: accounted_def ac_simps)
  qed
  ultimately show ?thesis using d(1,5) by auto
qed

lemma lookup_only_service:
  fixes t :: "service table"
  assumes "table_wf srv_name t" "used t = 1" "srv_name (entries t ! 0) = Some s" "a \<noteq> s"
  shows "lookup srv_name t a = None"
proof (rule ccontr)
  assume "lookup srv_name t a \<noteq> None"
  then obtain z where "lookup srv_name t a = Some z" by blast
  then have "z \<in> set (entries t)" "srv_name z = Some a" using services.lookup_Some [of t a z] by simp_all
  with assms used_entries [OF assms(1)] show False by (cases "entries t") auto
qed

lemma remove_method_ok:
  assumes "\<forall>n. mem n" "registry_ok N ctx" "balanced (bus_log bus) (live (ctx_services ctx))"
    and "last_offer ctx s p i m \<longrightarrow> used (ctx_services ctx) = 1"
  shows "\<exists>ctx' bus'. oddjob_dbus_listeners_remove_method mem ctx s p i m bus = Inr (ctx', bus')
    \<and> registry_ok N ctx' \<and> balanced (bus_log bus') (live (ctx_services ctx'))
    \<and> (\<forall>s' p' i' m'. offers ctx' s' p' i' m'
         = (if (s', p', i', m') = (s, p, i, m) then None else offers ctx s' p' i' m'))
    \<and> (last_offer ctx s p i m \<longrightarrow> live (ctx_services ctx') = {#})
    \<and> (\<forall>lost. accounted (bus_log bus) (ctx_services ctx) lost \<longrightarrow> accounted (bus_log bus') (ctx_services ctx') lost)"
proof (cases "lookup srv_name (ctx_services ctx) s")
  case None
  have "table_wf srv_name (ctx_services ctx)" using assms(2) by (simp add: registry_ok_def)
  then have "find_named srv_name s (ctx_services ctx) = Inr (used (ctx_services ctx))"
    by (rule services.find_named_cases [of _ s]) (use None in auto)
  with None assms show ?thesis
    by (auto simp: oddjob_dbus_listeners_remove_method_def offers_def last_offer_def)
next
  case (Some x)
  let ?t = "ctx_services ctx"
  obtain k b rel y t where h: "find_named srv_name s ?t = Inr k" "k < used ?t"
    "modify_slot k (remove_from_service mem p i m) ?t = Inr ((b, rel), t)" "table_wf srv_name t" "used t = used ?t"
    "entries t ! k = y" "lookup srv_name t = (lookup srv_name ?t)(s \<mapsto> y)" "live t = live ?t"
    "service_pre N y" "srv_name y = Some s" "b \<longleftrightarrow> used (srv_objects y) = 0" "b \<longleftrightarrow> last_offer ctx s p i m"
    "service_offers y = (offers ctx s)(p := (offers ctx s p)(i := (offers ctx s p i)(m := None)))"
    "owned (table_names ?t) = owned (table_names t) + owned rel"
    using remove_first_half [OF assms(1,2) Some, of p i m] by (elim exE conjE) (rule that)
  let ?bus = "say_all (map Freed rel) bus"
  have names: "accounted (bus_log ?bus) t lost" if "accounted (bus_log bus) ?t lost" for lost
    using that h(14) held_freed [of "bus_log bus" "owned (table_names t) + lost" rel]
    by (simp add: accounted_def say_all_def ac_simps)
  have oks: "used ?t \<le> N" "\<And>n z. lookup srv_name ?t n = Some z \<Longrightarrow> service_ok N z"
    using assms(2) by (auto simp: registry_ok_def)
  show ?thesis
  proof (cases b)
    case False
    then have "oddjob_dbus_listeners_remove_method mem ctx s p i m bus = Inr (ctx\<lparr>ctx_services := t\<rparr>, ?bus)"
      using h(1-3) by (simp add: oddjob_dbus_listeners_remove_method_def)
    moreover have "offers (ctx\<lparr>ctx_services := t\<rparr>) = (offers ctx)(s := service_offers y)"
      using h(7) by (auto simp: offers_def fun_eq_iff)
    moreover have "registry_ok N (ctx\<lparr>ctx_services := t\<rparr>)"
      using False h oks by (auto simp: registry_ok_def service_ok_def)
    ultimately show ?thesis using False h(8,12,13) assms(3) names by auto
  next
    case True
    then have one: "used ?t = 1" "k = 0" using assms(4) h(2,12) by auto
    then have drop: "used t = 1" "k = 0" using h(5) by simp_all
    obtain bus' t' where d: "modify_slot k (leave_service ?bus) t = Inr (bus', t')"
      "\<And>a. drop_service mem (a, k) t' = Inr (a + 1, empty_table)" "balanced (bus_log bus') {#}"
      "\<And>lost. accounted (bus_log ?bus) t lost \<Longrightarrow> accounted (bus_log bus') empty_table lost"
      using remove_only_service [OF h(4) drop(1), of y ?bus mem] h(6,8,11) one True assms(3) by auto
    then have "oddjob_dbus_listeners_remove_method mem ctx s p i m bus
        = Inr (ctx\<lparr>ctx_services := empty_table, ctx_array := ctx_array ctx + 1\<rparr>, bus')"
      using True h(1-3) by (simp add: oddjob_dbus_listeners_remove_method_def)
    moreover have "offers ctx s' p' i' m' = None" if "(s', p', i', m') \<noteq> (s, p, i, m)" for s' p' i' m'
    proof (cases "s' = s")
      case True
      with that h(12) \<open>b\<close> show ?thesis by (auto simp: last_offer_def simp del: not_None_eq)
    next
      case False
      then have "lookup srv_name ?t s' = None"
        using lookup_only_service [OF h(4) drop(1), of s s'] h(6,7,10) drop(2) by simp
      then show ?thesis by (simp add: offers_def)
    qed
    moreover have "registry_ok N (ctx\<lparr>ctx_services := empty_table, ctx_array := ctx_array ctx + 1\<rparr>)" "live empty_table = {#}"
      "offers (ctx\<lparr>ctx_services := empty_table, ctx_array := ctx_array ctx + 1\<rparr>) = (\<lambda>s p i m. None)"
      by (simp_all add: registry_ok_def lookup_def live_def offers_def fun_eq_iff)
    ultimately show ?thesis using d(3,4) names by auto
  qed
qed

text \<open>
  The fault when other services are left: after the memmove the pointer is at the next entry, or still at
  the entry itself, which has no objects left.
\<close>

definition stale_fault :: "service table \<Rightarrow> nat \<Rightarrow> fault" where
  "stale_fault t k =
     (if Suc k = used t then Exit 1
      else if length (elems (slots t)) < used (srv_objects (entries t ! Suc k)) - 1 then Out_of_bounds
      else Use_after_free)"

lemma size_minus_one: "0xffff < size_of_int (- 1)"
  by (simp add: size_of_int_def SIZE_LIMIT_val)

lemma drop_service_faults:
  assumes "\<forall>n. mem n" "1 < used t" "k < used t" "used t \<le> length (elems (slots t))"
    and "Suc k = used t \<Longrightarrow> used (srv_objects (entries t ! k)) = 0"
    and "Suc k < used t \<Longrightarrow> 0 < used (srv_objects (entries t ! Suc k)) \<and> used (srv_objects (entries t ! Suc k)) \<le> 0xffff"
  shows "drop_service mem (a, k) t = Inl (stale_fault t k)"
proof -
  let ?xs = "elems (slots t)"
  define ys where "ys = take k ?xs @ take (used t - Suc k) (drop (Suc k) ?xs) @ drop (used t - 1) ?xs"
  have m: "move_down k t = Inr ys"
    using assms(3,4) by (simp add: move_down_def slice_def blit_def ys_def)
  have len: "length ys = length ?xs" "k < length ys" using assms(3,4) by (simp_all add: ys_def)
  show ?thesis
  proof (cases "Suc k = used t")
    case True
    then have "used t - Suc 0 = k" by simp
    then have "ys ! k = entries t ! k"
      using assms(3,4) by (simp add: ys_def entries_def nth_append min_def)
    then show ?thesis
      using True assms(2,5) m len size_minus_one
      by (simp add: drop_service_def arr_get_def resize_array_limit stale_fault_def)
  next
    case False
    then have "ys ! k = entries t ! Suc k"
      using assms(3,4) by (simp add: ys_def entries_def nth_append min_def)
    moreover obtain n where "used (srv_objects (entries t ! Suc k)) = Suc n" "Suc n \<le> 0xffff"
      using False assms(3,6) gr0_implies_Suc by (metis Suc_lessI)
    ultimately show ?thesis
      using False assms(1,2) m len
      by (simp add: drop_service_def arr_get_def oddjob_resize_array_def oddjob_malloc0_eq slice_def blit_def
          stale_fault_def size_of_int_def SIZE_LIMIT_val Let_def)
  qed
qed

lemma modify_slot_elsewhere:
  assumes "modify_slot k f t = Inr (r, t')"
  shows "used t' = used t" "length (elems (slots t')) = length (elems (slots t))"
    "j \<noteq> k \<Longrightarrow> j < used t \<Longrightarrow> entries t' ! j = entries t ! j"
  using assms by (auto elim!: modify_slotD simp: entries_def)

lemma remove_last_faults:
  assumes "\<forall>n. mem n" "registry_ok N ctx" "balanced (bus_log bus) (live (ctx_services ctx))"
    and "last_offer ctx s p i m" "1 < used (ctx_services ctx)"
    and "k < used (ctx_services ctx)" "srv_name (entries (ctx_services ctx) ! k) = Some s"
  shows "oddjob_dbus_listeners_remove_method mem ctx s p i m bus = Inl (stale_fault (ctx_services ctx) k)"
proof -
  let ?t = "ctx_services ctx"
  have wf: "table_wf srv_name ?t" using assms(2) by (simp add: registry_ok_def)
  have Some: "lookup srv_name ?t s = Some (entries ?t ! k)" by (rule services.lookup_at [OF wf assms(6,7)])
  obtain k' b rel y t where h: "find_named srv_name s ?t = Inr k'" "k' < used ?t"
    "modify_slot k' (remove_from_service mem p i m) ?t = Inr ((b, rel), t)" "table_wf srv_name t" "used t = used ?t"
    "entries t ! k' = y" "lookup srv_name t = (lookup srv_name ?t)(s \<mapsto> y)" "live t = live ?t"
    "service_pre N y" "srv_name y = Some s" "b \<longleftrightarrow> used (srv_objects y) = 0" "b \<longleftrightarrow> last_offer ctx s p i m"
    "service_offers y = (offers ctx s)(p := (offers ctx s p)(i := (offers ctx s p i)(m := None)))"
    "owned (table_names ?t) = owned (table_names t) + owned rel"
    using remove_first_half [OF assms(1,2) Some, of p i m] by (elim exE conjE) (rule that)
  have "srv_name (entries ?t ! k') = Some s"
    using wf by (rule services.find_named_cases [of _ s]) (use Some h(1) in auto)
  then have "map srv_name (entries ?t) ! k' = map srv_name (entries ?t) ! k"
    using h(2) assms(6,7) used_entries [OF wf] by simp
  then have k: "k' = k"
    using wf h(2) assms(6) used_entries [OF wf]
    by (intro nth_eq_iff_index_eq [of "map srv_name (entries ?t)", THEN iffD1]) (simp_all add: table_wf_def)
  obtain bus' t' where d: "modify_slot k (leave_service (say_all (map Freed rel) bus)) t = Inr (bus', t')"
    "used t' = used t" "table_wf srv_name t'" "entries t' = (entries t)[k := y\<lparr>srv_conn := None\<rparr>]"
    using leave_half [OF h(4), of k "say_all (map Freed rel) bus"] h(2,5,6,8) assms(3) k by auto
  note first = modify_slot_elsewhere [OF h(3)] and second = modify_slot_elsewhere [OF d(1)]
  have next_entry: "entries t' ! Suc k = entries ?t ! Suc k" if "Suc k < used ?t"
    using that first second k by simp
  have same: "stale_fault t' k = stale_fault ?t k"
    using next_entry assms(6) first second by (auto simp: stale_fault_def)
  have "service_ok N (entries ?t ! Suc k)" if "Suc k < used ?t"
  proof -
    have "entries ?t ! Suc k \<in> set (entries ?t)" using that used_entries [OF wf] by simp
    then obtain n where "lookup srv_name ?t n = Some (entries ?t ! Suc k)" using services.entry_lookup [OF wf] by blast
    with assms(2) show ?thesis by (auto simp: registry_ok_def)
  qed
  then have "0 < used (srv_objects (entries t' ! Suc k)) \<and> used (srv_objects (entries t' ! Suc k)) \<le> 0xffff" if "Suc k < used ?t"
    using that next_entry by (fastforce simp: service_ok_def service_pre_def table_wf_def)
  moreover have "used (srv_objects (entries t' ! k)) = 0"
    using d(4) h(4,5,11,12) assms(4,6) used_entries [OF h(4)] by simp
  ultimately have "drop_service mem (a, k) t' = Inl (stale_fault t' k)" for a
    using drop_service_faults [OF assms(1), of t' k] assms(5,6) d(2,3) h(5) by (simp add: table_wf_def)
  then show ?thesis
    using h(1-3,12) assms(4) d(1) k same by (simp add: oddjob_dbus_listeners_remove_method_def)
qed

lemma last_offer_index:
  assumes "registry_ok N ctx" "last_offer ctx s p i m"
  obtains k where "k < used (ctx_services ctx)" "srv_name (entries (ctx_services ctx) ! k) = Some s"
proof -
  have wf: "table_wf srv_name (ctx_services ctx)" using assms(1) by (simp add: registry_ok_def)
  obtain x where "lookup srv_name (ctx_services ctx) s = Some x"
    using assms(2) by (cases "lookup srv_name (ctx_services ctx) s") (auto simp: last_offer_def offers_def)
  then show ?thesis
    using that services.lookup_Some [of "ctx_services ctx" s x] used_entries [OF wf] by (metis in_set_conv_nth)
qed

lemma last_offer_used: "registry_ok N ctx \<Longrightarrow> last_offer ctx s p i m \<Longrightarrow> 0 < used (ctx_services ctx)"
  by (erule (1) last_offer_index) simp

lemma remove_last_some_fault:
  assumes "\<forall>n. mem n" "registry_ok N ctx" "balanced (bus_log bus) (live (ctx_services ctx))"
    and "last_offer ctx s p i m" "1 < used (ctx_services ctx)"
  shows "\<exists>e \<in> {Exit 1, Out_of_bounds, Use_after_free}.
    oddjob_dbus_listeners_remove_method mem ctx s p i m bus = Inl e"
proof -
  obtain k where "k < used (ctx_services ctx)" "srv_name (entries (ctx_services ctx) ! k) = Some s"
    using last_offer_index [OF assms(2,4)] .
  from remove_last_faults [OF assms this] show ?thesis by (auto simp: stale_fault_def)
qed

text \<open>
  C10. Removing a method deletes exactly its entry from the finite map of offers, keeps the
  registry well formed and its connections balanced with the bus, and releases exactly the
  names that go; if it was the last method of the only service, the service is disconnected and
  no connection is left; if it was the last method of one of several services, the call does
  not return but ends in an exit, an access out of bounds or a use after free.
\<close>

theorem remove_method_refines:
  assumes "\<forall>n. mem n" "registry_ok N ctx" "balanced (bus_log bus) (live (ctx_services ctx))"
  shows "if last_offer ctx s p i m \<and> 1 < used (ctx_services ctx)
    then \<exists>e \<in> {Exit 1, Out_of_bounds, Use_after_free}. oddjob_dbus_listeners_remove_method mem ctx s p i m bus = Inl e
    else \<exists>ctx' bus'. oddjob_dbus_listeners_remove_method mem ctx s p i m bus = Inr (ctx', bus')
    \<and> registry_ok N ctx' \<and> balanced (bus_log bus') (live (ctx_services ctx'))
    \<and> (\<forall>s' p' i' m'. offers ctx' s' p' i' m'
         = (if (s', p', i', m') = (s, p, i, m) then None else offers ctx s' p' i' m'))
    \<and> (last_offer ctx s p i m \<longrightarrow> live (ctx_services ctx') = {#})
    \<and> (\<forall>lost. accounted (bus_log bus) (ctx_services ctx) lost \<longrightarrow> accounted (bus_log bus') (ctx_services ctx') lost)"
proof (cases "last_offer ctx s p i m")
  case True
  show ?thesis
  proof (cases "1 < used (ctx_services ctx)")
    case more: True
    with True remove_last_some_fault [OF assms True more] show ?thesis by simp
  next
    case False
    with last_offer_used [OF assms(2) True] have "used (ctx_services ctx) = 1" by simp
    then show ?thesis using remove_method_ok [OF assms, of s p i m] by simp
  qed
next
  case False
  then show ?thesis using remove_method_ok [OF assms, of s p i m] by simp
qed

text \<open>
  C38. Removing the last method of one of several services exits with status 1 if its entry is
  the last in the array; otherwise it reads or writes out of bounds if the entry that moves
  into its place has at least two more objects than the array has entries, and ends in a use
  after free if not, because the array of services is resized by the object counts of that
  entry and srv points into the released one.
\<close>

theorem remove_last_offer_faults:
  assumes "\<forall>n. mem n" "registry_ok N ctx" "balanced (bus_log bus) (live (ctx_services ctx))"
    and "last_offer ctx s p i m" "1 < used (ctx_services ctx)"
    and "k < used (ctx_services ctx)" "srv_name (entries (ctx_services ctx) ! k) = Some s"
  shows "oddjob_dbus_listeners_remove_method mem ctx s p i m bus = Inl
    (if Suc k = used (ctx_services ctx) then Exit 1
     else if length (elems (slots (ctx_services ctx))) < used (srv_objects (entries (ctx_services ctx) ! Suc k)) - 1
     then Out_of_bounds
     else Use_after_free)"
  using remove_last_faults [OF assms] by (simp add: stale_fault_def)

section \<open>Reconnecting and releasing\<close>

text \<open>What a loop over the services keeps, given a relation that its body establishes.\<close>

definition service_step :: "(service \<Rightarrow> service \<Rightarrow> bool) \<Rightarrow> (service \<Rightarrow> bus \<Rightarrow> (service \<times> bus) res) \<Rightarrow> bool" where
  "service_step R f \<longleftrightarrow> (\<forall>srv bus L. balanced (bus_log bus) (L + conn_of srv) \<longrightarrow>
     (case f srv bus of Inl e \<Rightarrow> unreached e
      | Inr (srv', bus') \<Rightarrow> R srv srv' \<and> srv_name srv' = srv_name srv \<and> service_names srv' = service_names srv
          \<and> balanced (bus_log bus') (L + conn_of srv')
          \<and> held allocates releases (bus_log bus') = held allocates releases (bus_log bus)))"

lemma service_stepD:
  assumes "service_step R f" "balanced (bus_log bus) (L + conn_of srv)"
  shows "(\<exists>e. f srv bus = Inl e \<and> unreached e) \<or> (\<exists>srv' bus'. f srv bus = Inr (srv', bus') \<and> R srv srv'
    \<and> srv_name srv' = srv_name srv \<and> service_names srv' = service_names srv
    \<and> balanced (bus_log bus') (L + conn_of srv')
    \<and> held allocates releases (bus_log bus') = held allocates releases (bus_log bus))"
  using assms unfolding service_step_def by (cases "f srv bus") fastforce+

lemma each_service_ok:
  assumes "service_step R f"
  shows "table_wf srv_name t \<Longrightarrow> i + n = used t \<Longrightarrow> balanced (bus_log bus) (live t) \<Longrightarrow>
    (\<exists>e. each_service f i n t bus = Inl e \<and> unreached e) \<or>
    (\<exists>t' bus'. each_service f i n t bus = Inr (t', bus') \<and> table_wf srv_name t' \<and> used t' = used t
       \<and> take i (entries t') = take i (entries t) \<and> list_all2 R (drop i (entries t)) (drop i (entries t'))
       \<and> map srv_name (entries t') = map srv_name (entries t) \<and> balanced (bus_log bus') (live t')
       \<and> map service_names (entries t') = map service_names (entries t)
       \<and> held allocates releases (bus_log bus') = held allocates releases (bus_log bus))"
proof (induction n arbitrary: i t bus)
  case 0
  then show ?case using used_entries [of srv_name t] by simp
next
  case (Suc n)
  let ?x = "entries t ! i"
  have i: "i < used t" "i < length (entries t)" using Suc.prems used_entries [of srv_name t] by auto
  obtain L where L: "live t = L + conn_of ?x"
    "\<And>t' y. entries t' = (entries t)[i := y] \<Longrightarrow> live t' = L + conn_of y"
    using live_split [OF Suc.prems(1) i(1)] by metis
  let ?g = "\<lambda>srv. res_bind (f srv bus) (\<lambda>(srv, bus). Inr (bus, srv))"
  show ?case
  proof (cases "\<exists>e. f ?x bus = Inl e \<and> unreached e")
    case True
    have "arr_get (elems (slots t)) i = Inr ?x"
      using i(1) Suc.prems(1) by (auto simp: arr_get_def entries_def table_wf_def)
    with True show ?thesis by (auto simp: modify_slot_def)
  next
    case False
    then obtain y bus1 where y: "f ?x bus = Inr (y, bus1)" "R ?x y" "srv_name y = srv_name ?x"
      "balanced (bus_log bus1) (L + conn_of y)" "service_names y = service_names ?x"
      "held allocates releases (bus_log bus1) = held allocates releases (bus_log bus)"
      using service_stepD [OF assms, of bus L ?x] Suc.prems(3) L(1) by auto
    obtain t1 where t1: "modify_slot i ?g t = Inr (bus1, t1)" "table_wf srv_name t1" "used t1 = used t"
      "entries t1 = (entries t)[i := y]"
      using services.modify_slot_ok [OF Suc.prems(1) i(1), of ?g bus1 y] y by auto
    have drop: "drop i (entries t) = ?x # drop (Suc i) (entries t1)" "entries t1 ! i = y"
      "map srv_name (entries t1) = map srv_name (entries t)"
      "map service_names (entries t1) = map service_names (entries t)"
      using i t1(4) y(3,5) Cons_nth_drop_Suc [OF i(2)] by (auto simp: map_update list_update_same_conv)
    have "i < length (entries t1)" using i t1(4) by simp
    then have snoc: "take (Suc i) (entries t1) = take i (entries t) @ [y]"
      using t1(4) by (simp add: take_Suc_conv_app_nth)
    have IH: "(\<exists>e. each_service f (Suc i) n t1 bus1 = Inl e \<and> unreached e) \<or>
      (\<exists>t' bus'. each_service f (Suc i) n t1 bus1 = Inr (t', bus') \<and> table_wf srv_name t' \<and> used t' = used t1
       \<and> take (Suc i) (entries t') = take (Suc i) (entries t1)
       \<and> list_all2 R (drop (Suc i) (entries t1)) (drop (Suc i) (entries t'))
       \<and> map srv_name (entries t') = map srv_name (entries t1) \<and> balanced (bus_log bus') (live t')
       \<and> map service_names (entries t') = map service_names (entries t1)
       \<and> held allocates releases (bus_log bus') = held allocates releases (bus_log bus1))"
      using t1 Suc.prems(2) y(4) L(2) [OF t1(4)] by (intro Suc.IH) simp_all
    have step: "each_service f i (Suc n) t bus = each_service f (Suc i) n t1 bus1" using t1(1) by simp
    show ?thesis
    proof (cases "\<exists>e. each_service f (Suc i) n t1 bus1 = Inl e \<and> unreached e")
      case True
      with step show ?thesis by simp
    next
      case False
      with IH obtain t' bus' where t': "each_service f (Suc i) n t1 bus1 = Inr (t', bus')"
        "table_wf srv_name t'" "used t' = used t1" "take (Suc i) (entries t') = take i (entries t) @ [y]"
        "list_all2 R (drop (Suc i) (entries t1)) (drop (Suc i) (entries t'))"
        "map srv_name (entries t') = map srv_name (entries t1)" "balanced (bus_log bus') (live t')"
        "map service_names (entries t') = map service_names (entries t1)"
        "held allocates releases (bus_log bus') = held allocates releases (bus_log bus1)"
        unfolding snoc by blast
      have "i < length (entries t')" using t'(2,3) t1(3) i(1) used_entries [of srv_name t'] by simp
      then have "take i (entries t') = take i (entries t)" "drop i (entries t') = y # drop (Suc i) (entries t')"
        using t'(4) by (auto simp: take_Suc_conv_app_nth Cons_nth_drop_Suc [symmetric])
      with t' t1(3) drop y(2,6) step show ?thesis by auto
    qed
  qed
qed

lemma each_service_total:
  "\<forall>srv bus. \<exists>z. f srv bus = Inr z \<Longrightarrow> unreached e \<Longrightarrow> each_service f i n t bus \<noteq> Inl e"
proof (induction n arbitrary: i t bus)
  case (Suc n)
  then show ?case
    by (auto simp: res_simps modify_slot_def arr_get_def arr_set_def unreached_def split: if_splits)
       (metis Inr_not_Inl)+
qed simp

lemma lookup_objects:
  assumes "map srv_name (entries t') = map srv_name (entries t)"
    "list_all2 (\<lambda>x y. srv_objects y = srv_objects x) (entries t) (entries t')"
  shows "map_option srv_objects (lookup srv_name t' s) = map_option srv_objects (lookup srv_name t s)"
proof -
  have "map_option srv_objects (List.find (\<lambda>x. srv_name x = Some s) ys)
      = map_option srv_objects (List.find (\<lambda>x. srv_name x = Some s) xs)"
    if "list_all2 (\<lambda>x y. srv_objects y = srv_objects x) xs ys" "map srv_name ys = map srv_name xs" for xs ys
    using that by (induction rule: list_all2_induct) auto
  with assms show ?thesis by (simp add: lookup_def)
qed

lemma same_objects_offers:
  assumes "map srv_name (entries (ctx_services ctx')) = map srv_name (entries (ctx_services ctx))"
    "list_all2 (\<lambda>x y. srv_objects y = srv_objects x) (entries (ctx_services ctx)) (entries (ctx_services ctx'))"
    "table_wf srv_name (ctx_services ctx')" "used (ctx_services ctx') = used (ctx_services ctx)"
  shows "offers ctx' = offers ctx \<and> (registry_ok N ctx \<longrightarrow> registry_ok N ctx')"
proof -
  note l = lookup_objects [OF assms(1,2)]
  have "offers c s = (\<lambda>p i m. Option.bind (map_option srv_objects (lookup srv_name (ctx_services c) s))
      (\<lambda>t. Option.bind (lookup obj_path t p) (\<lambda>y. object_offers y i m)))" for c s
    by (cases "lookup srv_name (ctx_services c) s") (simp_all add: offers_def service_offers_def fun_eq_iff)
  then have "offers ctx' = offers ctx" using l by (auto simp: fun_eq_iff)
  moreover have "service_ok N y" if ok: "registry_ok N ctx" and y: "lookup srv_name (ctx_services ctx') n = Some y" for n y
  proof -
    from y l [of n] obtain x where "lookup srv_name (ctx_services ctx) n = Some x" "srv_objects y = srv_objects x"
      by (auto simp: map_option_case split: option.splits)
    with ok show ?thesis by (auto simp: registry_ok_def service_ok_def service_pre_def)
  qed
  ultimately show ?thesis using assms(3,4) by (auto simp: registry_ok_def)
qed

text \<open>A connection that is up is kept as it is.\<close>

definition kept :: "(nat \<Rightarrow> bool) \<Rightarrow> service \<Rightarrow> service \<Rightarrow> bool" where
  "kept up x y \<longleftrightarrow> srv_objects y = srv_objects x \<and> (\<forall>c. srv_conn x = Some c \<and> up c \<longrightarrow> y = x)"

lemma reconnect_step: "service_step (kept up) (reconnect_service ctx up)"
  unfolding service_step_def
proof (intro allI impI)
  fix srv :: service and bus :: bus and L assume bal: "balanced (bus_log bus) (L + conn_of srv)"
  show "case reconnect_service ctx up srv bus of Inl e \<Rightarrow> unreached e
      | Inr (srv', bus') \<Rightarrow> kept up srv srv' \<and> srv_name srv' = srv_name srv \<and> service_names srv' = service_names srv
          \<and> balanced (bus_log bus') (L + conn_of srv')
          \<and> held allocates releases (bus_log bus') = held allocates releases (bus_log bus)"
  proof (cases "case srv_conn srv of None \<Rightarrow> False | Some c \<Rightarrow> up c")
    case True
    with bal show ?thesis by (simp add: reconnect_service_def kept_def)
  next
    case False
    obtain srv1 bus1 where d: "service_disconnect srv bus = (srv1, bus1)" by fastforce
    then have d': "balanced (bus_log bus1) L" "srv1 = srv\<lparr>srv_conn := None\<rparr>"
      using service_disconnect_balance [OF d bal] by simp_all
    have eq: "reconnect_service ctx up srv bus
        = res_bind (service_connect ctx srv1 bus1) (\<lambda>(ok, srv, bus). Inr (srv, bus))"
      using False d by (simp add: reconnect_service_def)
    show ?thesis
    proof (cases "service_connect ctx srv1 bus1")
      case (Inl e)
      then have "unreached e" by (rule service_connect_unreached)
      with Inl eq show ?thesis by simp
    next
      case (Inr z)
      then obtain ok srv2 bus2 where z: "service_connect ctx srv1 bus1 = Inr (ok, srv2, bus2)" by (cases z) auto
      then have "balanced (bus_log bus2) (L + conn_of srv2)"
        using service_connect_balance [OF z d'(1)] d'(2) by simp
      with z eq False d'(2) service_connect_service [OF z] service_connect_names [OF z] service_disconnect_names [OF d]
      show ?thesis by (auto simp: kept_def service_names_def split: if_splits)
    qed
  qed
qed

lemma reconnect_ok:
  assumes "registry_ok N ctx" "balanced (bus_log bus) (live (ctx_services ctx))"
  shows "(case oddjob_dbus_listeners_reconnect_if_needed ctx up bus of
      Inl e \<Rightarrow> unreached e
    | Inr (ctx', bus') \<Rightarrow> registry_ok N ctx' \<and> balanced (bus_log bus') (live (ctx_services ctx'))
        \<and> offers ctx' = offers ctx
        \<and> list_all2 (kept up) (entries (ctx_services ctx)) (entries (ctx_services ctx'))
        \<and> (\<forall>lost. accounted (bus_log bus) (ctx_services ctx) lost \<longrightarrow> accounted (bus_log bus') (ctx_services ctx') lost))"
proof -
  let ?t = "ctx_services ctx"
  have r: "(\<exists>e. each_service (reconnect_service ctx up) 0 (used ?t) ?t bus = Inl e \<and> unreached e) \<or>
    (\<exists>t' bus'. each_service (reconnect_service ctx up) 0 (used ?t) ?t bus = Inr (t', bus') \<and> table_wf srv_name t'
       \<and> used t' = used ?t \<and> list_all2 (kept up) (entries ?t) (entries t')
       \<and> map srv_name (entries t') = map srv_name (entries ?t) \<and> balanced (bus_log bus') (live t')
       \<and> (\<forall>lost. accounted (bus_log bus) ?t lost \<longrightarrow> accounted (bus_log bus') t' lost))"
    using each_service_ok [OF reconnect_step [of up ctx], of ?t 0 "used ?t" bus] assms
    by (auto simp: registry_ok_def accounted_def table_names_def)
  have "list_all2 (\<lambda>x y. srv_objects y = srv_objects x) xs ys" if "list_all2 (kept up) xs ys" for xs ys
    using that by (rule list_all2_mono) (simp add: kept_def)
  with r show ?thesis
    using assms(1) same_objects_offers [of "ctx\<lparr>ctx_services := _\<rparr>" ctx N]
    by (fastforce simp: oddjob_dbus_listeners_reconnect_if_needed_def)
qed

text \<open>
  Reconnecting keeps the registry well formed, its offers and names unchanged and its
  connections balanced with the bus; services that are still connected are not touched; it only
  fails to return if the bus never answers.
\<close>

theorem reconnect_keeps_registry:
  assumes "registry_ok N ctx" "balanced (bus_log bus) (live (ctx_services ctx))"
  shows "(case oddjob_dbus_listeners_reconnect_if_needed ctx up bus of
      Inl e \<Rightarrow> unreached e
    | Inr (ctx', bus') \<Rightarrow> registry_ok N ctx' \<and> balanced (bus_log bus') (live (ctx_services ctx'))
        \<and> offers ctx' = offers ctx
        \<and> list_all2 (kept up) (entries (ctx_services ctx)) (entries (ctx_services ctx'))
        \<and> (\<forall>lost. accounted (bus_log bus) (ctx_services ctx) lost \<longrightarrow> accounted (bus_log bus') (ctx_services ctx') lost))"
  by (rule reconnect_ok [OF assms])

lemma timeout_step:
  "service_step (\<lambda>x y. y = x) (\<lambda>srv bus. Inr (srv, say (Exit_on_disconnect (srv_conn srv) b) bus))"
  by (simp add: service_step_def say_def balanced_def held_append)

lemma set_reconnect_timeout_ok:
  assumes "registry_ok N ctx" "balanced (bus_log bus) (live (ctx_services ctx))"
  shows "\<exists>ctx' bus'. oddjob_dbus_listeners_set_reconnect_timeout ctx timeout bus = Inr (ctx', bus')
    \<and> ctx_timeout ctx' = timeout \<and> offers ctx' = offers ctx \<and> registry_ok N ctx'
    \<and> balanced (bus_log bus') (live (ctx_services ctx'))
    \<and> entries (ctx_services ctx') = entries (ctx_services ctx)
    \<and> (\<forall>lost. accounted (bus_log bus) (ctx_services ctx) lost \<longrightarrow> accounted (bus_log bus') (ctx_services ctx') lost)"
proof -
  let ?t = "ctx_services ctx" and ?f = "\<lambda>srv bus. Inr (srv, say (Exit_on_disconnect (srv_conn srv) (timeout \<le> 0)) bus)"
  obtain t' bus' where t': "each_service ?f 0 (used ?t) ?t bus = Inr (t', bus')" "table_wf srv_name t'"
    "used t' = used ?t" "entries t' = entries ?t" "balanced (bus_log bus') (live t')"
    "held allocates releases (bus_log bus') = held allocates releases (bus_log bus)"
    using each_service_ok [OF timeout_step [of "timeout \<le> 0"], of ?t 0 "used ?t" bus] assms
      each_service_total [of ?f _ 0 "used ?t" ?t bus]
    by (auto simp: registry_ok_def list_all2_eq [symmetric] eq_commute [of _ "_ :: service"])
  have "lookup srv_name t' = lookup srv_name ?t" using t'(4) by (simp add: lookup_def fun_eq_iff)
  then show ?thesis
    using t' assms(1)
    by (auto simp: oddjob_dbus_listeners_set_reconnect_timeout_def registry_ok_def offers_def fun_eq_iff
        accounted_def table_names_def)
qed

lemma release_interface_ok: "interface_ok N x \<Longrightarrow> release_interface x = Inr (interface_names x)"
  using release_slots_entries [of "if_methods x" "\<lambda>meth. Inr [meth_name meth]" "\<lambda>meth. [meth_name meth]"]
  by (simp add: release_interface_def interface_names_def ok_defs pre_defs table_wf_def concat_map_singleton)

lemma release_object_ok: "object_ok N x \<Longrightarrow> release_object x = Inr (object_names x)"
proof -
  assume ok: "object_ok N x"
  have "\<forall>y \<in> set (entries (obj_interfaces x)). release_interface y = Inr (interface_names y)"
    using ok release_interface_ok interfaces.entry_lookup [of "obj_interfaces x"]
    by (fastforce simp: object_ok_def object_pre_def)
  then show ?thesis
    using ok release_slots_entries [of "obj_interfaces x" release_interface interface_names]
    by (simp add: release_object_def object_names_def object_ok_def object_pre_def table_wf_def)
qed

lemma release_services_ok:
  "i + n \<le> length xs \<Longrightarrow> \<forall>x \<in> set (take n (drop i xs)). service_ok N x \<Longrightarrow>
   balanced (bus_log bus) (L + sum_list (map conn_of (take n (drop i xs)))) \<Longrightarrow>
   \<exists>bus'. release_services (Some xs) i n bus = Inr bus' \<and> balanced (bus_log bus') L
     \<and> held allocates releases (bus_log bus')
        = held allocates releases (bus_log bus @ map Freed (concat (map service_names (take n (drop i xs)))))"
proof (induction n arbitrary: i bus)
  case (Suc n)
  let ?x = "xs ! i"
  have split: "drop i xs = ?x # drop (Suc i) xs" using Suc.prems(1) by (simp add: Cons_nth_drop_Suc)
  have ok: "service_ok N ?x" using Suc.prems(2) split by simp
  have "\<forall>y \<in> set (entries (srv_objects ?x)). release_object y = Inr (object_names y)"
    using ok release_object_ok objects.entry_lookup [of "srv_objects ?x"]
    by (fastforce simp: service_ok_def service_pre_def)
  then have rel: "release_slots release_object (slots (srv_objects ?x)) 0 (used (srv_objects ?x))
      = Inr (concat (map object_names (entries (srv_objects ?x))))"
    using ok release_slots_entries [of "srv_objects ?x" release_object object_names]
    by (simp add: service_ok_def service_pre_def table_wf_def)
  obtain y bus1 where y: "service_disconnect ?x bus = (y, bus1)" by fastforce
  let ?bus = "say_all (map Freed (service_names ?x)) bus1"
  have bal: "balanced (bus_log ?bus) (L + sum_list (map conn_of (take n (drop (Suc i) xs))))"
    and y': "y = ?x\<lparr>srv_conn := None\<rparr>"
    using service_disconnect_balance [OF y, of "L + sum_list (map conn_of (take n (drop (Suc i) xs)))"]
      Suc.prems(3) split by (simp_all add: ac_simps)
  obtain bus' where r: "release_services (Some xs) (Suc i) n ?bus = Inr bus'" "balanced (bus_log bus') L"
    "held allocates releases (bus_log bus')
      = held allocates releases (bus_log ?bus @ map Freed (concat (map service_names (take n (drop (Suc i) xs)))))"
    using Suc.IH [of "Suc i" ?bus] Suc.prems(1,2) split bal by auto
  have "release_services (Some xs) i (Suc n) bus = Inr bus'"
    using Suc.prems(1) y y' rel r(1) by (simp add: arr_get_def service_names_def [of "xs ! i"])
  with r(2,3) service_disconnect_names [OF y] split show ?case
    by (simp add: say_all_def held_append)
qed simp

lemma listeners_free_ok:
  assumes "registry_ok N ctx" "balanced (bus_log bus) (live (ctx_services ctx))"
  shows "\<exists>bus'. oddjob_dbus_listeners_free (Some ctx) bus = Inr bus' \<and> balanced (bus_log bus') {#}
    \<and> (\<forall>lost. accounted (bus_log bus) (ctx_services ctx) lost \<longrightarrow> held allocates releases (bus_log bus') = Some lost)"
proof -
  let ?t = "ctx_services ctx"
  have ok: "\<forall>x \<in> set (entries ?t). service_ok N x"
    using assms(1) services.entry_lookup [of ?t] by (fastforce simp: registry_ok_def)
  obtain bus' where r: "oddjob_dbus_listeners_free (Some ctx) bus = Inr bus'" "balanced (bus_log bus') {#}"
    "held allocates releases (bus_log bus') = held allocates releases (bus_log bus @ map Freed (table_names ?t))"
  proof (cases "slots ?t")
    case None
    with assms that [of bus] show ?thesis
      by (auto simp: oddjob_dbus_listeners_free_def registry_ok_def table_wf_def entries_def live_def table_names_def)
  next
    case (Some xs)
    then show ?thesis
      using release_services_ok [of 0 "used ?t" xs N bus "{#}"] assms ok that
      by (auto simp: oddjob_dbus_listeners_free_def registry_ok_def table_wf_def entries_def live_def table_names_def)
  qed
  have "held allocates releases (bus_log bus') = Some lost" if "accounted (bus_log bus) ?t lost" for lost
    using that r(3) held_freed [of "bus_log bus" lost "table_names ?t"] by (simp add: accounted_def ac_simps)
  with r(1,2) show ?thesis by blast
qed

text \<open>
  Releasing the registry passes every name of every level to oddjob_free once, and closes, unbinds
  and detaches every connection.
\<close>

theorem listeners_free_releases_all:
  assumes "registry_ok N ctx" "balanced (bus_log bus) (live (ctx_services ctx))"
  shows "\<exists>bus'. oddjob_dbus_listeners_free (Some ctx) bus = Inr bus' \<and> balanced (bus_log bus') {#}
    \<and> (\<forall>lost. accounted (bus_log bus) (ctx_services ctx) lost \<longrightarrow> held allocates releases (bus_log bus') = Some lost)"
  by (rule listeners_free_ok [OF assms])

section \<open>Examples\<close>

definition table_of :: "'a list \<Rightarrow> 'a table" where
  "table_of xs = \<lparr>slots = Some xs, used = length xs\<rparr>"

definition sample_service :: "nat \<Rightarrow> string \<Rightarrow> service" where
  "sample_service c s = \<lparr>srv_conn = Some c, srv_name = Some s, srv_objects = table_of
     [\<lparr>obj_path = Some ''/o'', obj_interfaces = table_of
       [\<lparr>if_name = Some ''i'', if_methods = table_of
         [\<lparr>meth_name = Some ''m'', meth_args = 1, meth_handler = Some 64, meth_data = None\<rparr>]\<rparr>]\<rparr>]\<rparr>"

definition sample_registry :: "service list \<Rightarrow> registry" where
  "sample_registry ss = \<lparr>ctx_bustype = 1, ctx_timeout = 30, ctx_selinux = False, ctx_services = table_of ss,
     ctx_array = 1\<rparr>"

definition sample_bus :: "nat list \<Rightarrow> bus" where
  "sample_bus cs = \<lparr>bus_answers = [No_conn, Conn 9 True], bus_filter_ok = \<lambda>_. True,
     bus_request_name = \<lambda>_ _. PRIMARY_OWNER, bus_log = concat (map (\<lambda>c. [Opened c, Attached c]) cs)\<rparr>"

lemma entries_table_of [simp]: "entries (table_of xs) = xs"
  by (simp add: entries_def table_of_def)

lemma used_table_of [simp]: "used (table_of xs) = length xs"
  by (simp add: table_of_def)

lemma slots_table_of [simp]: "slots (table_of xs) = Some xs"
  by (simp add: table_of_def)

lemma sample_service_ok: "service_ok 1 (sample_service c s)"
  by (auto simp: sample_service_def ok_defs pre_defs table_wf_def lookup_def split: if_splits)

lemma sample_registry_ok: "registry_ok 2 (sample_registry [sample_service 3 ''a'', sample_service 4 ''b''])"
  "registry_ok 2 (sample_registry [sample_service 3 ''a''])" "registry_ok 2 (sample_registry [])"
  using sample_service_ok [THEN ok_mono(3), of 2]
  by (auto simp: sample_registry_def registry_ok_def table_wf_def lookup_def sample_service_def split: if_splits)

lemma sample_balanced: "balanced (bus_log (sample_bus [3, 4])) (live (ctx_services (sample_registry [sample_service 3 ''a'', sample_service 4 ''b''])))"
  "balanced (bus_log (sample_bus [3])) (live (ctx_services (sample_registry [sample_service 3 ''a''])))"
  "balanced (bus_log (sample_bus [])) (live (ctx_services (sample_registry [])))"
  by (simp_all add: balanced_def sample_bus_def held_def live_def sample_registry_def sample_service_def conn_of_def)

lemma sample_offers:
  "offers (sample_registry (sample_service c s # ss)) s p i m
     = (if p = ''/o'' \<and> i = ''i'' \<and> m = ''m'' then Some (1, Some 64, None) else None)"
  by (simp add: offers_def sample_registry_def lookup_def sample_service_def offers_defs offer_of_def)

lemma sample_last: "last_offer (sample_registry (sample_service c s # ss)) s ''/o'' ''i'' ''m''"
  by (simp add: last_offer_def sample_offers)

theorem add_method_refines_witness:
  "\<exists>ctx' bus'. oddjob_dbus_listeners_add_method (\<lambda>_. True) (sample_registry []) ''a'' ''/o'' ''i'' ''m'' 1 (Some 64) None
     (sample_bus []) = Inr (True, ctx', bus') \<and> registry_ok 3 ctx' \<and> offers ctx' ''a'' ''/o'' ''i'' ''m'' = Some (1, Some 64, None)"
proof -
  have nf: "nul_free ''a''" "nul_free ''/o''" "nul_free ''i''" "nul_free ''m''"
    by (simp_all add: nul_free_def NUL_def)
  have "can_connect (sample_bus []) ''a''" "reached (sample_bus []) \<noteq> None"
    by (simp_all add: can_connect_def reached_def sample_bus_def)
  with add_method_refines [OF _ sample_registry_ok(3) _ nf sample_balanced(3),
      of "\<lambda>_. True" 1 "Some 64" None]
  show ?thesis
    by (cases "oddjob_dbus_listeners_add_method (\<lambda>_. True) (sample_registry []) ''a'' ''/o'' ''i'' ''m'' 1 (Some 64) None (sample_bus [])")
       auto
qed

theorem remove_method_refines_witness:
  "\<exists>ctx' bus'. oddjob_dbus_listeners_remove_method (\<lambda>_. True) (sample_registry [sample_service 3 ''a'']) ''a'' ''/o'' ''i'' ''m''
     (sample_bus [3]) = Inr (ctx', bus') \<and> offers ctx' ''a'' ''/o'' ''i'' ''m'' = None \<and> live (ctx_services ctx') = {#}"
proof -
  have "used (ctx_services (sample_registry [sample_service 3 ''a''])) = 1" by (simp add: sample_registry_def)
  then show ?thesis
    using remove_method_refines [OF _ sample_registry_ok(2) sample_balanced(2), of "\<lambda>_. True" "''a''" "''/o''" "''i''" "''m''"]
      sample_last [of 3 "''a''" "[]"] by auto
qed

theorem remove_last_offer_faults_witness:
  "oddjob_dbus_listeners_remove_method (\<lambda>_. True) (sample_registry [sample_service 3 ''a'', sample_service 4 ''b''])
     ''a'' ''/o'' ''i'' ''m'' (sample_bus [3, 4]) = Inl Use_after_free"
proof -
  let ?ctx = "sample_registry [sample_service 3 ''a'', sample_service 4 ''b'']"
  have "1 < used (ctx_services ?ctx)" "0 < used (ctx_services ?ctx)" "srv_name (entries (ctx_services ?ctx) ! 0) = Some ''a''"
    by (simp_all add: sample_registry_def sample_service_def)
  from remove_last_offer_faults [OF _ sample_registry_ok(1) sample_balanced(1) sample_last this, of "\<lambda>_. True"]
  show ?thesis by (simp add: sample_registry_def sample_service_def)
qed

theorem reconnect_keeps_registry_witness:
  "(case oddjob_dbus_listeners_reconnect_if_needed (sample_registry [sample_service 3 ''a'']) (\<lambda>_. False) (sample_bus [3]) of
      Inl e \<Rightarrow> unreached e
    | Inr (ctx', bus') \<Rightarrow> registry_ok 2 ctx' \<and> balanced (bus_log bus') (live (ctx_services ctx'))
        \<and> offers ctx' = offers (sample_registry [sample_service 3 ''a''])
        \<and> list_all2 (kept (\<lambda>_. False)) (entries (ctx_services (sample_registry [sample_service 3 ''a''])))
            (entries (ctx_services ctx'))
        \<and> (\<forall>lost. accounted (bus_log (sample_bus [3])) (ctx_services (sample_registry [sample_service 3 ''a''])) lost
             \<longrightarrow> accounted (bus_log bus') (ctx_services ctx') lost))"
  by (rule reconnect_keeps_registry [OF sample_registry_ok(2) sample_balanced(2)])

theorem listeners_free_releases_all_witness:
  "\<exists>bus'. oddjob_dbus_listeners_free (Some (sample_registry [sample_service 3 ''a''])) (sample_bus [3])
      = Inr bus' \<and> balanced (bus_log bus') {#}"
  using listeners_free_releases_all [OF sample_registry_ok(2) sample_balanced(2)] by auto

theorem connect_keeps_trying_witness:
  "\<exists>bus'. service_connect (sample_registry []) (sample_service 3 ''a'')
      ((sample_bus [])\<lparr>bus_answers := replicate 11 No_conn @ [Conn 8 False, Conn 9 True]\<rparr>)
    = Inr (True, (sample_service 3 ''a'')\<lparr>srv_conn := Some 9\<rparr>, bus') \<and> slept (bus_log bus') = replicate 10 5 @ [30, 30]"
proof -
  let ?bus = "(sample_bus [])\<lparr>bus_answers := replicate 11 No_conn @ [Conn 8 False, Conn 9 True]\<rparr>"
  have "bus_answers ?bus = (replicate 11 No_conn @ [Conn 8 False]) @ Conn 9 True # []"
    "list_all (\<lambda>a. \<not> is_up a) (replicate 11 No_conn @ [Conn 8 False])"
    "length (replicate 11 No_conn @ [Conn 8 False]) < 2 ^ 31"
    by (simp_all add: sample_bus_def list_all_iff)
  note connect_keeps_trying [OF this, of "sample_registry []" "sample_service 3 ''a''"]
  moreover have "bus_filter_ok ?bus 9" "bus_request_name ?bus 9 (srv_name (sample_service 3 ''a'')) = PRIMARY_OWNER"
    by (simp_all add: sample_bus_def)
  moreover have "pauses 30 12 = replicate 10 5 @ [30, 30]" by (simp add: pauses_def numeral_eq_Suc)
  moreover have "slept (bus_log ?bus) = []" "ctx_timeout (sample_registry []) = 30"
    by (simp_all add: sample_bus_def sample_registry_def)
  ultimately show ?thesis by auto
qed

end
