(* ===== verification/Message.thy ===== *)
theory Message
  imports Tables
begin

text \<open>
  The messages of src/oddjob_dbus.c: building one from a D-Bus message, duplicating and
  releasing it, its accessors. A D-Bus message is what libdbus reports of it; the references
  the code takes and drops are logged.
\<close>

section \<open>D-Bus messages\<close>

datatype msg_type = Method_call | Method_return | Signal | Error_message

datatype arg = Arg_string string | Arg_int32 int | Arg_bytes "char list option" | Arg_other

record dbus_msg =
  dm_type :: msg_type
  dm_sender :: "string option"
  dm_destination :: "string option"
  dm_path :: "string option"
  dm_interface :: "string option"
  dm_member :: "string option"
  dm_serial :: nat
  dm_args :: "arg list"

text \<open>The build option for access control by context, the kernel's answer and the bus's.\<close>

record acl =
  acl_built :: bool
  acl_enabled :: bool
  acl_reply :: "string \<Rightarrow> dbus_msg option"

datatype ref_event = Conn_ref nat | Conn_unref nat | Msg_ref | Msg_unref

record message =
  msg_conn :: "nat option"
  msg_msg :: "dbus_msg option"
  msg_result :: int
  msg_args :: "string option table"
  msg_context :: "string option"

section \<open>Building and releasing\<close>

text \<open>The first argument of the reply decides; a byte array is copied up to its first NUL.\<close>

definition oddjob_dbus_get_selinux_context :: "avail \<Rightarrow> acl \<Rightarrow> string \<Rightarrow> string option res" where
  "oddjob_dbus_get_selinux_context mem a sender =
     (if \<not> acl_built a \<or> \<not> acl_enabled a then Inr None
      else (case acl_reply a sender of
          None \<Rightarrow> Inr None
        | Some reply \<Rightarrow> (case dm_args reply of
              Arg_bytes (Some bs) # _ \<Rightarrow>
                res_bind (oddjob_strndup mem bs (int (length bs))) (\<lambda>r.
                res_bind (obj_cstr r) (\<lambda>s. Inr (Some s)))
            | _ \<Rightarrow> Inr None)))"

definition oddjob_dbus_message_set_selinux_context ::
  "avail \<Rightarrow> string option \<Rightarrow> message \<Rightarrow> message res" where
  "oddjob_dbus_message_set_selinux_context mem context_str msg = (case context_str of
       None \<Rightarrow> Inr (msg\<lparr>msg_context := None\<rparr>)
     | Some s \<Rightarrow> res_bind (dup_str mem s) (\<lambda>c. Inr (msg\<lparr>msg_context := Some c\<rparr>)))"

text \<open>The loop over the arguments keeps the strings.\<close>

fun keep_strings :: "avail \<Rightarrow> arg list \<Rightarrow> string option table \<Rightarrow> string option table res" where
  "keep_strings mem [] t = Inr t"
| "keep_strings mem (Arg_string s # as) t =
     res_bind (dup_str mem s) (\<lambda>copy.
     res_bind (grow_slot mem None 8 (Some copy) t) (\<lambda>t.
       keep_strings mem as (t\<lparr>used := used t + 1\<rparr>)))"
| "keep_strings mem (_ # as) t = keep_strings mem as t"

definition int_result :: "bool \<Rightarrow> arg list \<Rightarrow> int" where
  "int_result expect_an_int as = (case as of
       [] \<Rightarrow> 0
     | a # _ \<Rightarrow> if expect_an_int then (case a of Arg_int32 i \<Rightarrow> i | _ \<Rightarrow> - 1) else 0)"

definition oddjob_dbus_message_from_message ::
  "avail \<Rightarrow> acl \<Rightarrow> nat \<Rightarrow> dbus_msg option \<Rightarrow> bool \<Rightarrow> bool \<Rightarrow> (message \<times> ref_event list) res" where
  "oddjob_dbus_message_from_message mem a conn m expect_an_int get_selinux_context =
     res_bind (oddjob_malloc0 mem 40) (\<lambda>_.
       let msg = \<lparr>msg_conn = Some conn, msg_msg = m, msg_result = 0, msg_args = empty_table, msg_context = None\<rparr>
       in (case m of
            None \<Rightarrow> Inr (msg, [Conn_ref conn])
          | Some d \<Rightarrow>
              res_bind (keep_strings mem (dm_args d) empty_table) (\<lambda>t.
                let msg = msg\<lparr>msg_result := int_result expect_an_int (dm_args d), msg_args := t\<rparr>
                in res_bind (case dm_sender d of
                     None \<Rightarrow> Inr msg
                   | Some s \<Rightarrow>
                       res_bind (if get_selinux_context then oddjob_dbus_get_selinux_context mem a s else Inr None)
                         (\<lambda>c. oddjob_dbus_message_set_selinux_context mem c msg))
                   (\<lambda>msg. Inr (msg, [Conn_ref conn, Msg_ref])))))"

fun copy_args :: "avail \<Rightarrow> string option list option \<Rightarrow> nat \<Rightarrow> nat \<Rightarrow> string option list \<Rightarrow> string option list res" where
  "copy_args mem args i 0 new = Inr new"
| "copy_args mem args i (Suc n) new =
     res_bind (arr_get (elems args) i) (\<lambda>a. (case a of
         None \<Rightarrow> res_bind (arr_set new i None) (copy_args mem args (i + 1) n)
       | Some s \<Rightarrow> res_bind (dup_str mem s) (\<lambda>c.
                   res_bind (arr_set new i (Some c)) (copy_args mem args (i + 1) n))))"

definition oddjob_dbus_message_dup :: "avail \<Rightarrow> message \<Rightarrow> (message \<times> ref_event list) res" where
  "oddjob_dbus_message_dup mem input =
     res_bind (oddjob_malloc0 mem 40) (\<lambda>_.
     res_bind (oddjob_resize_array mem None 8 None 0 (used (msg_args input))) (\<lambda>arr.
     res_bind (copy_args mem (slots (msg_args input)) 0 (used (msg_args input)) (elems arr)) (\<lambda>xs.
       let msg = \<lparr>msg_conn = msg_conn input, msg_msg = msg_msg input, msg_result = msg_result input,
                  msg_args = \<lparr>slots = ptr_of xs, used = used (msg_args input)\<rparr>, msg_context = None\<rparr>;
           refs = (case msg_conn input of None \<Rightarrow> [] | Some c \<Rightarrow> [Conn_ref c])
                    @ (if msg_msg input = None then [] else [Msg_ref])
       in res_bind (case msg_context input of
              None \<Rightarrow> Inr msg
            | Some c \<Rightarrow> oddjob_dbus_message_set_selinux_context mem (Some c) msg)
            (\<lambda>msg. Inr (msg, refs)))))"

text \<open>\<open>oddjob_dbus_message_free\<close>: the strings released and the references dropped.\<close>

definition oddjob_dbus_message_free :: "message option \<Rightarrow> (string option list \<times> ref_event list) res" where
  "oddjob_dbus_message_free m = (case m of
       None \<Rightarrow> Inr ([], [])
     | Some msg \<Rightarrow>
         res_bind (case slots (msg_args msg) of
             None \<Rightarrow> Inr []
           | Some _ \<Rightarrow> release_slots (\<lambda>s. Inr [s]) (slots (msg_args msg)) 0 (used (msg_args msg)))
           (\<lambda>strings. Inr ([msg_context msg] @ strings,
              (if msg_msg msg = None then [] else [Msg_unref])
                @ (case msg_conn msg of None \<Rightarrow> [] | Some c \<Rightarrow> [Conn_unref c]))))"

section \<open>Accessors\<close>

definition oddjob_dbus_message_get_n_args :: "message \<Rightarrow> nat" where
  "oddjob_dbus_message_get_n_args msg = used (msg_args msg)"

definition oddjob_dbus_message_get_arg :: "message \<Rightarrow> int \<Rightarrow> string option res" where
  "oddjob_dbus_message_get_arg msg n =
     (if n \<ge> int (used (msg_args msg)) then Inr None
      else if n < 0 then Inl Out_of_bounds
      else arr_get (elems (slots (msg_args msg))) (nat n))"

definition oddjob_dbus_message_get_selinux_context :: "message \<Rightarrow> string option" where
  "oddjob_dbus_message_get_selinux_context msg = msg_context msg"

section \<open>What a message holds\<close>

text \<open>The string arguments of a message, in order.\<close>

definition strings_of :: "arg list \<Rightarrow> string list" where
  "strings_of as = concat (map (\<lambda>a. case a of Arg_string s \<Rightarrow> [s] | _ \<Rightarrow> []) as)"

definition args_ok :: "message \<Rightarrow> string list \<Rightarrow> bool" where
  "args_ok msg ss \<longleftrightarrow> used (msg_args msg) = length ss \<and> elems (slots (msg_args msg)) = map Some ss"

lemma keep_strings_ok:
  "\<forall>n. mem n \<Longrightarrow> elems (slots t) = map Some ss \<Longrightarrow> used t = length ss \<Longrightarrow>
   \<forall>s \<in> set (strings_of as). nul_free s \<Longrightarrow> length ss + length (strings_of as) \<le> 0xffff \<Longrightarrow>
   \<exists>t'. keep_strings mem as t = Inr t' \<and> used t' = length (ss @ strings_of as)
     \<and> elems (slots t') = map Some (ss @ strings_of as)"
proof (induction mem as t arbitrary: ss rule: keep_strings.induct)
  case (2 mem s as t)
  have "oddjob_resize_array mem None 8 (slots t) (used t) (used t + 1) = Inr (Some (map Some ss @ [None]))"
    using 2 by (subst resize_array_grow) (auto simp: strings_of_def)
  then have g: "grow_slot mem None 8 (Some s) t = Inr (t\<lparr>slots := Some (map Some (ss @ [s]))\<rparr>)"
    using 2 arr_set_append_None [of "map Some ss" None "[]" "Some s"] by (simp add: grow_slot_def)
  have d: "dup_str mem s = Inr s" using 2 by (simp add: dup_str_eq strings_of_def)
  let ?t = "t\<lparr>slots := Some (map Some (ss @ [s]))\<rparr>"
  have "strings_of (Arg_string s # as) = s # strings_of as" by (simp add: strings_of_def)
  moreover have "\<exists>t'. keep_strings mem as (?t\<lparr>used := used ?t + 1\<rparr>) = Inr t'
      \<and> used t' = length ((ss @ [s]) @ strings_of as) \<and> elems (slots t') = map Some ((ss @ [s]) @ strings_of as)"
    using 2(2-) by (intro 2(1)) (auto simp: strings_of_def)
  ultimately show ?case using g d by simp
qed (auto simp: strings_of_def)

text \<open>
  The context a message keeps: with access control by context, what the bus answers for the sender.
  A context that fits an \<open>int\<close> with its NUL is copied without overflow (libdbus limits arrays to 64 MiB).
\<close>

definition caller_context :: "acl \<Rightarrow> string \<Rightarrow> string option" where
  "caller_context a sender =
     (if \<not> acl_built a \<or> \<not> acl_enabled a then None
      else (case acl_reply a sender of
          None \<Rightarrow> None
        | Some reply \<Rightarrow> (case dm_args reply of Arg_bytes (Some bs) # _ \<Rightarrow> Some (cstr bs) | _ \<Rightarrow> None)))"

definition kept_context :: "acl \<Rightarrow> bool \<Rightarrow> dbus_msg \<Rightarrow> string option" where
  "kept_context a wanted d =
     (if wanted then (case dm_sender d of None \<Rightarrow> None | Some s \<Rightarrow> caller_context a s) else None)"

fun array_fits :: "arg list \<Rightarrow> bool" where
  "array_fits (Arg_bytes (Some bs) # _) = (int (length bs) < INT_MAX)"
| "array_fits _ = True"

definition context_fits :: "acl \<Rightarrow> bool \<Rightarrow> string option \<Rightarrow> bool" where
  "context_fits a wanted sender \<longleftrightarrow> \<not> wanted
     \<or> (case sender of None \<Rightarrow> True | Some s \<Rightarrow>
          (case acl_reply a s of None \<Rightarrow> True | Some reply \<Rightarrow> array_fits (dm_args reply)))"

lemma context_fits_unwanted [simp]: "context_fits a False sender" "kept_context a False d = None"
  by (simp_all add: context_fits_def kept_context_def)

lemma get_selinux_context_text:
  assumes "\<forall>n. mem n" "case acl_reply a s of None \<Rightarrow> True | Some reply \<Rightarrow> array_fits (dm_args reply)"
  shows "oddjob_dbus_get_selinux_context mem a s = Inr (caller_context a s)"
  using assms(2) strndup_text [OF assms(1)]
  by (auto simp: oddjob_dbus_get_selinux_context_def caller_context_def res_simps
      split: option.splits list.splits arg.splits)

lemma caller_context_nul_free: "caller_context a s = Some t \<Longrightarrow> nul_free t"
  by (auto simp: caller_context_def split: if_splits option.splits list.splits arg.splits)

lemma keep_context:
  assumes "\<forall>n. mem n" "context_fits a wanted (dm_sender d)" "dm_sender d = Some s"
  shows "res_bind (if wanted then oddjob_dbus_get_selinux_context mem a s else Inr None)
      (\<lambda>c. oddjob_dbus_message_set_selinux_context mem c msg) = Inr (msg\<lparr>msg_context := kept_context a wanted d\<rparr>)"
proof (cases "wanted \<and> caller_context a s \<noteq> None")
  case True
  then obtain t where "caller_context a s = Some t" by blast
  moreover from this have "dup_str mem t = Inr t" using assms(1) caller_context_nul_free by (simp add: dup_str_eq)
  ultimately show ?thesis
    using True assms(2,3) get_selinux_context_text [OF assms(1), of a s]
    by (simp add: context_fits_def kept_context_def oddjob_dbus_message_set_selinux_context_def)
next
  case False
  then show ?thesis
    using assms(2,3) get_selinux_context_text [OF assms(1), of a s]
    by (auto simp: context_fits_def kept_context_def oddjob_dbus_message_set_selinux_context_def)
qed

text \<open>Dropping what was taken.\<close>

fun undo :: "ref_event \<Rightarrow> ref_event" where
  "undo (Conn_ref c) = Conn_unref c"
| "undo (Conn_unref c) = Conn_ref c"
| "undo Msg_ref = Msg_unref"
| "undo Msg_unref = Msg_ref"

lemma get_arg_args_ok:
  assumes "args_ok msg ss"
  shows "oddjob_dbus_message_get_n_args msg = length ss"
    "oddjob_dbus_message_get_arg msg (int i) = Inr (if i < length ss then Some (ss ! i) else None)"
  using assms
  by (simp_all add: args_ok_def oddjob_dbus_message_get_n_args_def oddjob_dbus_message_get_arg_def arr_get_def)

lemma free_args_ok:
  assumes "args_ok msg ss"
  shows "\<exists>strings. oddjob_dbus_message_free (Some msg) = Inr ([msg_context msg] @ strings,
      (if msg_msg msg = None then [] else [Msg_unref])
        @ (case msg_conn msg of None \<Rightarrow> [] | Some c \<Rightarrow> [Conn_unref c])) \<and> strings = map Some ss"
proof (cases "slots (msg_args msg)")
  case None
  with assms show ?thesis by (simp add: args_ok_def oddjob_dbus_message_free_def)
next
  case (Some xs)
  have e: "entries (msg_args msg) = map Some ss" using assms by (simp add: args_ok_def entries_def)
  have "release_slots (\<lambda>s. Inr [s]) (slots (msg_args msg)) 0 (used (msg_args msg))
      = Inr (concat (map (\<lambda>s. [s]) (entries (msg_args msg))))"
    using assms by (intro release_slots_entries) (simp_all add: args_ok_def)
  with Some e show ?thesis by (simp add: oddjob_dbus_message_free_def comp_def)
qed

lemma message_from_message_content:
  assumes "\<forall>n. mem n" "\<forall>s \<in> set (strings_of (dm_args d)). nul_free s" "length (strings_of (dm_args d)) \<le> 0xffff"
    "context_fits a wanted (dm_sender d)"
  shows "\<exists>msg refs strings drops. oddjob_dbus_message_from_message mem a conn (Some d) e wanted = Inr (msg, refs)
    \<and> oddjob_dbus_message_get_n_args msg = length (strings_of (dm_args d))
    \<and> (\<forall>i. oddjob_dbus_message_get_arg msg (int i)
         = Inr (if i < length (strings_of (dm_args d)) then Some (strings_of (dm_args d) ! i) else None))
    \<and> msg_result msg = int_result e (dm_args d) \<and> msg_msg msg = Some d
    \<and> oddjob_dbus_message_get_selinux_context msg = kept_context a wanted d
    \<and> oddjob_dbus_message_free (Some msg) = Inr (strings, drops)
    \<and> strings = kept_context a wanted d # map Some (strings_of (dm_args d))
    \<and> set drops = undo ` set refs \<and> length drops = length refs"
proof -
  obtain t where t: "keep_strings mem (dm_args d) empty_table = Inr t" "used t = length (strings_of (dm_args d))"
    "elems (slots t) = map Some (strings_of (dm_args d))"
    using keep_strings_ok [OF assms(1), of empty_table "[]" "dm_args d"] assms(2,3)
    by (auto simp: empty_table_def)
  let ?msg = "\<lparr>msg_conn = Some conn, msg_msg = Some d, msg_result = int_result e (dm_args d),
    msg_args = t, msg_context = kept_context a wanted d\<rparr>"
  have "dm_sender d = None \<Longrightarrow> kept_context a wanted d = None" by (simp add: kept_context_def)
  then have "oddjob_dbus_message_from_message mem a conn (Some d) e wanted = Inr (?msg, [Conn_ref conn, Msg_ref])"
    using assms(1) t(1) keep_context [where mem = mem, OF _ assms(4)]
    by (cases "dm_sender d")
      (simp_all add: oddjob_dbus_message_from_message_def oddjob_malloc0_eq Let_def)
  moreover have ok: "args_ok ?msg (strings_of (dm_args d))" using t by (simp add: args_ok_def)
  ultimately show ?thesis
    using get_arg_args_ok [OF ok] free_args_ok [OF ok]
    by (auto simp: oddjob_dbus_message_get_selinux_context_def)
qed

text \<open>
  C27. A message object made from a D-Bus message has exactly the string arguments in their
  order; if an integer is expected its result is the first argument, -1 if that is no 32-bit
  integer and 0 if there is none; it has the SELinux context the bus tells of the caller, up to
  its first NUL, if it is wanted; releasing it releases each string once and drops each
  reference taken.
\<close>

theorem message_from_message_args:
  assumes "\<forall>n. mem n" "\<forall>s \<in> set (strings_of (dm_args d)). nul_free s" "length (strings_of (dm_args d)) \<le> 0xffff"
    "context_fits a wanted (dm_sender d)"
  shows "\<exists>msg refs strings drops. oddjob_dbus_message_from_message mem a conn (Some d) e wanted = Inr (msg, refs)
    \<and> oddjob_dbus_message_get_n_args msg = length (strings_of (dm_args d))
    \<and> (\<forall>i. oddjob_dbus_message_get_arg msg (int i)
         = Inr (if i < length (strings_of (dm_args d)) then Some (strings_of (dm_args d) ! i) else None))
    \<and> msg_result msg = (if e then (case dm_args d of [] \<Rightarrow> 0 | Arg_int32 i # _ \<Rightarrow> i | _ # _ \<Rightarrow> - 1) else 0)
    \<and> msg_msg msg = Some d
    \<and> oddjob_dbus_message_get_selinux_context msg = kept_context a wanted d
    \<and> oddjob_dbus_message_free (Some msg) = Inr (strings, drops)
    \<and> strings = kept_context a wanted d # map Some (strings_of (dm_args d))
    \<and> set drops = undo ` set refs \<and> length drops = length refs"
proof -
  have "int_result e (dm_args d) = (if e then (case dm_args d of [] \<Rightarrow> 0 | Arg_int32 i # _ \<Rightarrow> i | _ # _ \<Rightarrow> - 1) else 0)"
    by (auto simp: int_result_def split: list.split arg.split)
  then show ?thesis using message_from_message_content [OF assms, of conn e] by simp
qed

definition sample_call :: dbus_msg where
  "sample_call = \<lparr>dm_type = Method_call, dm_sender = Some '':1.7'', dm_destination = Some ''a'',
     dm_path = Some ''/o'', dm_interface = Some ''i'', dm_member = Some ''m'', dm_serial = 1,
     dm_args = [Arg_string ''x'', Arg_int32 7, Arg_string ''y'']\<rparr>"

definition no_acl :: acl where
  "no_acl = \<lparr>acl_built = False, acl_enabled = False, acl_reply = \<lambda>_. None\<rparr>"

text \<open>The bus answers for the caller with a context of eight bytes and its NUL.\<close>

definition sample_acl :: acl where
  "sample_acl = \<lparr>acl_built = True, acl_enabled = True,
     acl_reply = \<lambda>_. Some (sample_call\<lparr>dm_type := Method_return, dm_args := [Arg_bytes (Some (''user_u:r'' @ [NUL]))]\<rparr>)\<rparr>"

definition numbered_call :: dbus_msg where
  "numbered_call = sample_call\<lparr>dm_args := [Arg_int32 7, Arg_string ''x'', Arg_string ''y'']\<rparr>"

theorem message_from_message_args_witness:
  "\<exists>msg refs. oddjob_dbus_message_from_message (\<lambda>_. True) sample_acl 3 (Some numbered_call) True True = Inr (msg, refs)
    \<and> msg_result msg = 7
    \<and> oddjob_dbus_message_get_arg msg 1 = Inr (Some ''y'') \<and> oddjob_dbus_message_get_arg msg 2 = Inr None
    \<and> oddjob_dbus_message_get_selinux_context msg = Some ''user_u:r''"
proof -
  have s: "strings_of (dm_args numbered_call) = [''x'', ''y'']" "dm_args numbered_call = [Arg_int32 7, Arg_string ''x'', Arg_string ''y'']"
    by (simp_all add: strings_of_def numbered_call_def)
  have c: "context_fits sample_acl True (dm_sender numbered_call)" "kept_context sample_acl True numbered_call = Some ''user_u:r''"
    by (simp_all add: context_fits_def kept_context_def caller_context_def sample_acl_def sample_call_def numbered_call_def
        INT_MAX_def cstr_def NUL_def)
  obtain msg refs where m: "oddjob_dbus_message_from_message (\<lambda>_. True) sample_acl 3 (Some numbered_call) True True = Inr (msg, refs)"
    "\<forall>i. oddjob_dbus_message_get_arg msg (int i) = Inr (if i < 2 then Some ([''x'', ''y''] ! i) else None)"
    "msg_result msg = 7" "oddjob_dbus_message_get_selinux_context msg = Some ''user_u:r''"
    using message_from_message_args [OF _ _ _ c(1), of "\<lambda>_. True" 3 True] s c(2) by (auto simp: nul_free_def NUL_def)
  from m(2) [rule_format, of 1] m(2) [rule_format, of 2] have
    "oddjob_dbus_message_get_arg msg 1 = Inr (Some ''y'')" "oddjob_dbus_message_get_arg msg 2 = Inr None" by simp_all
  with m(1,3,4) show ?thesis by blast
qed

lemma copy_args_ok:
  "\<forall>n. mem n \<Longrightarrow> elems args = map Some ss \<Longrightarrow> \<forall>s \<in> set ss. nul_free s \<Longrightarrow> i + n = length ss \<Longrightarrow>
   length new = length ss \<Longrightarrow> take i new = map Some (take i ss) \<Longrightarrow>
   copy_args mem args i n new = Inr (map Some ss)"
proof (induction n arbitrary: i new)
  case (Suc n)
  have "arr_get (elems args) i = Inr (Some (ss ! i))" using Suc.prems by (simp add: arr_get_def)
  moreover have "dup_str mem (ss ! i) = Inr (ss ! i)" using Suc.prems by (simp add: dup_str_eq)
  moreover have "take (Suc i) (new[i := Some (ss ! i)]) = map Some (take (Suc i) ss)"
    using Suc.prems by (simp add: take_Suc_conv_app_nth)
  moreover have "copy_args mem args (Suc i) n (new[i := Some (ss ! i)]) = Inr (map Some ss)"
    using Suc.prems calculation(3) by (intro Suc.IH) simp_all
  moreover have "i < length new" using Suc.prems by simp
  ultimately show ?case using Suc.prems(2) by (simp add: arr_set_def)
qed simp

text \<open>
  A duplicated message answers every accessor as the original does, and releasing it drops
  exactly the references it took.
\<close>

theorem message_dup_equal:
  assumes "\<forall>n. mem n" "args_ok msg ss" "\<forall>s \<in> set ss. nul_free s" "length ss \<le> 0xffff"
    "\<forall>c. msg_context msg = Some c \<longrightarrow> nul_free c"
  shows "\<exists>copy refs. oddjob_dbus_message_dup mem msg = Inr (copy, refs)
    \<and> (\<forall>i. oddjob_dbus_message_get_arg copy (int i) = oddjob_dbus_message_get_arg msg (int i))
    \<and> oddjob_dbus_message_get_n_args copy = oddjob_dbus_message_get_n_args msg
    \<and> msg_result copy = msg_result msg \<and> msg_msg copy = msg_msg msg \<and> msg_conn copy = msg_conn msg
    \<and> oddjob_dbus_message_get_selinux_context copy = oddjob_dbus_message_get_selinux_context msg
    \<and> (\<exists>strings drops. oddjob_dbus_message_free (Some copy) = Inr (strings, drops)
          \<and> set drops = undo ` set refs \<and> length drops = length refs)"
proof -
  have n: "used (msg_args msg) = length ss" using assms(2) by (simp add: args_ok_def)
  obtain arr where arr: "oddjob_resize_array mem (None :: string option) 8 None 0 (length ss) = Inr arr"
    "length (elems arr) = length ss"
    using resize_array_result [OF assms(1), of 8 "length ss" 0 None "None :: string option"] assms(4)
    by (cases "oddjob_resize_array mem (None :: string option) 8 None 0 (length ss)") auto
  have copy: "copy_args mem (slots (msg_args msg)) 0 (length ss) (elems arr) = Inr (map Some ss)"
    using assms(1-3) arr(2) by (intro copy_args_ok) (auto simp: args_ok_def)
  let ?copy = "\<lparr>msg_conn = msg_conn msg, msg_msg = msg_msg msg, msg_result = msg_result msg,
    msg_args = \<lparr>slots = ptr_of (map Some ss), used = length ss\<rparr>, msg_context = msg_context msg\<rparr>"
  let ?refs = "(case msg_conn msg of None \<Rightarrow> [] | Some c \<Rightarrow> [Conn_ref c]) @ (if msg_msg msg = None then [] else [Msg_ref])"
  have "oddjob_dbus_message_dup mem msg = Inr (?copy, ?refs)"
    using assms(1,5) n arr(1) copy
    by (auto simp: oddjob_dbus_message_dup_def oddjob_malloc0_eq Let_def dup_str_eq
        oddjob_dbus_message_set_selinux_context_def split: option.split)
  moreover have ok: "args_ok ?copy ss" by (simp add: args_ok_def)
  ultimately show ?thesis
    using get_arg_args_ok [OF ok] get_arg_args_ok [OF assms(2)] free_args_ok [OF ok]
    by (auto simp: oddjob_dbus_message_get_selinux_context_def split: option.split)
qed

definition sample_message :: message where
  "sample_message = \<lparr>msg_conn = Some 3, msg_msg = Some sample_call, msg_result = 0,
     msg_args = \<lparr>slots = Some [Some ''x'', Some ''y''], used = 2\<rparr>, msg_context = Some ''c''\<rparr>"

theorem message_dup_equal_witness:
  "\<exists>copy refs. oddjob_dbus_message_dup (\<lambda>_. True) sample_message = Inr (copy, refs)
    \<and> oddjob_dbus_message_get_n_args copy = 2 \<and> oddjob_dbus_message_get_selinux_context copy = Some ''c''"
proof -
  have "args_ok sample_message [''x'', ''y'']" by (simp add: args_ok_def sample_message_def)
  then show ?thesis
    using message_dup_equal [of "\<lambda>_. True" sample_message "[''x'', ''y'']"]
    by (auto simp: nul_free_def NUL_def sample_message_def oddjob_dbus_message_get_n_args_def
        oddjob_dbus_message_get_selinux_context_def)
qed

lemma keep_strings_value:
  "keep_strings mem as t = Inr t' \<Longrightarrow> \<forall>s \<in> set (strings_of as). nul_free s \<Longrightarrow>
   elems (slots t) = map Some ss \<Longrightarrow> used t = length ss \<Longrightarrow>
   used t' = length (ss @ strings_of as) \<and> elems (slots t') = map Some (ss @ strings_of as)"
proof (induction mem as t arbitrary: ss rule: keep_strings.induct)
  case (2 mem s as t)
  obtain copy t1 where c: "dup_str mem s = Inr copy" "grow_slot mem None 8 (Some copy) t = Inr t1"
    "keep_strings mem as (t1\<lparr>used := used t1 + 1\<rparr>) = Inr t'"
    using "2.prems"(1) by (auto simp: res_simps)
  have as: "strings_of (Arg_string s # as) = s # strings_of as" by (simp add: strings_of_def)
  then have copy: "copy = s" using c(1) "2.prems"(2) dup_str_value by simp
  obtain arr where arr: "oddjob_resize_array mem None 8 (slots t) (length ss) (Suc (length ss)) = Inr arr"
    using c(2) "2.prems"(4) by (auto simp: grow_slot_def res_simps)
  then have "arr = Some (map Some ss @ [None])"
    using resize_array_more_memory [OF arr] resize_array_grow [of "\<lambda>_. True" 8 "length ss" "Suc (length ss)" "slots t" None]
      "2.prems"(3) by simp
  then have t1: "t1 = t\<lparr>slots := Some (map Some (ss @ [s]))\<rparr>"
    using c(2) arr copy "2.prems"(4) arr_set_append_None [of "map Some ss" None "[]" "Some s"]
    by (simp add: grow_slot_def)
  show ?case
    using "2.IH" [OF c(3), of "ss @ [s]"] "2.prems"(2,4) t1 as by simp
qed (auto simp: strings_of_def)

lemma from_message_args_ok:
  assumes "\<forall>s \<in> set (strings_of (dm_args d)). nul_free s"
    and "oddjob_dbus_message_from_message mem a conn (Some d) e c = Inr (msg, refs)"
  shows "args_ok msg (strings_of (dm_args d))"
proof -
  obtain t where t: "keep_strings mem (dm_args d) empty_table = Inr t"
    using assms(2) by (auto simp: oddjob_dbus_message_from_message_def Let_def res_simps)
  then have "msg_args msg = t"
    using assms(2)
    by (auto simp: oddjob_dbus_message_from_message_def Let_def res_simps
        oddjob_dbus_message_set_selinux_context_def split: option.splits if_splits)
  with keep_strings_value [OF t assms(1), of "[]"] show ?thesis
    by (simp add: args_ok_def empty_table_def)
qed

end
