(* ===== verification/Dispatch.thy ===== *)
theory Dispatch
  imports Registry Message "HOL-Library.Word"
begin

text \<open>
  The dispatcher of src/oddjob_dbus.c: \<open>oddjob_dbus_filter\<close> decides for every message that
  arrives on a connection whether it is a call for one of the registered methods, answers with
  an error, or calls the handler. Matching of object patterns, the bus daemon's answer about the
  sender and the password database are parameters.
\<close>

section \<open>Environment and results\<close>

text \<open>
  An \<open>unsigned long\<close> has 64 bits and a \<open>uid_t\<close> 32. libdbus tells the uid of a sender as the former,
  all ones if it could not be told, and \<open>getpwuid\<close> takes the latter.
\<close>

type_synonym unsigned_long = "64 word"
type_synonym uid_t = "32 word"

record env =
  env_fnmatch :: "string \<Rightarrow> string \<Rightarrow> bool"
  env_unix_user :: "nat \<Rightarrow> string \<Rightarrow> unsigned_long"
  env_getpwuid :: "uid_t \<Rightarrow> (string \<times> uid_t) option"
  env_acl :: acl

datatype error_name =
    Unknown_sender | No_object | No_interface | No_method | Unimplemented_method
  | Unknown_user | Invalid_call

record call =
  call_handler :: nat
  call_args :: "string option list"
  call_service :: "string option"
  call_path :: string
  call_interface :: "string option"
  call_member :: string
  call_user :: string
  call_uid :: unsigned_long
  call_data :: "nat option"

datatype reaction = Not_yet_handled | Replied error_name string | Called call

section \<open>Finding the interface by the method alone\<close>

text \<open>
  The inner loop over the methods of the interface at index \<open>i\<close>: \<open>None\<close> is the early return for
  an ambiguous name, otherwise the match so far.
\<close>

fun guess_in ::
  "string \<Rightarrow> nat \<Rightarrow> reg_method list option \<Rightarrow> nat \<Rightarrow> nat \<Rightarrow> nat option \<Rightarrow> nat option option res" where
  "guess_in m i arr j 0 found = Inr (Some found)"
| "guess_in m i arr j (Suc n) found =
     res_bind (arr_get (elems arr) j) (\<lambda>x. (case meth_name x of
         None \<Rightarrow> Inl Null_deref
       | Some s \<Rightarrow>
           if s = m then (if found \<noteq> None then Inr None else guess_in m i arr (j + 1) n (Some i))
           else guess_in m i arr (j + 1) n found))"

fun guess_from ::
  "string \<Rightarrow> reg_interface list option \<Rightarrow> nat \<Rightarrow> nat \<Rightarrow> nat option \<Rightarrow> nat option option res" where
  "guess_from m arr i 0 found = Inr (Some found)"
| "guess_from m arr i (Suc n) found =
     res_bind (arr_get (elems arr) i) (\<lambda>x.
     res_bind (guess_in m i (slots (if_methods x)) 0 (used (if_methods x)) found) (\<lambda>r. (case r of
         None \<Rightarrow> Inr None
       | Some found \<Rightarrow> guess_from m arr (i + 1) n found)))"

definition guess_interface :: "reg_object \<Rightarrow> string \<Rightarrow> nat option res" where
  "guess_interface obj m =
     res_bind (guess_from m (slots (obj_interfaces obj)) 0 (used (obj_interfaces obj)) None)
       (\<lambda>r. Inr (case r of None \<Rightarrow> None | Some found \<Rightarrow> found))"

section \<open>The filter\<close>

text \<open>
  The first loop: \<open>srv\<close> is the service of the connection; without one it is the last service
  looked at, or NULL if there is none, and the check after the loop never holds.
\<close>

definition receiving_service :: "registry \<Rightarrow> nat \<Rightarrow> service option option res" where
  "receiving_service ctx conn =
     (let t = ctx_services ctx
      in res_bind (find_slot (\<lambda>srv. Inr (srv_conn srv = Some conn)) (slots t) 0 (used t)) (\<lambda>i.
           if i > used t then Inr None
           else if used t = 0 then Inr (Some None)
           else res_bind (arr_get (elems (slots t)) (if i < used t then i else used t - 1))
                  (\<lambda>srv. Inr (Some (Some srv)))))"

definition oddjob_dbus_message_has_path :: "dbus_msg \<Rightarrow> string \<Rightarrow> bool" where
  "oddjob_dbus_message_has_path d path \<longleftrightarrow> dm_path d = Some path"

definition is_signal :: "dbus_msg \<Rightarrow> string \<Rightarrow> string \<Rightarrow> bool" where
  "is_signal d interface member \<longleftrightarrow>
     dm_type d = Signal \<and> dm_interface d = Some interface \<and> dm_member d = Some member"

definition is_disconnect :: "registry \<Rightarrow> dbus_msg \<Rightarrow> bool" where
  "is_disconnect ctx d \<longleftrightarrow> ctx_timeout ctx > 0 \<and>
     (dm_sender d = Some ''org.freedesktop.DBus''
        \<and> oddjob_dbus_message_has_path d ''/org/freedesktop/DBus''
        \<and> is_signal d ''org.freedesktop.DBus'' ''Disconnected''
      \<or> oddjob_dbus_message_has_path d ''/org/freedesktop/DBus/Local''
        \<and> is_signal d ''org.freedesktop.DBus.Local'' ''Disconnected'')"

definition strcmp_eq :: "string option \<Rightarrow> string \<Rightarrow> bool res" where
  "strcmp_eq a b = (case a of None \<Rightarrow> Inl Null_deref | Some s \<Rightarrow> Inr (s = b))"

definition reply_error :: "message \<Rightarrow> error_name \<Rightarrow> string \<Rightarrow> reaction res" where
  "reply_error msg name text =
     res_bind (oddjob_dbus_message_free (Some msg)) (\<lambda>_. Inr (Replied name text))"

text \<open>The last checks, for a method found in an interface.\<close>

definition call_method ::
  "env \<Rightarrow> nat \<Rightarrow> message \<Rightarrow> string \<Rightarrow> service \<Rightarrow> string \<Rightarrow> reg_interface \<Rightarrow> string \<Rightarrow> reg_method \<Rightarrow> reaction res"
where
  "call_method env conn msg sender srv path interface member meth = (case meth_handler meth of
       None \<Rightarrow> reply_error msg Unimplemented_method member
     | Some handler \<Rightarrow>
         let uid = env_unix_user env conn sender
         in (case env_getpwuid env (ucast uid) of
              None \<Rightarrow> reply_error msg Unknown_user (''UID='' @ show_nat (unat uid))
            | Some (pw_name, pw_uid) \<Rightarrow>
                if ucast pw_uid \<noteq> uid then reply_error msg Unknown_user (''UID='' @ show_nat (unat uid))
                else res_bind (find_slot (\<lambda>a. case a of None \<Rightarrow> Inl Null_deref
                         | Some s \<Rightarrow> Inr (list_ex (\<lambda>c. c = CR \<or> c = LF) s))
                       (slots (msg_args msg)) 0 (used (msg_args msg))) (\<lambda>j.
                  if j < used (msg_args msg) then reply_error msg Invalid_call ''invalid invocation''
                  else if int (used (msg_args msg)) \<noteq> meth_args meth
                  then reply_error msg Invalid_call
                         (''wrong number of arguments: expected '' @ show_int (meth_args meth)
                            @ '', called with '' @ show_nat (used (msg_args msg)))
                  else res_bind (oddjob_dbus_message_free (Some msg)) (\<lambda>_.
                         Inr (Called \<lparr>call_handler = handler, call_args = elems (slots (msg_args msg)),
                           call_service = srv_name srv, call_path = path, call_interface = if_name interface,
                           call_member = member, call_user = pw_name, call_uid = uid,
                           call_data = meth_data meth\<rparr>)))))"

definition dispatch_in_object ::
  "env \<Rightarrow> nat \<Rightarrow> message \<Rightarrow> string \<Rightarrow> service \<Rightarrow> string \<Rightarrow> string option \<Rightarrow> string \<Rightarrow> reg_object \<Rightarrow> reaction res"
where
  "dispatch_in_object env conn msg sender srv path iface member obj =
     (let t = obj_interfaces obj
      in res_bind (case iface of
             None \<Rightarrow> guess_interface obj member
           | Some name \<Rightarrow> res_bind (find_slot (\<lambda>x. strcmp_eq (if_name x) name) (slots t) 0 (used t))
                            (\<lambda>i. Inr (if i \<ge> used t then None else Some i))) (\<lambda>found. (case found of
           None \<Rightarrow> reply_error msg No_interface (case iface of None \<Rightarrow> '''' | Some name \<Rightarrow> name)
         | Some i \<Rightarrow> res_bind (arr_get (elems (slots t)) i) (\<lambda>interface.
             let ms = if_methods interface
             in res_bind (find_slot (\<lambda>x. strcmp_eq (meth_name x) member) (slots ms) 0 (used ms)) (\<lambda>k.
                  if k \<ge> used ms then reply_error msg No_method member
                  else res_bind (arr_get (elems (slots ms)) k)
                         (call_method env conn msg sender srv path interface member))))))"

definition dispatch_message ::
  "env \<Rightarrow> nat \<Rightarrow> message \<Rightarrow> string \<Rightarrow> service \<Rightarrow> string \<Rightarrow> string option \<Rightarrow> string \<Rightarrow> reaction res" where
  "dispatch_message env conn msg sender srv path iface member =
     (let t = srv_objects srv
      in res_bind (find_slot (\<lambda>x. case obj_path x of None \<Rightarrow> Inl Null_deref
                                | Some pattern \<Rightarrow> Inr (env_fnmatch env pattern path)) (slots t) 0 (used t)) (\<lambda>i.
           if i \<ge> used t then reply_error msg No_object path
           else res_bind (arr_get (elems (slots t)) i)
                  (dispatch_in_object env conn msg sender srv path iface member)))"

definition oddjob_dbus_filter ::
  "avail \<Rightarrow> env \<Rightarrow> registry \<Rightarrow> nat \<Rightarrow> dbus_msg \<Rightarrow> reaction res" where
  "oddjob_dbus_filter mem env ctx conn d =
     res_bind (receiving_service ctx conn) (\<lambda>r. (case r of
         None \<Rightarrow> Inr Not_yet_handled
       | Some srv \<Rightarrow>
           if is_disconnect ctx d then Inr Not_yet_handled
           else (case (dm_destination d, dm_path d, dm_member d) of
               (Some _, Some path, Some member) \<Rightarrow>
                 if dm_interface d \<noteq> None \<and> dm_type d \<noteq> Method_call then Inr Not_yet_handled
                 else res_bind (oddjob_dbus_message_from_message mem (env_acl env) conn (Some d) False (ctx_selinux ctx))
                   (\<lambda>(msg, _). (case dm_sender d of
                       None \<Rightarrow> Inl Uninitialised
                     | Some sender \<Rightarrow> (case srv of
                           None \<Rightarrow> Inl Null_deref
                         | Some srv \<Rightarrow> dispatch_message env conn msg sender srv path (dm_interface d) member)))
             | _ \<Rightarrow> Inr Not_yet_handled)))"

section \<open>The reference\<close>

text \<open>The interface that alone offers the method.\<close>

definition unique_interface :: "reg_object \<Rightarrow> string \<Rightarrow> reg_interface option" where
  "unique_interface obj m =
     (case filter (\<lambda>x. lookup meth_name (if_methods x) m \<noteq> None) (entries (obj_interfaces obj)) of
        [x] \<Rightarrow> Some x | _ \<Rightarrow> None)"

text \<open>
  The name of the account with a uid. \<open>getpwuid\<close> looks for the lower 32 bits, so its answer
  counts only if it has the whole uid.
\<close>

definition account_name :: "env \<Rightarrow> unsigned_long \<Rightarrow> string option" where
  "account_name env uid = (case env_getpwuid env (ucast uid) of
     None \<Rightarrow> None | Some (name, u) \<Rightarrow> if (ucast u :: unsigned_long) = uid then Some name else None)"

lemma account_name_uid_t:
  assumes "account_name env uid = Some name"
  shows "unat uid < 2 ^ 32"
proof -
  obtain u :: uid_t where "uid = ucast u"
    using assms by (auto simp: account_name_def split: option.splits if_splits)
  moreover have "take_bit 64 (unat u) < 2 ^ 32"
    using unsigned_less [of u] by (intro le_less_trans [OF take_bit_nat_less_eq_self]) simp
  ultimately show ?thesis by (simp add: unsigned_ucast_eq)
qed

lemma account_name_all_ones: "account_name env (- 1) = None"
proof (rule ccontr)
  assume "account_name env (- 1) \<noteq> None"
  then have "unat (- 1 :: unsigned_long) < 2 ^ 32" using account_name_uid_t by blast
  then show False by (simp add: unsigned_minus_1_eq_mask mask_eq_exp_minus_1)
qed

definition line_break :: "string \<Rightarrow> bool" where
  "line_break s \<longleftrightarrow> CR \<in> set s \<or> LF \<in> set s"

definition spec_call ::
  "env \<Rightarrow> nat \<Rightarrow> string list \<Rightarrow> string \<Rightarrow> service \<Rightarrow> string \<Rightarrow> reg_interface \<Rightarrow> string \<Rightarrow> reg_method \<Rightarrow> reaction"
where
  "spec_call env conn ss sender srv path interface member meth =
     (let uid = env_unix_user env conn sender
      in case meth_handler meth of
           None \<Rightarrow> Replied Unimplemented_method member
         | Some h \<Rightarrow>
             if account_name env uid = None then Replied Unknown_user (''UID='' @ show_nat (unat uid))
             else if \<exists>s \<in> set ss. line_break s then Replied Invalid_call ''invalid invocation''
             else if int (length ss) \<noteq> meth_args meth
             then Replied Invalid_call (''wrong number of arguments: expected '' @ show_int (meth_args meth)
                          @ '', called with '' @ show_nat (length ss))
             else Called \<lparr>call_handler = h, call_args = map Some ss, call_service = srv_name srv,
                    call_path = path, call_interface = if_name interface, call_member = member,
                    call_user = the (account_name env uid), call_uid = uid, call_data = meth_data meth\<rparr>)"

definition spec_dispatch ::
  "env \<Rightarrow> nat \<Rightarrow> string list \<Rightarrow> string \<Rightarrow> service \<Rightarrow> string \<Rightarrow> string option \<Rightarrow> string \<Rightarrow> reaction" where
  "spec_dispatch env conn ss sender srv path iface member =
     (case List.find (\<lambda>x. env_fnmatch env (the (obj_path x)) path) (entries (srv_objects srv)) of
        None \<Rightarrow> Replied No_object path
      | Some obj \<Rightarrow>
          (case (case iface of None \<Rightarrow> unique_interface obj member
                 | Some name \<Rightarrow> lookup if_name (obj_interfaces obj) name) of
             None \<Rightarrow> Replied No_interface (case iface of None \<Rightarrow> '''' | Some name \<Rightarrow> name)
           | Some interface \<Rightarrow>
               (case lookup meth_name (if_methods interface) member of
                  None \<Rightarrow> Replied No_method member
                | Some meth \<Rightarrow> spec_call env conn ss sender srv path interface member meth)))"

lemma reply_error_ok: "args_ok msg ss \<Longrightarrow> reply_error msg name text = Inr (Replied name text)"
  using free_args_ok [of msg ss] by (auto simp: reply_error_def)

lemma call_method_spec:
  assumes "args_ok msg ss"
  shows "call_method env conn msg sender srv path interface member meth
    = Inr (spec_call env conn ss sender srv path interface member meth)"
proof -
  let ?p = "\<lambda>a. case a of None \<Rightarrow> Inl Null_deref | Some s \<Rightarrow> Inr (list_ex (\<lambda>c. c = CR \<or> c = LF) s)"
  let ?t = "msg_args msg"
  have t: "used ?t = length ss" "elems (slots ?t) = map Some ss" "entries ?t = map Some ss"
    using assms by (simp_all add: args_ok_def entries_def)
  have "\<exists>j. find_slot ?p (slots ?t) 0 (used ?t) = Inr j \<and> (j < used ?t \<longleftrightarrow> (\<exists>s \<in> set ss. line_break s))"
  proof (rule find_slot_find [of ?t ?p "\<lambda>a. line_break (the a)"])
    show "used ?t \<le> length (elems (slots ?t))" using t by simp
    show "\<forall>x \<in> set (entries ?t). ?p x = Inr (line_break (the x))"
      using t(3) by (auto simp: line_break_def list_ex_iff)
  qed (use t(3) in \<open>force simp: find_None_iff find_Some_iff\<close>)+
  then obtain j where j: "find_slot ?p (slots ?t) 0 (used ?t) = Inr j"
    "j < length ss \<longleftrightarrow> (\<exists>s \<in> set ss. line_break s)" using t(1) by auto
  obtain strings drops where "oddjob_dbus_message_free (Some msg) = Inr (strings, drops)"
    using free_args_ok [OF assms] by auto
  then show ?thesis
    using j t(1,2)
    by (auto simp: call_method_def spec_call_def account_name_def Let_def reply_error_ok [OF assms] split: option.split)
qed

lemma guess_in_result:
  "j + n \<le> length (elems arr) \<Longrightarrow> None \<notin> meth_name ` set (take n (drop j (elems arr))) \<Longrightarrow>
   distinct (map meth_name (take n (drop j (elems arr)))) \<Longrightarrow>
   guess_in m i arr j n found
     = Inr (if Some m \<notin> meth_name ` set (take n (drop j (elems arr))) then Some found
            else if found = None then Some (Some i) else None)"
proof (induction n arbitrary: j found)
  case (Suc n)
  have d: "drop j (elems arr) = elems arr ! j # drop (Suc j) (elems arr)"
    using Suc.prems(1) by (simp add: Cons_nth_drop_Suc)
  obtain s where s: "meth_name (elems arr ! j) = Some s" using Suc.prems(2) d by fastforce
  have "guess_in m i arr (Suc j) n f
     = Inr (if Some m \<notin> meth_name ` set (take n (drop (Suc j) (elems arr))) then Some f
            else if f = None then Some (Some i) else None)" for f
    using Suc.prems d by (intro Suc.IH) auto
  then show ?case using Suc.prems s by (auto simp: d arr_get_def)
qed simp

lemma guess_in_interface:
  assumes "interface_ok N x"
  shows "guess_in m i (slots (if_methods x)) 0 (used (if_methods x)) found
    = Inr (if lookup meth_name (if_methods x) m = None then Some found
           else if found = None then Some (Some i) else None)"
proof -
  have "table_wf meth_name (if_methods x)" using assms by (simp add: ok_defs pre_defs)
  moreover from this have "lookup meth_name (if_methods x) m = None \<longleftrightarrow> Some m \<notin> meth_name ` set (entries (if_methods x))"
    unfolding methods.lookup_None by force
  ultimately show ?thesis
    using guess_in_result [of 0 "used (if_methods x)" "slots (if_methods x)" m i found]
    by (auto simp: table_wf_def entries_def)
qed

lemma guess_from_result:
  "i + n \<le> length (elems arr) \<Longrightarrow> \<forall>x \<in> set (take n (drop i (elems arr))). interface_ok N x \<Longrightarrow>
   guess_from m arr i n found
     = Inr (case filter (\<lambda>k. lookup meth_name (if_methods (elems arr ! k)) m \<noteq> None) [i..<i + n] of
              [] \<Rightarrow> Some found
            | k # ks \<Rightarrow> if found = None \<and> ks = [] then Some (Some k) else None)"
proof (induction n arbitrary: i found)
  case (Suc n)
  have d: "drop i (elems arr) = elems arr ! i # drop (Suc i) (elems arr)"
    using Suc.prems(1) by (simp add: Cons_nth_drop_Suc)
  have ok: "interface_ok N (elems arr ! i)" using Suc.prems(2) d by simp
  have "guess_from m arr (Suc i) n f
     = Inr (case filter (\<lambda>k. lookup meth_name (if_methods (elems arr ! k)) m \<noteq> None) [Suc i..<Suc i + n] of
              [] \<Rightarrow> Some f
            | k # ks \<Rightarrow> if f = None \<and> ks = [] then Some (Some k) else None)" for f
    using Suc.prems d by (intro Suc.IH) auto
  moreover have "[i..<i + Suc n] = i # [Suc i..<Suc i + n]" by (simp add: upt_conv_Cons)
  ultimately show ?case
    using Suc.prems(1) guess_in_interface [OF ok, of m i found]
    by (auto simp: arr_get_def simp del: upt_Suc split: list.split)
qed simp

lemma guess_interface_unique:
  assumes "object_ok N obj"
  shows "\<exists>r. guess_interface obj m = Inr r \<and> unique_interface obj m = map_option ((!) (entries (obj_interfaces obj))) r
    \<and> (\<forall>k. r = Some k \<longrightarrow> k < used (obj_interfaces obj))"
proof -
  let ?t = "obj_interfaces obj"
  let ?P = "\<lambda>x. lookup meth_name (if_methods x) m \<noteq> None"
  let ?ks = "filter (\<lambda>k. ?P (elems (slots ?t) ! k)) [0..<used ?t]"
  have wf: "table_wf if_name ?t" using assms by (simp add: object_ok_def object_pre_def)
  have len: "used ?t \<le> length (elems (slots ?t))" using wf by (simp add: table_wf_def)
  have "\<forall>x \<in> set (take (used ?t) (elems (slots ?t))). interface_ok N x"
    using assms interfaces.entry_lookup [OF wf] by (fastforce simp: object_ok_def object_pre_def entries_def)
  then have g: "guess_interface obj m = Inr (case ?ks of [k] \<Rightarrow> Some k | _ \<Rightarrow> None)"
    using guess_from_result [of 0 "used ?t" "slots ?t" N m None] len
    by (auto simp: guess_interface_def split: list.split)
  have ks: "?ks = filter (\<lambda>k. ?P (entries ?t ! k)) [0..<length (entries ?t)]"
    using len by (auto simp: entries_def intro!: filter_cong)
  have "filter ?P (entries ?t) = map ((!) (entries ?t)) ?ks"
    unfolding ks by (subst (1) map_nth [of "entries ?t", symmetric], subst filter_map) (simp add: comp_def)
  then have "unique_interface obj m = map_option ((!) (entries ?t)) (case ?ks of [k] \<Rightarrow> Some k | _ \<Rightarrow> None)"
    by (simp add: unique_interface_def split: list.split)
  moreover have "k < used ?t" if "(case ?ks of [k] \<Rightarrow> Some k | _ \<Rightarrow> None) = Some k" for k
  proof -
    have "?ks = [k]" using that by (cases ?ks; cases "tl ?ks") (simp_all split: list.splits)
    then have "k \<in> set ?ks" by simp
    then have "k \<in> set [0..<used ?t]" by (simp only: set_filter mem_Collect_eq)
    then show ?thesis by simp
  qed
  ultimately show ?thesis using g by blast
qed

lemma find_strcmp:
  assumes "table_wf key t"
  obtains (absent) "lookup key t n = None" "find_slot (\<lambda>x. strcmp_eq (key x) n) (slots t) 0 (used t) = Inr (used t)"
  | (present) i x where "lookup key t n = Some x" "find_slot (\<lambda>x. strcmp_eq (key x) n) (slots t) 0 (used t) = Inr i"
      "i < used t" "arr_get (elems (slots t)) i = Inr x"
proof -
  have names: "\<forall>x \<in> set (entries t). strcmp_eq (key x) n = Inr (key x = Some n)"
    using assms by (force simp: table_wf_def strcmp_eq_def split: option.split)
  have len: "used t \<le> length (elems (slots t))" using assms by (simp add: table_wf_def)
  show ?thesis
  proof (rule find_slot_find [OF len names], goal_cases)
    case 1
    then show ?case by (intro absent) (simp_all add: lookup_def)
  next
    case (2 i x)
    then show ?case by (intro present [of x i]) (simp_all add: lookup_def)
  qed
qed

lemma dispatch_in_object_spec:
  assumes "object_ok N obj" "args_ok msg ss"
  shows "dispatch_in_object env conn msg sender srv path iface member obj
    = Inr (case (case iface of None \<Rightarrow> unique_interface obj member
                 | Some name \<Rightarrow> lookup if_name (obj_interfaces obj) name) of
             None \<Rightarrow> Replied No_interface (case iface of None \<Rightarrow> '''' | Some name \<Rightarrow> name)
           | Some interface \<Rightarrow>
               (case lookup meth_name (if_methods interface) member of
                  None \<Rightarrow> Replied No_method member
                | Some meth \<Rightarrow> spec_call env conn ss sender srv path interface member meth))"
proof -
  let ?t = "obj_interfaces obj"
  define sel where "sel = (case iface of None \<Rightarrow> guess_interface obj member
       | Some name \<Rightarrow> res_bind (find_slot (\<lambda>x. strcmp_eq (if_name x) name) (slots ?t) 0 (used ?t))
                        (\<lambda>i. Inr (if i \<ge> used ?t then None else Some i)))"
  define choice where "choice = (case iface of None \<Rightarrow> unique_interface obj member
                 | Some name \<Rightarrow> lookup if_name ?t name)"
  have wf: "table_wf if_name ?t" using assms(1) by (simp add: object_ok_def object_pre_def)
  have "(choice = None \<and> sel = Inr None)
    \<or> (\<exists>i x. choice = Some x \<and> sel = Inr (Some i) \<and> arr_get (elems (slots ?t)) i = Inr x)"
  proof (cases iface)
    case None
    obtain r where "guess_interface obj member = Inr r"
      "unique_interface obj member = map_option ((!) (entries ?t)) r" "\<forall>k. r = Some k \<longrightarrow> k < used ?t"
      using guess_interface_unique [OF assms(1)] by blast
    with None wf show ?thesis
      by (cases r) (auto simp: sel_def choice_def arr_get_def entries_def table_wf_def)
  next
    case (Some name)
    show ?thesis using wf
      by (rule find_strcmp [of if_name ?t name]) (simp_all add: Some sel_def choice_def)
  qed
  then consider "choice = None" "sel = Inr None"
    | i x where "choice = Some x" "sel = Inr (Some i)" "arr_get (elems (slots ?t)) i = Inr x" by blast
  then show ?thesis
  proof cases
    case 1
    then show ?thesis
      unfolding dispatch_in_object_def Let_def sel_def [symmetric] choice_def [symmetric]
      by (simp add: reply_error_ok [OF assms(2)])
  next
    case 2
    have "x \<in> set (entries ?t)"
    proof (cases iface)
      case None
      with 2(1) show ?thesis
        by (auto simp: choice_def unique_interface_def filter_eq_Cons_iff split: list.splits)
    next
      case (Some name)
      with 2(1) interfaces.lookup_Some show ?thesis by (fastforce simp: choice_def)
    qed
    then have "table_wf meth_name (if_methods x)"
      using assms(1) interfaces.entry_lookup [OF wf] by (fastforce simp: ok_defs pre_defs)
    then show ?thesis
      unfolding dispatch_in_object_def Let_def sel_def [symmetric] choice_def [symmetric]
      by (rule find_strcmp [of meth_name "if_methods x" member])
        (simp_all add: 2 reply_error_ok [OF assms(2)] call_method_spec [OF assms(2)])
  qed
qed

lemma dispatch_message_spec:
  assumes "service_ok N srv" "args_ok msg ss"
  shows "dispatch_message env conn msg sender srv path iface member
    = Inr (spec_dispatch env conn ss sender srv path iface member)"
proof -
  let ?t = "srv_objects srv" and ?q = "\<lambda>x. env_fnmatch env (the (obj_path x)) path"
  let ?p = "\<lambda>x. case obj_path x of None \<Rightarrow> Inl Null_deref | Some pattern \<Rightarrow> Inr (env_fnmatch env pattern path)"
  have wf: "table_wf obj_path ?t" using assms(1) by (simp add: service_ok_def service_pre_def)
  have len: "used ?t \<le> length (elems (slots ?t))" using wf by (simp add: table_wf_def)
  have names: "\<forall>x \<in> set (entries ?t). ?p x = Inr (?q x)"
    using wf by (force simp: table_wf_def split: option.split)
  show ?thesis
  proof (rule find_slot_find [OF len names])
    assume "List.find ?q (entries ?t) = None" "find_slot ?p (slots ?t) 0 (used ?t) = Inr (used ?t)"
    then show ?thesis by (simp add: dispatch_message_def spec_dispatch_def reply_error_ok [OF assms(2)])
  next
    fix i x
    assume h: "List.find ?q (entries ?t) = Some x" "find_slot ?p (slots ?t) 0 (used ?t) = Inr i"
      "i < used ?t" "entries ?t ! i = x" "arr_get (elems (slots ?t)) i = Inr x"
    then have "x \<in> set (entries ?t)" by (auto simp: find_Some_iff)
    then have "object_ok N x"
      using assms(1) objects.entry_lookup [OF wf] by (fastforce simp: service_ok_def service_pre_def)
    with h show ?thesis
      by (simp add: dispatch_message_def spec_dispatch_def dispatch_in_object_spec [OF _ assms(2)])
  qed
qed

section \<open>The filter\<close>

text \<open>A message that is a method call with everything the filter needs.\<close>

definition callable :: "registry \<Rightarrow> dbus_msg \<Rightarrow> bool" where
  "callable ctx d \<longleftrightarrow> \<not> is_disconnect ctx d \<and> dm_destination d \<noteq> None \<and> dm_path d \<noteq> None
     \<and> dm_member d \<noteq> None \<and> (dm_interface d = None \<or> dm_type d = Method_call)"

definition good_args :: "dbus_msg \<Rightarrow> bool" where
  "good_args d \<longleftrightarrow> (\<forall>s \<in> set (strings_of (dm_args d)). nul_free s) \<and> length (strings_of (dm_args d)) \<le> 0xffff"

text \<open>The service the filter works for.\<close>

definition served_by :: "registry \<Rightarrow> nat \<Rightarrow> service option" where
  "served_by ctx conn = (case List.find (\<lambda>s. srv_conn s = Some conn) (entries (ctx_services ctx)) of
     Some s \<Rightarrow> Some s
   | None \<Rightarrow> if entries (ctx_services ctx) = [] then None else Some (last (entries (ctx_services ctx))))"

lemma receiving_service_ok:
  assumes "registry_ok N ctx"
  shows "receiving_service ctx conn = Inr (Some (served_by ctx conn))"
proof -
  let ?t = "ctx_services ctx" and ?q = "\<lambda>s. srv_conn s = Some conn"
  have wf: "table_wf srv_name ?t" using assms by (simp add: registry_ok_def)
  have len: "used ?t \<le> length (elems (slots ?t))" "length (entries ?t) = used ?t"
    using wf used_entries [OF wf] by (simp_all add: table_wf_def)
  have q: "\<forall>x \<in> set (entries ?t). Inr (?q x) = Inr (?q x)" by simp
  show ?thesis
  proof (rule find_slot_find [OF len(1) q])
    assume none: "List.find ?q (entries ?t) = None" "find_slot (\<lambda>x. Inr (?q x)) (slots ?t) 0 (used ?t) = Inr (used ?t)"
    have "arr_get (elems (slots ?t)) (used ?t - 1) = Inr (last (entries ?t))" if "used ?t \<noteq> 0"
    proof -
      have "last (entries ?t) = entries ?t ! (used ?t - 1)" using that len(2) last_conv_nth [of "entries ?t"] by force
      then show ?thesis using that len(1) by (auto simp: arr_get_def entries_def)
    qed
    moreover have "entries ?t = [] \<longleftrightarrow> used ?t = 0" using len(2) by (metis length_0_conv)
    ultimately show ?thesis using none by (auto simp: receiving_service_def served_by_def Let_def)
  next
    fix i x
    assume "List.find ?q (entries ?t) = Some x" "find_slot (\<lambda>x. Inr (?q x)) (slots ?t) 0 (used ?t) = Inr i"
      "i < used ?t" "entries ?t ! i = x" "arr_get (elems (slots ?t)) i = Inr x"
    then show ?thesis by (auto simp: receiving_service_def served_by_def Let_def)
  qed
qed

lemma served_by_ok:
  assumes "registry_ok N ctx" "served_by ctx conn = Some srv"
  shows "\<exists>s. lookup srv_name (ctx_services ctx) s = Some srv \<and> service_ok N srv \<and> srv_name srv = Some s"
proof -
  have "srv \<in> set (entries (ctx_services ctx))"
    using assms(2) by (auto simp: served_by_def find_Some_iff split: option.splits if_splits)
  then show ?thesis
    using assms(1) services.entry_lookup [of "ctx_services ctx" srv] services.lookup_Some
    by (fastforce simp: registry_ok_def)
qed

lemma filter_callable:
  assumes "registry_ok N ctx" "callable ctx d" "dm_path d = Some path" "dm_member d = Some member"
  shows "oddjob_dbus_filter mem env ctx conn d
    = res_bind (oddjob_dbus_message_from_message mem (env_acl env) conn (Some d) False (ctx_selinux ctx))
        (\<lambda>(msg, _). (case dm_sender d of
             None \<Rightarrow> Inl Uninitialised
           | Some sender \<Rightarrow> (case served_by ctx conn of
                 None \<Rightarrow> Inl Null_deref
               | Some srv \<Rightarrow> dispatch_message env conn msg sender srv path (dm_interface d) member)))"
  using assms(2-4) receiving_service_ok [OF assms(1), of conn]
  by (auto simp: oddjob_dbus_filter_def callable_def)

lemma filter_spec:
  assumes "\<forall>n. mem n" "registry_ok N ctx" "good_args d" "context_fits (env_acl env) (ctx_selinux ctx) (dm_sender d)"
    "served_by ctx conn = Some srv" "dm_sender d = Some sender"
  shows "oddjob_dbus_filter mem env ctx conn d = Inr (
    if callable ctx d
    then spec_dispatch env conn (strings_of (dm_args d)) sender srv (the (dm_path d)) (dm_interface d) (the (dm_member d))
    else Not_yet_handled)"
proof (cases "callable ctx d")
  case False
  then show ?thesis
    using receiving_service_ok [OF assms(2), of conn]
    by (auto simp: oddjob_dbus_filter_def callable_def split: option.split)
next
  case True
  then obtain path member where pm: "dm_path d = Some path" "dm_member d = Some member"
    by (auto simp: callable_def)
  obtain msg refs where m: "oddjob_dbus_message_from_message mem (env_acl env) conn (Some d) False (ctx_selinux ctx) = Inr (msg, refs)"
    using message_from_message_content [OF assms(1) _ _ assms(4), of conn False] assms(3) by (auto simp: good_args_def)
  then have "args_ok msg (strings_of (dm_args d))"
    using from_message_args_ok [OF _ m] assms(3) by (simp add: good_args_def)
  moreover have "service_ok N srv" using served_by_ok [OF assms(2,5)] by blast
  ultimately have "dispatch_message env conn msg sender srv path (dm_interface d) member
      = Inr (spec_dispatch env conn (strings_of (dm_args d)) sender srv path (dm_interface d) member)"
    by (intro dispatch_message_spec)
  then show ?thesis
    using filter_callable [OF assms(2) True pm, of mem env conn] True pm m assms(4-6) by simp
qed

text \<open>
  C6. For a message to a connection of the registry, the filter's loops over the arrays compute
  what a specification over finite maps says: the first object whose pattern matches, the named
  interface or the only one with the method, the checks in their order, and the error reply of
  the first that fails.
\<close>

theorem filter_refines:
  assumes "\<forall>n. mem n" "registry_ok N ctx" "good_args d" "context_fits (env_acl env) (ctx_selinux ctx) (dm_sender d)"
    "served_by ctx conn = Some srv" "dm_sender d = Some sender"
  shows "oddjob_dbus_filter mem env ctx conn d = Inr (
    if callable ctx d
    then spec_dispatch env conn (strings_of (dm_args d)) sender srv (the (dm_path d)) (dm_interface d) (the (dm_member d))
    else Not_yet_handled)"
  using assms by (rule filter_spec)

lemma spec_dispatch_Called:
  assumes "service_ok N srv" "spec_dispatch env conn ss sender srv path iface member = Called c"
  shows "\<exists>obj i interface meth.
    List.find (\<lambda>x. env_fnmatch env (the (obj_path x)) path) (entries (srv_objects srv)) = Some obj
    \<and> lookup if_name (obj_interfaces obj) i = Some interface \<and> (iface = None \<or> iface = Some i)
    \<and> lookup meth_name (if_methods interface) member = Some meth
    \<and> spec_call env conn ss sender srv path interface member meth = Called c"
proof -
  obtain obj where obj: "List.find (\<lambda>x. env_fnmatch env (the (obj_path x)) path) (entries (srv_objects srv)) = Some obj"
    using assms(2) by (auto simp: spec_dispatch_def split: option.splits)
  obtain interface where interface: "(case iface of None \<Rightarrow> unique_interface obj member
                 | Some name \<Rightarrow> lookup if_name (obj_interfaces obj) name) = Some interface"
    using assms(2) obj by (auto simp: spec_dispatch_def split: option.splits)
  obtain meth where meth: "lookup meth_name (if_methods interface) member = Some meth"
    "spec_call env conn ss sender srv path interface member meth = Called c"
    using assms(2) obj interface by (auto simp: spec_dispatch_def split: option.splits)
  have "table_wf if_name (obj_interfaces obj)"
    using assms(1) obj objects.entry_lookup [of "srv_objects srv" obj]
    by (fastforce simp: service_ok_def service_pre_def object_ok_def object_pre_def find_Some_iff)
  then have "\<exists>i. lookup if_name (obj_interfaces obj) i = Some interface \<and> (iface = None \<or> iface = Some i)"
    using interface interfaces.entry_lookup [of "obj_interfaces obj" interface]
    by (auto simp: unique_interface_def filter_eq_Cons_iff split: option.splits list.splits)
  with obj meth show ?thesis by blast
qed

lemma call_authorised:
  assumes "registry_ok N ctx" "\<forall>s \<in> set (strings_of (dm_args d)). nul_free s"
    and "oddjob_dbus_filter mem env ctx conn d = Inr (Called c)"
  shows "\<exists>s p i n sender. call_service c = Some s \<and> call_interface c = Some i
    \<and> (case List.find (\<lambda>srv. srv_conn srv = Some conn) (entries (ctx_services ctx)) of
          Some srv \<Rightarrow> srv_name srv = Some s
        | None \<Rightarrow> entries (ctx_services ctx) \<noteq> [] \<and> srv_name (last (entries (ctx_services ctx))) = Some s)
    \<and> offers ctx s p i (call_member c) = Some (n, Some (call_handler c), call_data c)
    \<and> dm_path d = Some (call_path c) \<and> env_fnmatch env p (call_path c) \<and> dm_member d = Some (call_member c)
    \<and> (dm_interface d = None \<or> dm_interface d = Some i)
    \<and> dm_sender d = Some sender \<and> call_uid c = env_unix_user env conn sender
    \<and> account_name env (call_uid c) = Some (call_user c) \<and> call_uid c \<noteq> - 1
    \<and> call_args c = map Some (strings_of (dm_args d)) \<and> int (length (call_args c)) = n
    \<and> (\<forall>a \<in> set (strings_of (dm_args d)). \<not> line_break a)"
proof -
  have callable: "callable ctx d"
    using assms(3) receiving_service_ok [OF assms(1), of conn]
    by (auto simp: oddjob_dbus_filter_def callable_def split: option.splits if_splits)
  then obtain path member where pm: "dm_path d = Some path" "dm_member d = Some member"
    by (auto simp: callable_def)
  note f = filter_callable [OF assms(1) callable pm, of mem env conn]
  obtain msg refs sender srv where m:
    "oddjob_dbus_message_from_message mem (env_acl env) conn (Some d) False (ctx_selinux ctx) = Inr (msg, refs)"
    "dm_sender d = Some sender" "served_by ctx conn = Some srv"
    "dispatch_message env conn msg sender srv path (dm_interface d) member = Inr (Called c)"
    using assms(3) unfolding f
    by (cases "dm_sender d"; cases "served_by ctx conn") (auto simp: res_simps)
  obtain s where s: "lookup srv_name (ctx_services ctx) s = Some srv" "service_ok N srv" "srv_name srv = Some s"
    using served_by_ok [OF assms(1) m(3)] by blast
  have "args_ok msg (strings_of (dm_args d))"
    by (rule from_message_args_ok [OF assms(2) m(1)])
  then have spec: "spec_dispatch env conn (strings_of (dm_args d)) sender srv path (dm_interface d) member = Called c"
    using dispatch_message_spec [OF s(2)] m(4) by simp
  obtain obj i interface meth where o: "List.find (\<lambda>x. env_fnmatch env (the (obj_path x)) path) (entries (srv_objects srv)) = Some obj"
    "lookup if_name (obj_interfaces obj) i = Some interface" "dm_interface d = None \<or> dm_interface d = Some i"
    "lookup meth_name (if_methods interface) member = Some meth"
    "spec_call env conn (strings_of (dm_args d)) sender srv path interface member meth = Called c"
    using spec_dispatch_Called [OF s(2) spec] by blast
  then have "obj \<in> set (entries (srv_objects srv))" "env_fnmatch env (the (obj_path obj)) path"
    by (auto simp: find_Some_iff)
  moreover from this s(2) obtain p where p: "lookup obj_path (srv_objects srv) p = Some obj"
    using objects.entry_lookup by (fastforce simp: service_ok_def service_pre_def)
  moreover have "offers ctx s p i member = Some (offer_of meth)"
    using s(1) p o(2,4) by (simp add: offers_def offers_defs)
  moreover have account_uid: "uid \<noteq> - 1" if "account_name env uid = Some y" for uid y
    using that account_name_all_ones [of env] by auto
  moreover have "case List.find (\<lambda>srv. srv_conn srv = Some conn) (entries (ctx_services ctx)) of
          Some srv \<Rightarrow> srv_name srv = Some s
        | None \<Rightarrow> entries (ctx_services ctx) \<noteq> [] \<and> srv_name (last (entries (ctx_services ctx))) = Some s"
    using m(3) s(3) by (auto simp: served_by_def split: option.splits if_splits)
  ultimately show ?thesis
    using o(3,5) pm m(2) s(3) objects.lookup_Some [OF p] interfaces.lookup_Some [OF o(2)]
    by (auto simp: spec_call_def offer_of_def Let_def split: option.splits if_splits)
qed

text \<open>
  C5. Whatever message arrives, a handler is only called for a method that the registry offers
  under the service of the connection (or, for a connection that no service has, under the last
  service, which is where the code's test after the search sends it), for a path its object
  pattern matches, with the interface the caller named (if any), with the uid of the sender as
  known to the password database (never one the bus could not tell or that does not fit uid_t),
  and with as many string arguments as were registered, none of them containing a line break.
\<close>

theorem handler_call_authorised:
  assumes "registry_ok N ctx" "\<forall>s \<in> set (strings_of (dm_args d)). nul_free s"
    and "oddjob_dbus_filter mem env ctx conn d = Inr (Called c)"
  shows "\<exists>s p i n sender. call_service c = Some s \<and> call_interface c = Some i
    \<and> (case List.find (\<lambda>srv. srv_conn srv = Some conn) (entries (ctx_services ctx)) of
          Some srv \<Rightarrow> srv_name srv = Some s
        | None \<Rightarrow> entries (ctx_services ctx) \<noteq> [] \<and> srv_name (last (entries (ctx_services ctx))) = Some s)
    \<and> offers ctx s p i (call_member c) = Some (n, Some (call_handler c), call_data c)
    \<and> dm_path d = Some (call_path c) \<and> env_fnmatch env p (call_path c) \<and> dm_member d = Some (call_member c)
    \<and> (dm_interface d = None \<or> dm_interface d = Some i)
    \<and> dm_sender d = Some sender \<and> call_uid c = env_unix_user env conn sender
    \<and> account_name env (call_uid c) = Some (call_user c) \<and> call_uid c \<noteq> - 1
    \<and> call_args c = map Some (strings_of (dm_args d)) \<and> int (length (call_args c)) = n
    \<and> (\<forall>a \<in> set (strings_of (dm_args d)). \<not> line_break a)"
  by (rule call_authorised [OF assms])

text \<open>
  A message from a connection no service has is handled as one to the last service, or
  through a NULL pointer if there is none: the test after the search loop never holds.
\<close>

theorem filter_unknown_connection:
  assumes "\<forall>n. mem n" "registry_ok N ctx" "good_args d" "context_fits (env_acl env) (ctx_selinux ctx) (dm_sender d)" "callable ctx d"
    and "\<forall>s \<in> set (entries (ctx_services ctx)). srv_conn s \<noteq> Some conn"
  shows "oddjob_dbus_filter mem env ctx conn d = (case dm_sender d of
      None \<Rightarrow> Inl Uninitialised
    | Some sender \<Rightarrow>
        if entries (ctx_services ctx) = [] then Inl Null_deref
        else Inr (spec_dispatch env conn (strings_of (dm_args d)) sender (last (entries (ctx_services ctx)))
                    (the (dm_path d)) (dm_interface d) (the (dm_member d))))"
proof -
  obtain path member where pm: "dm_path d = Some path" "dm_member d = Some member"
    using assms(5) by (auto simp: callable_def)
  have "List.find (\<lambda>s. srv_conn s = Some conn) (entries (ctx_services ctx)) = None"
    using assms(6) by (auto simp: find_None_iff)
  then have served: "served_by ctx conn
      = (if entries (ctx_services ctx) = [] then None else Some (last (entries (ctx_services ctx))))"
    by (simp add: served_by_def)
  obtain msg refs where m: "oddjob_dbus_message_from_message mem (env_acl env) conn (Some d) False (ctx_selinux ctx) = Inr (msg, refs)"
    using message_from_message_content [OF assms(1) _ _ assms(4), of conn False] assms(3) by (auto simp: good_args_def)
  note f = filter_callable [OF assms(2,5) pm, of mem env conn]
  show ?thesis
  proof (cases "dm_sender d")
    case None
    then show ?thesis using f m assms(4) by simp
  next
    case (Some sender)
    show ?thesis
    proof (cases "entries (ctx_services ctx) = []")
      case True
      then show ?thesis using f m assms(4) Some served by simp
    next
      case False
      then show ?thesis
        using filter_spec [OF assms(1-4), of conn _ sender] served Some assms(5) by simp
    qed
  qed
qed

section \<open>Examples\<close>

definition sample_env :: env where
  "sample_env = \<lparr>env_fnmatch = (=), env_unix_user = \<lambda>_ _. 1000,
     env_getpwuid = \<lambda>u. if u = 1000 then Some (''joe'', 1000) else None, env_acl = no_acl\<rparr>"

definition one_arg_call :: dbus_msg where
  "one_arg_call = sample_call\<lparr>dm_args := [Arg_string ''x'']\<rparr>"

lemma one_arg_call_simps [simp]:
  "strings_of (dm_args one_arg_call) = [''x'']" "dm_path one_arg_call = Some ''/o''"
  "dm_member one_arg_call = Some ''m''" "dm_interface one_arg_call = Some ''i''"
  "dm_sender one_arg_call = Some '':1.7''" "good_args one_arg_call" "callable (sample_registry ss) one_arg_call"
  by (simp_all add: one_arg_call_def sample_call_def strings_of_def good_args_def nul_free_def NUL_def
      callable_def is_disconnect_def is_signal_def)

lemma sample_registry_selinux [simp]: "\<not> ctx_selinux (sample_registry ss)" "ctx_services (sample_registry ss) = table_of ss"
  by (simp_all add: sample_registry_def)

definition sample_result :: call where
  "sample_result = \<lparr>call_handler = 64, call_args = [Some ''x''], call_service = Some ''a'', call_path = ''/o'',
     call_interface = Some ''i'', call_member = ''m'', call_user = ''joe'', call_uid = 1000, call_data = None\<rparr>"

lemma spec_dispatch_sample:
  "spec_dispatch sample_env c [''x''] '':1.7'' (sample_service k ''a'') ''/o'' (Some ''i'') ''m'' = Called sample_result"
  by (simp add: spec_dispatch_def sample_service_def sample_env_def lookup_def spec_call_def sample_result_def
      line_break_def CR_def LF_def account_name_def)

theorem filter_refines_witness:
  "oddjob_dbus_filter (\<lambda>_. True) sample_env (sample_registry [sample_service 3 ''a'']) 3 one_arg_call
     = Inr (Called sample_result)"
proof -
  have "served_by (sample_registry [sample_service 3 ''a'']) 3 = Some (sample_service 3 ''a'')"
    by (simp add: served_by_def sample_service_def)
  then show ?thesis
    using filter_refines [OF _ sample_registry_ok(2), of "\<lambda>_. True" one_arg_call sample_env 3 "sample_service 3 ''a''" "'':1.7''"]
    by (simp add: spec_dispatch_sample)
qed

lemma sample_env_acl: "env_acl sample_env = no_acl"
  by (simp add: sample_env_def)

lemma sample_call_dispatched:
  "oddjob_dbus_filter (\<lambda>_. True) sample_env (sample_registry [sample_service 3 ''a'']) 3 one_arg_call
     = Inr (Called sample_result)"
proof -
  have "served_by (sample_registry [sample_service 3 ''a'']) 3 = Some (sample_service 3 ''a'')"
    by (simp add: served_by_def sample_service_def)
  moreover obtain msg refs where m: "oddjob_dbus_message_from_message (\<lambda>_. True) no_acl 3 (Some one_arg_call) False False = Inr (msg, refs)"
    using message_from_message_content [of "\<lambda>_. True" one_arg_call no_acl False 3 False] by (auto simp: nul_free_def NUL_def)
  moreover from this have "args_ok msg [''x'']"
    using from_message_args_ok [OF _ m] by (simp add: nul_free_def NUL_def)
  ultimately show ?thesis
    using filter_callable [OF sample_registry_ok(2), of one_arg_call "''/o''" "''m''" "\<lambda>_. True" sample_env 3]
      dispatch_message_spec [OF sample_service_ok [of 3 "''a''"], of msg "[''x'']"]
    by (simp add: spec_dispatch_sample sample_env_acl)
qed

theorem handler_call_authorised_witness:
  "\<exists>s p i n. offers (sample_registry [sample_service 3 ''a'']) s p i ''m'' = Some (n, Some 64, None)
    \<and> account_name sample_env 1000 = Some ''joe''"
  using handler_call_authorised [OF sample_registry_ok(2) _ sample_call_dispatched]
  by (fastforce simp: sample_result_def nul_free_def NUL_def)

theorem filter_unknown_connection_witness:
  "oddjob_dbus_filter (\<lambda>_. True) sample_env (sample_registry [sample_service 3 ''a'']) 8 one_arg_call
     = Inr (Called sample_result)"
  using filter_unknown_connection [OF _ sample_registry_ok(2), of "\<lambda>_. True" one_arg_call sample_env 8]
  by (simp add: spec_dispatch_sample) (simp add: sample_service_def spec_dispatch_sample [unfolded sample_service_def])

end
