(* ===== verification/Histories.thy ===== *)
theory Histories
  imports Dispatch
begin

text \<open>
  Runs of the registry of src/oddjob_dbus.c: any sequence of adding and removing methods, changing
  the timeout and reconnecting, from a new registry on. Between operations the bus may change its
  mind about everything but what it has logged. The history of a run, the newest event first,
  decides what the registry offers and whom the filter calls.
\<close>

section \<open>Runs\<close>

datatype reg_event =
    Added string string string string int "nat option" "nat option"
  | Refused string
  | Removed string string string string
  | Timeout_set int
  | Reconnected

inductive reg_run :: "avail \<Rightarrow> reg_event list \<Rightarrow> registry \<Rightarrow> bus \<Rightarrow> bool" for mem :: avail where
  start: "oddjob_dbus_listeners_new mem bustype selinux = Inr ctx \<Longrightarrow> bus_log bus = [] \<Longrightarrow> reg_run mem [] ctx bus"
| other: "reg_run mem es ctx bus \<Longrightarrow> bus_log bus' = bus_log bus \<Longrightarrow> reg_run mem es ctx bus'"
| add: "reg_run mem es ctx bus \<Longrightarrow> list_all nul_free [s, p, i, m] \<Longrightarrow>
    oddjob_dbus_listeners_add_method mem ctx s p i m n h d bus = Inr (ok, ctx', bus') \<Longrightarrow>
    reg_run mem ((if ok then Added s p i m n h d else Refused s) # es) ctx' bus'"
| remove: "reg_run mem es ctx bus \<Longrightarrow>
    oddjob_dbus_listeners_remove_method mem ctx s p i m bus = Inr (ctx', bus') \<Longrightarrow>
    reg_run mem (Removed s p i m # es) ctx' bus'"
| timeout: "reg_run mem es ctx bus \<Longrightarrow>
    oddjob_dbus_listeners_set_reconnect_timeout ctx t bus = Inr (ctx', bus') \<Longrightarrow>
    reg_run mem (Timeout_set t # es) ctx' bus'"
| reconnect: "reg_run mem es ctx bus \<Longrightarrow>
    oddjob_dbus_listeners_reconnect_if_needed ctx up bus = Inr (ctx', bus') \<Longrightarrow>
    reg_run mem (Reconnected # es) ctx' bus'"

section \<open>What the history says\<close>

type_synonym method_name = "string \<times> string \<times> string \<times> string"

fun changes :: "method_name \<Rightarrow> reg_event \<Rightarrow> bool" where
  "changes k (Added s p i m n h d) = (k = (s, p, i, m))"
| "changes k (Removed s p i m) = (k = (s, p, i, m))"
| "changes k _ = False"

fun outcome :: "reg_event \<Rightarrow> offer option" where
  "outcome (Added s p i m n h d) = Some (n, h, d)"
| "outcome _ = None"

definition replay :: "reg_event list \<Rightarrow> method_name \<Rightarrow> offer option" where
  "replay es k = Option.bind (List.find (changes k) es) outcome"

lemma replay_Nil [simp]: "replay [] k = None"
  by (simp add: replay_def)

lemma replay_Cons [simp]: "replay (e # es) k = (if changes k e then outcome e else replay es k)"
  by (simp add: replay_def)

text \<open>The last event about a method that is offered is the one that added it.\<close>

lemma replay_Some:
  "replay es k = Some q \<Longrightarrow> \<exists>later e earlier. es = later @ e # earlier \<and> changes k e \<and> outcome e = Some q
     \<and> list_all (\<lambda>e. \<not> changes k e) later"
proof (induction es)
  case (Cons e es)
  show ?case
  proof (cases "changes k e")
    case True
    with Cons.prems show ?thesis by (intro exI [of _ "[]"] exI [of _ e] exI [of _ es]) simp
  next
    case False
    then obtain later e' earlier where "es = later @ e' # earlier" "changes k e'" "outcome e' = Some q"
      "list_all (\<lambda>e. \<not> changes k e) later"
      using Cons by auto
    with False show ?thesis by (intro exI [of _ "e # later"] exI [of _ e'] exI [of _ earlier]) simp
  qed
qed simp

lemma added_event: "changes (s, p, i, m) e \<Longrightarrow> outcome e = Some (n, h, d) \<Longrightarrow> e = Added s p i m n h d"
  by (cases e) auto

section \<open>The registry implements its history\<close>

text \<open>The names of services that could not be connected: their copies are lost.\<close>

fun refused :: "reg_event \<Rightarrow> string option" where
  "refused (Refused s) = Some s"
| "refused _ = None"

definition lost_names :: "reg_event list \<Rightarrow> string multiset" where
  "lost_names es = owned (map refused es)"

lemma lost_names_simps [simp]:
  "lost_names [] = {#}" "lost_names (Refused s # es) = add_mset s (lost_names es)"
  "lost_names (Added s p i m n h d # es) = lost_names es" "lost_names (Removed s p i m # es) = lost_names es"
  "lost_names (Timeout_set t # es) = lost_names es" "lost_names (Reconnected # es) = lost_names es"
  by (simp_all add: lost_names_def)

definition implements :: "registry \<Rightarrow> bus \<Rightarrow> reg_event list \<Rightarrow> bool" where
  "implements ctx bus es \<longleftrightarrow> registry_ok (length es) ctx \<and> balanced (bus_log bus) (live (ctx_services ctx))
     \<and> (\<forall>s p i m. offers ctx s p i m = replay es (s, p, i, m))
     \<and> accounted (bus_log bus) (ctx_services ctx) (lost_names es)"

lemma registry_ok_mono: "registry_ok N ctx \<Longrightarrow> N \<le> M \<Longrightarrow> registry_ok M ctx"
  using ok_mono(3) by (fastforce simp: registry_ok_def)

lemma new_implements:
  "oddjob_dbus_listeners_new mem bustype selinux = Inr ctx \<Longrightarrow> bus_log bus = [] \<Longrightarrow> implements ctx bus []"
  by (auto simp: implements_def oddjob_dbus_listeners_new_def res_simps registry_ok_def lookup_def offers_def live_def
      balanced_def accounted_def table_names_def)

text \<open>A removal that returns either left an offer of the service or was of the only service.\<close>

lemma removal_returned:
  assumes "\<forall>n. mem n" "registry_ok N ctx" "balanced (bus_log bus) (live (ctx_services ctx))"
    "oddjob_dbus_listeners_remove_method mem ctx s p i m bus = Inr r"
  shows "last_offer ctx s p i m \<longrightarrow> used (ctx_services ctx) = 1"
proof
  assume l: "last_offer ctx s p i m"
  have "used (ctx_services ctx) \<noteq> 0"
  proof
    assume "used (ctx_services ctx) = 0"
    then have "offers ctx s p i m = None" by (simp add: offers_def lookup_def entries_def)
    with l show False by (simp add: last_offer_def)
  qed
  moreover have "\<not> 1 < used (ctx_services ctx)"
    using remove_last_some_fault [OF assms(1-3) l] assms(4) by auto
  ultimately show "used (ctx_services ctx) = 1" by simp
qed

lemma run_implements:
  assumes "\<forall>n. mem n"
  shows "reg_run mem es ctx bus \<Longrightarrow> length es < 0xffff \<Longrightarrow> implements ctx bus es"
proof (induction rule: reg_run.induct)
  case (start bustype selinux ctx bus)
  then show ?case by (simp add: new_implements)
next
  case (other es ctx bus bus')
  then show ?case by (simp add: implements_def)
next
  case (add es ctx bus s p i m n h d ok ctx' bus')
  then show ?case
    using add_method_ok [OF assms, of "length es" ctx s p i m bus n h d]
    by (auto simp: implements_def)
next
  case (remove es ctx bus s p i m ctx' bus')
  then have i: "registry_ok (length es) ctx" "balanced (bus_log bus) (live (ctx_services ctx))"
    "\<forall>s p i m. offers ctx s p i m = replay es (s, p, i, m)" "accounted (bus_log bus) (ctx_services ctx) (lost_names es)"
    by (simp_all add: implements_def)
  show ?case
    using remove_method_ok [OF assms i(1,2) removal_returned [OF assms i(1,2) remove.hyps(2)]]
      remove.hyps(2) i(3,4) registry_ok_mono [of "length es" ctx' "Suc (length es)"]
    by (auto simp: implements_def)
next
  case (timeout es ctx bus t ctx' bus')
  then show ?case
    using set_reconnect_timeout_ok [of "length es" ctx bus t] registry_ok_mono [of "length es" ctx' "Suc (length es)"]
    by (auto simp: implements_def)
next
  case (reconnect es ctx bus up ctx' bus')
  then show ?case
    using reconnect_ok [of "length es" ctx bus up] registry_ok_mono [of "length es" ctx' "Suc (length es)"]
    by (auto simp: implements_def)
qed

text \<open>
  C7. After any sequence of adding and removing methods, changing the timeout and reconnecting,
  starting from a new registry and however the bus answers, the registry is well formed, its
  connections are balanced with the bus, and what it offers is what replaying the history of
  the run says.
\<close>

theorem registry_implements_history:
  assumes "\<forall>n. mem n" "reg_run mem es ctx bus" "length es < 0xffff"
  shows "registry_ok (length es) ctx \<and> balanced (bus_log bus) (live (ctx_services ctx))
    \<and> (\<forall>s p i m. offers ctx s p i m = replay es (s, p, i, m))"
  using run_implements [OF assms] by (simp add: implements_def)

section \<open>Who is called\<close>

text \<open>
  C8. After any run of the registry, a handler that the filter calls was added with its data
  and number of arguments under the names the call reports, and since then that method has been
  neither replaced nor removed.
\<close>

theorem called_handler_was_added:
  assumes "\<forall>n. mem n" "reg_run mem es ctx bus" "length es < 0xffff" "good_args d"
    and "oddjob_dbus_filter mem env ctx conn d = Inr (Called c)"
  shows "\<exists>s p i n later earlier.
      es = later @ Added s p i (call_member c) n (Some (call_handler c)) (call_data c) # earlier
    \<and> list_all (\<lambda>e. \<not> changes (s, p, i, call_member c) e) later
    \<and> call_service c = Some s \<and> call_interface c = Some i \<and> env_fnmatch env p (call_path c)
    \<and> int (length (call_args c)) = n"
proof -
  have i: "registry_ok (length es) ctx" "\<forall>s p i m. offers ctx s p i m = replay es (s, p, i, m)"
    using run_implements [OF assms(1-3)] by (simp_all add: implements_def)
  obtain s p i n where c: "call_service c = Some s" "call_interface c = Some i" "env_fnmatch env p (call_path c)"
    "offers ctx s p i (call_member c) = Some (n, Some (call_handler c), call_data c)" "int (length (call_args c)) = n"
    using call_authorised [OF i(1) _ assms(5)] assms(4) unfolding good_args_def by blast
  then obtain later e earlier where "es = later @ e # earlier" "changes (s, p, i, call_member c) e"
    "outcome e = Some (n, Some (call_handler c), call_data c)"
    "list_all (\<lambda>e. \<not> changes (s, p, i, call_member c) e) later"
    using i(2) replay_Some [of es "(s, p, i, call_member c)"] by auto
  with c added_event show ?thesis by blast
qed

section \<open>Nothing is left open\<close>

text \<open>
  C31. After any run of the registry, the copies of names that have been made and not released
  are exactly the names in its arrays, together with the name of every service that could not
  be connected, whose copy is lost; no name is ever released that is not held.
\<close>

theorem names_owned_or_lost:
  assumes "\<forall>n. mem n" "reg_run mem es ctx bus" "length es < 0xffff"
  shows "held allocates releases (bus_log bus) = Some (owned (table_names (ctx_services ctx)) + lost_names es)"
  using run_implements [OF assms] by (simp add: implements_def accounted_def)

text \<open>
  C30. After any run of the registry, releasing it returns and leaves no connection open or
  attached to the main loop, and every name that was copied has been released exactly once,
  except those of services that could not be connected.
\<close>

theorem release_closes_everything:
  assumes "\<forall>n. mem n" "reg_run mem es ctx bus" "length es < 0xffff"
  shows "\<exists>bus'. oddjob_dbus_listeners_free (Some ctx) bus = Inr bus'
    \<and> held opens closes (bus_log bus') = Some {#} \<and> held attaches detaches (bus_log bus') = Some {#}
    \<and> held allocates releases (bus_log bus') = Some (lost_names es)"
  using run_implements [OF assms] listeners_free_ok [of "length es" ctx bus]
  by (auto simp: implements_def balanced_def)

section \<open>A run\<close>

definition eager_bus :: "nat list \<Rightarrow> bus" where
  "eager_bus cs = \<lparr>bus_answers = map (\<lambda>c. Conn c True) cs, bus_filter_ok = \<lambda>_. True,
     bus_request_name = \<lambda>_ _. PRIMARY_OWNER, bus_log = []\<rparr>"

definition empty_registry :: "int \<Rightarrow> registry" where
  "empty_registry t = \<lparr>ctx_bustype = 1, ctx_timeout = t, ctx_selinux = False, ctx_services = empty_table,
     ctx_array = 0\<rparr>"

definition sample_history :: "reg_event list" where
  "sample_history = [Added ''a'' ''/o'' ''i'' ''m'' 1 (Some 64) None, Timeout_set 30]"

lemmas zero_defs = zero_method_def zero_interface_def zero_object_def zero_service_def
lemmas add_defs = oddjob_dbus_listeners_add_method_def enter_service_def add_to_service_def add_to_object_def
  add_to_interface_def with_entry_def enter_slot_def grow_slot_def modify_slot_def find_named_def

lemma sample_added:
  "\<exists>bus. oddjob_dbus_listeners_add_method (\<lambda>_. True) (empty_registry 30) ''a'' ''/o'' ''i'' ''m'' 1 (Some 64) None
     (eager_bus [3]) = Inr (True, sample_registry [sample_service 3 ''a''], bus) \<and> tally opens (bus_log bus) = {#3#}"
  by (simp add: add_defs zero_defs empty_registry_def oddjob_resize_array_def oddjob_malloc0_eq Let_def guard_defs
      dup_str_eq NUL_def empty_table_def service_connect_def eager_bus_def sample_registry_def sample_service_def
      table_of_def say_def say_all_def)

lemma sample_run_log:
  "\<exists>bus. reg_run (\<lambda>_. True) sample_history (sample_registry [sample_service 3 ''a'']) bus
     \<and> tally opens (bus_log bus) = {#3#}"
proof -
  have new: "oddjob_dbus_listeners_new (\<lambda>_. True) 1 False = Inr (empty_registry 0)"
    by (simp add: oddjob_dbus_listeners_new_def oddjob_malloc0_eq empty_registry_def)
  have timeout: "oddjob_dbus_listeners_set_reconnect_timeout (empty_registry 0) 30 (eager_bus [3])
      = Inr (empty_registry 30, eager_bus [3])"
    by (simp add: oddjob_dbus_listeners_set_reconnect_timeout_def empty_registry_def)
  have "bus_log (eager_bus [3]) = []" by (simp add: eager_bus_def)
  note ready = reg_run.timeout [OF reg_run.start [OF new this] timeout]
  obtain bus where "oddjob_dbus_listeners_add_method (\<lambda>_. True) (empty_registry 30) ''a'' ''/o'' ''i'' ''m'' 1 (Some 64)
      None (eager_bus [3]) = Inr (True, sample_registry [sample_service 3 ''a''], bus)" "tally opens (bus_log bus) = {#3#}"
    using sample_added by blast
  from reg_run.add [OF ready _ this(1)] this(2) show ?thesis by (auto simp: NUL_def sample_history_def)
qed

lemma sample_run: "\<exists>bus. reg_run (\<lambda>_. True) sample_history (sample_registry [sample_service 3 ''a'']) bus"
  using sample_run_log by blast

lemma sample_history_short: "length sample_history < 0xffff"
  by (simp add: sample_history_def)

theorem registry_implements_history_witness:
  "\<exists>bus. reg_run (\<lambda>_. True) sample_history (sample_registry [sample_service 3 ''a'']) bus
     \<and> balanced (bus_log bus) (live (ctx_services (sample_registry [sample_service 3 ''a''])))
     \<and> offers (sample_registry [sample_service 3 ''a'']) ''a'' ''/o'' ''i'' ''m'' = Some (1, Some 64, None)"
  using sample_run registry_implements_history [OF _ _ sample_history_short, of "\<lambda>_. True"]
  by (fastforce simp: sample_history_def)

theorem called_handler_was_added_witness:
  "\<exists>s p i n later earlier. sample_history
      = later @ Added s p i (call_member sample_result) n (Some (call_handler sample_result)) (call_data sample_result) # earlier
    \<and> call_service sample_result = Some s"
  using sample_run called_handler_was_added [OF _ _ sample_history_short _ sample_call_dispatched] by fastforce

theorem names_owned_or_lost_witness:
  "\<exists>bus. reg_run (\<lambda>_. True) sample_history (sample_registry [sample_service 3 ''a'']) bus
     \<and> held allocates releases (bus_log bus) = Some {#''m'', ''i'', ''/o'', ''a''#}"
proof -
  obtain bus where run: "reg_run (\<lambda>_. True) sample_history (sample_registry [sample_service 3 ''a'']) bus"
    using sample_run by blast
  have "table_names (ctx_services (sample_registry [sample_service 3 ''a''])) = [Some ''m'', Some ''i'', Some ''/o'', Some ''a'']"
    by (simp add: table_names_def sample_registry_def service_names_def object_names_def interface_names_def
        sample_service_def)
  with names_owned_or_lost [OF _ run sample_history_short] run show ?thesis
    by (auto simp: sample_history_def)
qed

theorem release_closes_everything_witness:
  "\<exists>bus bus'. reg_run (\<lambda>_. True) sample_history (sample_registry [sample_service 3 ''a'']) bus
    \<and> oddjob_dbus_listeners_free (Some (sample_registry [sample_service 3 ''a''])) bus = Inr bus'
    \<and> held opens closes (bus_log bus') = Some {#} \<and> held allocates releases (bus_log bus') = Some {#}"
  using sample_run release_closes_everything [OF _ _ sample_history_short, of "\<lambda>_. True"]
  by (fastforce simp: sample_history_def)

end
