(* ===== verification/Reply.thy ===== *)
theory Reply
  imports Message Buffer
begin

text \<open>
  The answers of src/oddjob_dbus.c: \<open>oddjob_dbus_send_message_response_text\<close>, \<open>_success\<close>,
  \<open>_error\<close> and \<open>oddjob_dbus_send_introspection_text\<close>. The result of an operation is the list of
  the messages it sends; which messages libdbus manages to create is a parameter.
\<close>

section \<open>Messages sent\<close>

record reply =
  r_type :: msg_type
  r_error :: "string option"
  r_destination :: "string option"
  r_serial :: nat
  r_args :: "arg list"

text \<open>\<open>lib_signal\<close>: \<open>dbus_message_new_signal\<close> of path, interface and member succeeds.\<close>

record dbus_lib =
  lib_return :: bool
  lib_error :: bool
  lib_signal :: "string option \<Rightarrow> string option \<Rightarrow> string option \<Rightarrow> bool"
  lib_set_destination :: "string \<Rightarrow> bool"

text \<open>A reply to a call goes to its sender with its serial.\<close>

definition reply_to :: "msg_type \<Rightarrow> string option \<Rightarrow> dbus_msg \<Rightarrow> arg list \<Rightarrow> reply" where
  "reply_to t name d as =
     \<lparr>r_type = t, r_error = name, r_destination = dm_sender d, r_serial = dm_serial d, r_args = as\<rparr>"

section \<open>Text\<close>

definition text_args :: "int \<Rightarrow> string option \<Rightarrow> arg list" where
  "text_args result text =
     [Arg_int32 result, Arg_string (case text of None \<Rightarrow> '''' | Some t \<Rightarrow> t), Arg_string '''']"

text \<open>
  The body shared by the text and the success response: a method return, and a signal if the
  caller wants one or the call named no interface. \<open>fill\<close> appends the arguments to a message.
\<close>

definition send_return_and_signal ::
  "dbus_lib \<Rightarrow> message \<Rightarrow> arg list res \<Rightarrow> bool \<Rightarrow> reply list res" where
  "send_return_and_signal lib msg fill also_signal = (case msg_msg msg of
       None \<Rightarrow> Inl Null_deref
     | Some d \<Rightarrow>
         res_bind (if lib_return lib then res_bind fill (\<lambda>as. Inr [reply_to Method_return None d as]) else Inr [])
           (\<lambda>sent.
             if \<not> also_signal \<and> dm_interface d \<noteq> None then Inr sent
             else if \<not> lib_signal lib (dm_path d) (dm_interface d) (dm_member d) then Inr sent
             else (case dm_sender d of
                 None \<Rightarrow> Inr sent
               | Some sender \<Rightarrow>
                   if \<not> lib_set_destination lib sender then Inr sent
                   else res_bind fill (\<lambda>as. Inr (sent @ [reply_to Signal None d as])))))"

definition oddjob_dbus_send_message_response_text ::
  "dbus_lib \<Rightarrow> message \<Rightarrow> int \<Rightarrow> string option \<Rightarrow> bool \<Rightarrow> reply list res" where
  "oddjob_dbus_send_message_response_text lib msg result_code text also_signal =
     send_return_and_signal lib msg (Inr (text_args result_code text)) also_signal"

section \<open>Output and error buffers\<close>

text \<open>The check of the byte after the contents.\<close>

definition check_end :: "('b \<Rightarrow> nat) \<Rightarrow> ('b \<Rightarrow> cell list) \<Rightarrow> 'b \<Rightarrow> unit res" where
  "check_end len data buf =
     (if len buf > 0
      then res_bind (arr_get (data buf) (len buf)) (\<lambda>c. (case c of
               None \<Rightarrow> Inl Uninitialised
             | Some c \<Rightarrow> if c \<noteq> NUL then Inl Abort else Inr ()))
      else Inr ())"

definition success_args :: "int \<Rightarrow> oddjob_buffer \<Rightarrow> oddjob_buffer \<Rightarrow> arg list res" where
  "success_args result outc errc =
     res_bind (check_end oddjob_buffer_length oddjob_buffer_data outc) (\<lambda>_.
     res_bind (obj_cstr (oddjob_buffer_data outc)) (\<lambda>out.
     res_bind (obj_cstr (oddjob_buffer_data errc)) (\<lambda>err.
       Inr [Arg_int32 result, Arg_string out, Arg_string err])))"

definition oddjob_dbus_send_message_response_success ::
  "dbus_lib \<Rightarrow> message \<Rightarrow> int \<Rightarrow> oddjob_buffer \<Rightarrow> oddjob_buffer \<Rightarrow> bool \<Rightarrow> reply list res" where
  "oddjob_dbus_send_message_response_success lib msg result_code outc errc also_signal =
     send_return_and_signal lib msg (success_args result_code outc errc) also_signal"

section \<open>Errors and introspection\<close>

text \<open>A message that could not be created is passed on as NULL.\<close>

definition oddjob_dbus_send_message_response_error ::
  "dbus_lib \<Rightarrow> message \<Rightarrow> string \<Rightarrow> string \<Rightarrow> reply list res" where
  "oddjob_dbus_send_message_response_error lib msg name text = (case msg_msg msg of
       None \<Rightarrow> Inl Null_deref
     | Some d \<Rightarrow> if \<not> lib_error lib then Inl Null_deref
                 else Inr [reply_to Error_message (Some name) d [Arg_string text]])"

definition oddjob_dbus_send_introspection_text ::
  "dbus_lib \<Rightarrow> message \<Rightarrow> string option \<Rightarrow> reply list res" where
  "oddjob_dbus_send_introspection_text lib msg text = (case msg_msg msg of
       None \<Rightarrow> Inl Null_deref
     | Some d \<Rightarrow> if \<not> lib_return lib then Inl Null_deref
                 else Inr [reply_to Method_return None d [Arg_string (case text of None \<Rightarrow> '''' | Some t \<Rightarrow> t)]])"

section \<open>What the responses need of a buffer\<close>

text \<open>
  The interface of a byte buffer as the responses use it: a length and the memory its data
  pointer points to. The law is that the text of a buffer in order is followed by a NUL.
\<close>

locale byte_buffer =
  fixes len :: "'b \<Rightarrow> nat" and data :: "'b \<Rightarrow> cell list" and chars :: "'b \<Rightarrow> string" and ok :: "'b \<Rightarrow> bool"
  assumes len_text: "ok b \<Longrightarrow> len b = length (chars b)"
    and data_text: "ok b \<Longrightarrow> \<exists>rest. data b = map Some (chars b) @ Some NUL # rest"
    and text_nul_free: "ok b \<Longrightarrow> nul_free (chars b)"
begin

lemma check_end_ok: "ok b \<Longrightarrow> check_end len data b = Inr ()"
  using len_text [of b] data_text [of b] by (auto simp: check_end_def arr_get_def nth_append)

lemma data_cstr: "ok b \<Longrightarrow> obj_cstr (data b) = Inr (chars b)"
  using data_text [of b] text_nul_free [of b] by (auto simp: obj_cstr_string)

end

text \<open>The text of an \<open>oddjob_buffer\<close>, and when it is in order.\<close>

definition buffer_text :: "oddjob_buffer \<Rightarrow> string" where
  "buffer_text b = map the (contents b)"

definition buffer_ok :: "oddjob_buffer \<Rightarrow> bool" where
  "buffer_ok b \<longleftrightarrow> buf_wf b \<and> terminated b \<and> None \<notin> set (contents b) \<and> nul_free (buffer_text b)"

lemma map_Some_the: "None \<notin> set xs \<Longrightarrow> map Some (map the xs) = xs"
  by (induction xs) auto

lemma buffer_contents_text: "buffer_ok b \<Longrightarrow> contents b = map Some (buffer_text b)"
  using map_Some_the [of "contents b"] by (simp add: buffer_ok_def buffer_text_def)

interpretation oddjob: byte_buffer oddjob_buffer_length oddjob_buffer_data buffer_text buffer_ok
proof
  fix b assume b: "buffer_ok b"
  let ?rest = "drop (bspare b) (bdata b)"
  show "oddjob_buffer_length b = length (buffer_text b)"
    using b contents_length [of b] by (simp add: buffer_ok_def buffer_text_def)
  show "nul_free (buffer_text b)" using b by (simp add: buffer_ok_def)
  have "?rest = contents b @ drop (bused b) ?rest" unfolding contents_def by (rule append_take_drop_id [symmetric])
  moreover have "drop (bused b) ?rest = Some NUL # drop (Suc (bspare b + bused b)) (bdata b)"
    using b Cons_nth_drop_Suc [of "bspare b + bused b" "bdata b"]
    by (simp add: buffer_ok_def terminated_def add.commute)
  ultimately have "oddjob_buffer_data b = map Some (buffer_text b) @ Some NUL # drop (Suc (bspare b + bused b)) (bdata b)"
    using buffer_contents_text [OF b] unfolding oddjob_buffer_data_def by metis
  then show "\<exists>rest. oddjob_buffer_data b = map Some (buffer_text b) @ Some NUL # rest" by blast
qed

lemma success_args_ok:
  "buffer_ok outc \<Longrightarrow> buffer_ok errc \<Longrightarrow>
   success_args result outc errc = Inr [Arg_int32 result, Arg_string (buffer_text outc), Arg_string (buffer_text errc)]"
  by (simp add: success_args_def oddjob.check_end_ok oddjob.data_cstr)

text \<open>The signal goes out if it is wanted and everything it needs is there.\<close>

definition signalled :: "dbus_lib \<Rightarrow> dbus_msg \<Rightarrow> bool \<Rightarrow> bool" where
  "signalled lib d also_signal \<longleftrightarrow> (also_signal \<or> dm_interface d = None)
     \<and> lib_signal lib (dm_path d) (dm_interface d) (dm_member d)
     \<and> (case dm_sender d of None \<Rightarrow> False | Some s \<Rightarrow> lib_set_destination lib s)"

lemma send_return_and_signal_ok:
  "msg_msg msg = Some d \<Longrightarrow> send_return_and_signal lib msg (Inr as) also_signal
     = Inr ((if lib_return lib then [reply_to Method_return None d as] else [])
          @ (if signalled lib d also_signal then [reply_to Signal None d as] else []))"
  by (auto simp: send_return_and_signal_def signalled_def split: option.splits)

text \<open>
  C26. A success response sends a method return with the status and the text of both buffers,
  and the same as a signal exactly if the caller asked for it or the call named no interface
  and libdbus can build it.
\<close>

theorem response_success_sends:
  assumes "msg_msg msg = Some d" "buffer_ok outc" "buffer_ok errc"
  shows "oddjob_dbus_send_message_response_success lib msg result outc errc also_signal
    = (let as = [Arg_int32 result, Arg_string (buffer_text outc), Arg_string (buffer_text errc)]
       in Inr ((if lib_return lib then [reply_to Method_return None d as] else [])
          @ (if signalled lib d also_signal then [reply_to Signal None d as] else [])))"
  using send_return_and_signal_ok [OF assms(1)] success_args_ok [OF assms(2,3)]
  by (simp add: oddjob_dbus_send_message_response_success_def Let_def)

definition good_lib :: dbus_lib where
  "good_lib = \<lparr>lib_return = True, lib_error = True,
     lib_signal = \<lambda>p i m. p \<noteq> None \<and> i \<noteq> None \<and> m \<noteq> None, lib_set_destination = \<lambda>_. True\<rparr>"

lemma sample_buffer_ok: "buffer_ok sample_buffer" "buffer_text sample_buffer = ''a''"
  by (simp_all add: buffer_ok_def buffer_text_def buf_predicates NUL_def)

theorem response_success_sends_witness:
  "oddjob_dbus_send_message_response_success good_lib sample_message 0 sample_buffer sample_buffer True
     = Inr [reply_to Method_return None sample_call [Arg_int32 0, Arg_string ''a'', Arg_string ''a''],
            reply_to Signal None sample_call [Arg_int32 0, Arg_string ''a'', Arg_string ''a'']]"
  using response_success_sends [of sample_message sample_call, OF _ sample_buffer_ok(1) sample_buffer_ok(1)]
  by (simp add: sample_message_def sample_buffer_ok good_lib_def signalled_def sample_call_def Let_def)

text \<open>
  After the output buffer is cleared, a success response still sends its old text: the
  check for a NUL at the end is skipped for an empty buffer.
\<close>

theorem response_after_clear_sends_old_text:
  assumes "buffer_ok outc" "buffer_ok errc" "msg_msg msg = Some d" "lib_return lib" "dm_interface d \<noteq> None"
  shows "oddjob_dbus_send_message_response_success lib msg result (oddjob_buffer_clear outc) errc False
    = Inr [reply_to Method_return None d
            [Arg_int32 result, Arg_string (buffer_text outc), Arg_string (buffer_text errc)]]"
proof -
  have "oddjob_buffer_data (oddjob_buffer_clear outc) = oddjob_buffer_data outc"
    by (simp add: oddjob_buffer_data_def oddjob_buffer_clear_def)
  then have "success_args result (oddjob_buffer_clear outc) errc
      = Inr [Arg_int32 result, Arg_string (buffer_text outc), Arg_string (buffer_text errc)]"
    using assms(1,2)
    by (simp add: success_args_def check_end_def oddjob_buffer_length_def oddjob_buffer_clear_def oddjob.data_cstr)
  with send_return_and_signal_ok [OF assms(3)] assms(4,5) show ?thesis
    by (simp add: oddjob_dbus_send_message_response_success_def signalled_def)
qed

theorem response_after_clear_sends_old_text_witness:
  "oddjob_dbus_send_message_response_success good_lib sample_message 0 (oddjob_buffer_clear sample_buffer) sample_buffer False
     = Inr [reply_to Method_return None sample_call [Arg_int32 0, Arg_string ''a'', Arg_string ''a'']]"
  using response_after_clear_sends_old_text [OF sample_buffer_ok(1) sample_buffer_ok(1), of sample_message sample_call good_lib]
  by (simp add: sample_message_def sample_buffer_ok good_lib_def sample_call_def)

end
