(* ===== verification/Client.thy ===== *)
theory Client
  imports Message
begin

text \<open>
  The client side of src/oddjob_dbus.c: \<open>oddjob_dbus_call_bus_methodv\<close> and
  \<open>oddjob_dbus_call_method\<close> send a method call, wait for the answer and hand its result and its
  texts to the caller. What \<open>dbus_bus_get\<close> and the blocking call return is a parameter.
\<close>

section \<open>The caller's variables\<close>

text \<open>The name and the message of a \<open>DBusError\<close>.\<close>

type_synonym dbus_error = "string \<times> string"

text \<open>A text variable with its length: \<open>None\<close> is NULL.\<close>

type_synonym text_var = "string option \<times> int"

record outputs =
  out_result :: int
  out_output :: text_var
  out_error :: text_var

text \<open>Which pointers the caller passes: \<open>wants_output\<close> is both \<open>output\<close> and \<open>output_length\<close>.\<close>

record wants =
  wants_result :: bool
  wants_output :: bool
  wants_error :: bool

record transport =
  tr_get :: "dbus_error + nat"
  tr_call :: "dbus_msg \<Rightarrow> int \<Rightarrow> dbus_msg option \<times> dbus_error option"

definition error_text :: "dbus_error \<Rightarrow> string" where
  "error_text e = fst e @ '': '' @ snd e"

text \<open>A copy made with \<open>malloc\<close>; without memory the pointer is NULL and the length stays.\<close>

definition give_text :: "avail \<Rightarrow> bool \<Rightarrow> string \<Rightarrow> text_var \<Rightarrow> text_var" where
  "give_text mem wanted s v =
     (if \<not> wanted then v
      else if mem (length s + 1) then (Some s, int (length s)) else (None, snd v))"

definition give_error :: "avail \<Rightarrow> wants \<Rightarrow> dbus_error \<Rightarrow> outputs \<Rightarrow> outputs" where
  "give_error mem w e out =
     out\<lparr>out_output := give_text mem (wants_output w) (error_text e) (out_output out),
         out_error := give_text mem (wants_error w) (error_text e) (out_error out)\<rparr>"

section \<open>The call\<close>

text \<open>The strings of the argument vector up to its NULL.\<close>

fun vector_strings :: "string option list \<Rightarrow> string list res" where
  "vector_strings [] = Inl Out_of_bounds"
| "vector_strings (None # _) = Inr []"
| "vector_strings (Some s # as) = res_bind (vector_strings as) (\<lambda>ss. Inr (s # ss))"

definition give_arg :: "avail \<Rightarrow> bool \<Rightarrow> message \<Rightarrow> nat \<Rightarrow> text_var \<Rightarrow> text_var res" where
  "give_arg mem wanted msg k v =
     (if wanted \<and> used (msg_args msg) > k
      then res_bind (arr_get (elems (slots (msg_args msg))) k) (\<lambda>a. (case a of
               None \<Rightarrow> Inl Null_deref
             | Some s \<Rightarrow> Inr (give_text mem True s v)))
      else Inr v)"

definition oddjob_dbus_call_bus_methodv ::
  "avail \<Rightarrow> acl \<Rightarrow> transport \<Rightarrow> string \<Rightarrow> string \<Rightarrow> string \<Rightarrow> string \<Rightarrow> int \<Rightarrow> wants \<Rightarrow> outputs
     \<Rightarrow> string option list option \<Rightarrow> (int \<times> outputs) res"
where
  "oddjob_dbus_call_bus_methodv mem a tr service object_path interface method timeout w out argv =
     (case tr_get tr of
        Inl e \<Rightarrow> Inr (- 2, give_error mem w e out)
      | Inr conn \<Rightarrow>
          res_bind (case argv of None \<Rightarrow> Inr [] | Some v \<Rightarrow> vector_strings v) (\<lambda>ss.
          let message = \<lparr>dm_type = Method_call, dm_sender = None, dm_destination = Some service,
                dm_path = Some object_path, dm_interface = Some interface, dm_member = Some method,
                dm_serial = 0, dm_args = map Arg_string ss\<rparr>;
              (reply, err) = tr_call tr message timeout
          in res_bind (oddjob_dbus_message_from_message mem a conn reply True False) (\<lambda>(msg, _).
             let out = (if wants_result w then out\<lparr>out_result := msg_result msg\<rparr> else out)
             in res_bind (give_arg mem (wants_output w) msg 0 (out_output out)) (\<lambda>v.
                res_bind (give_arg mem (wants_error w) msg 1 (out_error out)) (\<lambda>u.
                let out = out\<lparr>out_output := v, out_error := u\<rparr>;
                    (ret, out) = (case err of None \<Rightarrow> (0, out) | Some e \<Rightarrow> (- 1, give_error mem w e out))
                in res_bind (oddjob_dbus_message_free (Some msg)) (\<lambda>_. Inr (ret, out)))))))"

text \<open>The vector built from the variable arguments, one resize for each.\<close>

fun build_argv :: "avail \<Rightarrow> string list \<Rightarrow> nat \<Rightarrow> string option list option \<Rightarrow> string option list option res" where
  "build_argv mem [] i argv = Inr argv"
| "build_argv mem (p # ps) i argv =
     res_bind (oddjob_resize_array mem None 8 argv i (i + 2)) (\<lambda>argv.
     res_bind (arr_set (elems argv) i (Some p)) (\<lambda>v. build_argv mem ps (i + 1) (Some v)))"

definition oddjob_dbus_call_method ::
  "avail \<Rightarrow> acl \<Rightarrow> transport \<Rightarrow> string \<Rightarrow> string \<Rightarrow> string \<Rightarrow> string \<Rightarrow> int \<Rightarrow> wants \<Rightarrow> outputs
     \<Rightarrow> string list \<Rightarrow> (int \<times> outputs) res"
where
  "oddjob_dbus_call_method mem a tr service object_path interface method timeout w out ps =
     res_bind (build_argv mem ps 0 None) (\<lambda>argv.
       oddjob_dbus_call_bus_methodv mem a tr service object_path interface method timeout w out argv)"

section \<open>The default names\<close>

definition oddjob_dbus_get_default_service :: "string \<Rightarrow> string \<Rightarrow> string" where
  "oddjob_dbus_get_default_service namespace package = namespace @ ''.'' @ package"

definition oddjob_dbus_get_default_object :: "string \<Rightarrow> string \<Rightarrow> string" where
  "oddjob_dbus_get_default_object namespace_path package = namespace_path @ ''/'' @ package"

definition oddjob_dbus_get_default_interface :: "string \<Rightarrow> string \<Rightarrow> string" where
  "oddjob_dbus_get_default_interface namespace package = namespace @ ''.'' @ package"

section \<open>What the caller gets\<close>

lemma vector_strings_terminated: "vector_strings (map Some ss @ None # r) = Inr ss"
  by (induction ss) simp_all

lemma build_argv_ok:
  assumes "\<forall>n. mem n"
  shows "length ss + length ps + 1 \<le> 0xffff \<Longrightarrow> elems argv = map Some ss @ (if ss = [] then [] else [None]) \<Longrightarrow>
    \<exists>argv'. build_argv mem ps (length ss) argv = Inr argv'
      \<and> elems argv' = map Some (ss @ ps) @ (if ss @ ps = [] then [] else [None])
      \<and> (ps \<noteq> [] \<longrightarrow> argv' \<noteq> None)"
proof (induction ps arbitrary: ss argv)
  case (Cons p ps)
  have "oddjob_resize_array mem None 8 argv (length ss) (length ss + 2) = Inr (Some (map Some ss @ [None, None]))"
    using Cons.prems assms
    by (subst resize_array_grow) (auto simp: numeral_2_eq_2)
  moreover have "arr_set (map Some ss @ [None, None]) (length ss) (Some p) = Inr (map Some (ss @ [p]) @ [None])"
    using arr_set_append_None [of "map Some ss" None "[None]" "Some p"] by simp
  moreover have "\<exists>argv'. build_argv mem ps (length (ss @ [p])) (Some (map Some (ss @ [p]) @ [None])) = Inr argv'
      \<and> elems argv' = map Some ((ss @ [p]) @ ps) @ (if (ss @ [p]) @ ps = [] then [] else [None])
      \<and> (ps \<noteq> [] \<longrightarrow> argv' \<noteq> None)"
    using Cons.prems by (intro Cons.IH) simp_all
  ultimately show ?case by (auto simp: elems_def)
qed simp

text \<open>
  What the caller is told: a variable that is wanted holds the text, if there is one, and its length.
\<close>

definition told_text :: "bool \<Rightarrow> string option \<Rightarrow> text_var \<Rightarrow> text_var" where
  "told_text wanted text v = (case text of None \<Rightarrow> v | Some s \<Rightarrow> if wanted then (Some s, int (length s)) else v)"

text \<open>
  The caller's view of an answer: the status, the integer in front of the reply, and the texts. The
  text of an error goes to both variables, those of a reply are its first two strings.
\<close>

definition unanswered :: "int \<Rightarrow> wants \<Rightarrow> outputs \<Rightarrow> dbus_error \<Rightarrow> int \<times> outputs" where
  "unanswered status w out e = (case e of (name, text) \<Rightarrow>
     (status, out\<lparr>out_output := told_text (wants_output w) (Some (name @ '': '' @ text)) (out_output out),
                  out_error := told_text (wants_error w) (Some (name @ '': '' @ text)) (out_error out)\<rparr>))"

definition received :: "wants \<Rightarrow> outputs \<Rightarrow> dbus_msg option \<Rightarrow> dbus_error option \<Rightarrow> int \<times> outputs" where
  "received w out reply err =
     (let as = (case reply of None \<Rightarrow> [] | Some d \<Rightarrow> dm_args d);
          ss = strings_of as;
          i = (case as of [] \<Rightarrow> 0 | Arg_int32 i # _ \<Rightarrow> i | _ # _ \<Rightarrow> - 1);
          out = (if wants_result w then out\<lparr>out_result := i\<rparr> else out)
      in (case err of
            None \<Rightarrow> (0, out\<lparr>out_output := told_text (wants_output w) (if 0 < length ss then Some (ss ! 0) else None) (out_output out),
                           out_error := told_text (wants_error w) (if 1 < length ss then Some (ss ! 1) else None) (out_error out)\<rparr>)
          | Some e \<Rightarrow> unanswered (- 1) w out e))"

lemma give_text_told: "\<forall>n. mem n \<Longrightarrow> give_text mem wanted s v = told_text wanted (Some s) v"
  by (simp add: give_text_def told_text_def)

lemma give_error_unanswered:
  "\<forall>n. mem n \<Longrightarrow> (status, give_error mem w e out) = unanswered status w out e"
  by (cases e) (simp add: give_error_def unanswered_def error_text_def give_text_told)

lemma unanswered_again:
  "unanswered s w (out\<lparr>out_output := told_text (wants_output w) t (out_output out),
      out_error := told_text (wants_error w) u (out_error out)\<rparr>) e = unanswered s w out e"
  "unanswered s w (out\<lparr>out_result := r, out_output := told_text (wants_output w) t (out_output out),
      out_error := told_text (wants_error w) u (out_error out)\<rparr>) e = unanswered s w (out\<lparr>out_result := r\<rparr>) e"
  by (cases e; cases out, auto simp: unanswered_def told_text_def split: option.splits)+

lemma int_result_first:
  "int_result True as = (case as of [] \<Rightarrow> 0 | Arg_int32 i # _ \<Rightarrow> i | _ # _ \<Rightarrow> - 1)"
  by (auto simp: int_result_def split: list.split arg.split)

lemma from_reply:
  assumes "\<forall>n. mem n"
    "\<forall>d. reply = Some d \<longrightarrow> (\<forall>s \<in> set (strings_of (dm_args d)). nul_free s) \<and> length (strings_of (dm_args d)) \<le> 0xffff"
  shows "\<exists>msg refs. oddjob_dbus_message_from_message mem a conn reply True False = Inr (msg, refs)
    \<and> args_ok msg (case reply of None \<Rightarrow> [] | Some d \<Rightarrow> strings_of (dm_args d))
    \<and> msg_result msg = int_result True (case reply of None \<Rightarrow> [] | Some d \<Rightarrow> dm_args d)"
proof (cases reply)
  case None
  with assms(1) show ?thesis
    by (simp add: oddjob_dbus_message_from_message_def oddjob_malloc0_eq Let_def args_ok_def empty_table_def int_result_def)
next
  case (Some d)
  obtain msg refs strings drops where m: "oddjob_dbus_message_from_message mem a conn (Some d) True False = Inr (msg, refs)"
    "msg_result msg = int_result True (dm_args d)"
    using message_from_message_content [OF assms(1) _ _ context_fits_unwanted(1), of d a conn True] assms(2) Some by blast
  with from_message_args_ok [OF _ m(1)] Some assms(2) show ?thesis by simp
qed

lemma give_arg_ok:
  "args_ok msg ss \<Longrightarrow> give_arg mem wanted msg k v
     = Inr (if wanted \<and> k < length ss then give_text mem True (ss ! k) v else v)"
  by (simp add: give_arg_def args_ok_def arr_get_def)

lemma given_arg_told:
  "\<forall>n. mem n \<Longrightarrow> (if wanted \<and> k < length ss then give_text mem True (ss ! k) v else v)
     = told_text wanted (if k < length ss then Some (ss ! k) else None) v"
  by (simp add: give_text_told told_text_def)

lemma call_method_received:
  assumes "\<forall>n. mem n" "length ps + 1 \<le> 0xffff" "tr_get tr = Inr conn"
    and "tr_call tr \<lparr>dm_type = Method_call, dm_sender = None, dm_destination = Some service,
           dm_path = Some object_path, dm_interface = Some interface, dm_member = Some method,
           dm_serial = 0, dm_args = map Arg_string ps\<rparr> timeout = (reply, err)"
    and "\<forall>d. reply = Some d \<longrightarrow> (\<forall>s \<in> set (strings_of (dm_args d)). nul_free s) \<and> length (strings_of (dm_args d)) \<le> 0xffff"
  shows "oddjob_dbus_call_method mem a tr service object_path interface method timeout w out ps
    = Inr (received w out reply err)"
proof -
  obtain argv where argv: "build_argv mem ps 0 None = Inr argv" "ps \<noteq> [] \<longrightarrow> argv \<noteq> None"
    "elems argv = map Some ps @ (if ps = [] then [] else [None])"
    using build_argv_ok [OF assms(1), of "[]" ps None] assms(2) by auto
  have strings: "(case argv of None \<Rightarrow> Inr [] | Some v \<Rightarrow> vector_strings v) = Inr ps"
    using argv vector_strings_terminated [of ps "[]"] by (cases argv; cases ps) auto
  obtain msg refs where m: "oddjob_dbus_message_from_message mem a conn reply True False = Inr (msg, refs)"
    "args_ok msg (case reply of None \<Rightarrow> [] | Some d \<Rightarrow> strings_of (dm_args d))"
    "msg_result msg = int_result True (case reply of None \<Rightarrow> [] | Some d \<Rightarrow> dm_args d)"
    using from_reply [OF assms(1,5), of a conn] by blast
  have ss: "(case reply of None \<Rightarrow> [] | Some d \<Rightarrow> strings_of (dm_args d))
      = strings_of (case reply of None \<Rightarrow> [] | Some d \<Rightarrow> dm_args d)"
    by (cases reply) (simp_all add: strings_of_def)
  obtain st dr where "oddjob_dbus_message_free (Some msg) = Inr (st, dr)" using free_args_ok [OF m(2)] by auto
  then show ?thesis
    unfolding oddjob_dbus_call_method_def oddjob_dbus_call_bus_methodv_def argv(1) res_bind_Inr
      assms(3) strings sum.case Let_def assms(4) prod.case m(1) received_def
      give_arg_ok [OF m(2) [unfolded ss]] given_arg_told [OF assms(1)] m(3) [unfolded int_result_first]
    by (auto simp: give_error_unanswered [OF assms(1)] unanswered_again split: option.split)
qed

lemma call_method_no_bus:
  assumes "\<forall>n. mem n" "length ps + 1 \<le> 0xffff" "tr_get tr = Inl e"
  shows "oddjob_dbus_call_method mem a tr service object_path interface method timeout w out ps
    = Inr (unanswered (- 2) w out e)"
proof -
  obtain argv where "build_argv mem ps 0 None = Inr argv"
    using build_argv_ok [OF assms(1), of "[]" ps None] assms(2) by auto
  then show ?thesis
    using assms(3)
    by (simp add: oddjob_dbus_call_method_def oddjob_dbus_call_bus_methodv_def give_error_unanswered [OF assms(1)])
qed

text \<open>
  C19. A call sends its string arguments, fewer than 65535, in their order. Without a
  connection it returns -2; otherwise it returns 0, or -1 if there is an error. The result is
  the integer the reply begins with, -1 if it begins with something else and 0 if it has no
  arguments; the texts are the first two strings of the reply with their lengths; the name and
  the text of an error replace both. Variables that the caller does not pass, or that nothing
  is told for, stay as they were.
\<close>

theorem call_method_result:
  assumes "\<forall>n. mem n" "length ps + 1 \<le> 0xffff"
    and "\<And>d. fst (tr_call tr \<lparr>dm_type = Method_call, dm_sender = None, dm_destination = Some service,
           dm_path = Some object_path, dm_interface = Some interface, dm_member = Some method,
           dm_serial = 0, dm_args = map Arg_string ps\<rparr> timeout) = Some d \<Longrightarrow>
         (\<forall>s \<in> set (strings_of (dm_args d)). nul_free s) \<and> length (strings_of (dm_args d)) \<le> 0xffff"
  shows "oddjob_dbus_call_method mem a tr service object_path interface method timeout w out ps
    = Inr (case tr_get tr of
        Inl e \<Rightarrow> unanswered (- 2) w out e
      | Inr conn \<Rightarrow>
          (case tr_call tr \<lparr>dm_type = Method_call, dm_sender = None, dm_destination = Some service,
             dm_path = Some object_path, dm_interface = Some interface, dm_member = Some method,
             dm_serial = 0, dm_args = map Arg_string ps\<rparr> timeout of
             (reply, err) \<Rightarrow> received w out reply err))"
proof (cases "tr_get tr")
  case (Inl e)
  with call_method_no_bus [OF assms(1,2)] show ?thesis by simp
next
  case (Inr conn)
  with assms(3) show ?thesis
    by (auto simp: call_method_received [OF assms(1,2) Inr] split: prod.split)
qed

definition sample_transport :: transport where
  "sample_transport = \<lparr>tr_get = Inr 5, tr_call = \<lambda>_ _. (Some (sample_call\<lparr>dm_args :=
     [Arg_int32 3, Arg_string ''done'', Arg_string '''']\<rparr>), None)\<rparr>"

definition all_wanted :: wants where
  "all_wanted = \<lparr>wants_result = True, wants_output = True, wants_error = True\<rparr>"

definition fresh_outputs :: outputs where
  "fresh_outputs = \<lparr>out_result = 0, out_output = (None, - 1), out_error = (None, - 1)\<rparr>"

theorem call_method_result_witness:
  "oddjob_dbus_call_method (\<lambda>_. True) no_acl sample_transport ''s'' ''/'' ''i'' ''m'' 500 all_wanted fresh_outputs [''joe'']
     = Inr (0, \<lparr>out_result = 3, out_output = (Some ''done'', 4), out_error = (Some '''', 0)\<rparr>)"
proof -
  have "strings_of [Arg_int32 3, Arg_string ''done'', Arg_string ''''] = [''done'', '''']"
    by (simp add: strings_of_def)
  then show ?thesis
    using call_method_result [of "\<lambda>_. True" "[''joe'']" sample_transport "''s''" "''/''" "''i''" "''m''" 500]
    by (simp add: sample_transport_def received_def told_text_def all_wanted_def fresh_outputs_def
        nul_free_def NUL_def Let_def)
qed

end
