(* ===== verification/Pam.thy ===== *)
theory Pam
  imports Client "HOL-Library.Word"
begin

unbundle bit_operations_syntax

text \<open>
  The PAM module of src/pam_oddjob_gpupdate.c: on opening a session it asks the helper service
  to update the policies of the user and shows the text of the answer. What the PAM library, the
  password database and the process's ids are is part of the handle \<open>pam_handle\<close>; what the
  module does is the list of its \<open>pam_event\<close>s.
\<close>

section \<open>The handle\<close>

record account =
  ac_name :: string
  ac_uid :: "32 word"

text \<open>An answer of \<open>getpwnam_r\<close>: \<open>Too_small\<close> is \<open>ERANGE\<close>.\<close>

datatype pw_answer = Found account | Absent | Too_small | Failed

text \<open>
  \<open>ph_conv\<close>: \<open>None\<close> if \<open>pam_get_item\<close> fails, \<open>Some None\<close> for a NULL item, else whether the item has
  a conversation function. \<open>ph_answer\<close>: whether the function succeeds, and its responses.
  \<open>ph_user\<close> is \<open>None\<close> if \<open>pam_get_user\<close> fails or gives NULL.
\<close>

record pam_handle =
  ph_conv :: "bool option option"
  ph_answer :: "string \<Rightarrow> bool \<times> string option option"
  ph_user :: "string option"
  ph_getpwnam :: "string \<Rightarrow> nat \<Rightarrow> pw_answer"
  ph_uid :: "32 word"
  ph_euid :: "32 word"

datatype pam_event =
    Text_info string
  | Free_resp
  | Free_responses
  | Request string string string string string int  \<comment> \<open>service, object, interface, method, user, timeout\<close>

definition PAM_DEBUG_ARG :: nat where "PAM_DEBUG_ARG = 1"
definition PAM_DBUS_TIMEOUT :: nat where "PAM_DBUS_TIMEOUT = 2"

definition ODDJOB_NAMESPACE :: string where "ODDJOB_NAMESPACE = ''ru.basealt''"
definition ODDJOB_PACKAGE_NAME :: string where "ODDJOB_PACKAGE_NAME = ''oddjob''"
definition ODDJOB_SERVICE_NAME :: string where
  "ODDJOB_SERVICE_NAME = ODDJOB_NAMESPACE @ ''.'' @ ODDJOB_PACKAGE_NAME"
definition ODDJOB_INTERFACE_NAME :: string where
  "ODDJOB_INTERFACE_NAME = ODDJOB_NAMESPACE @ ''.'' @ ODDJOB_PACKAGE_NAME"

section \<open>Texts\<close>

text \<open>The rest of the text after the prefix, \<open>None\<close> (NULL) if it is not a prefix.\<close>

definition pam_str_skip_prefix_len :: "string \<Rightarrow> string \<Rightarrow> nat \<Rightarrow> string option" where
  "pam_str_skip_prefix_len str prefix n =
     (if take n str \<noteq> take n prefix then None else Some (drop n str))"

definition conv_text_info :: "pam_handle \<Rightarrow> string \<Rightarrow> pam_event list" where
  "conv_text_info ph info =
     (case ph_conv ph of
        Some (Some True) \<Rightarrow> Text_info info #
          (case ph_answer ph info of
             (True, Some (Some _)) \<Rightarrow> [Free_resp, Free_responses]
           | (True, Some None) \<Rightarrow> [Free_responses]
           | _ \<Rightarrow> [])
      | _ \<Rightarrow> [])"

text \<open>\<open>snprintf\<close> into the 128 bytes of \<open>info\<close>.\<close>

definition info_text :: "string \<Rightarrow> string" where
  "info_text s = take 127 s"

text \<open>
  \<open>sscanf(str, "%d", ...)\<close>: \<open>None\<close> if it does not return 1. A value that does not fit the
  variable is undefined in C; the callers treat it as overflow.
\<close>

definition is_space :: "char \<Rightarrow> bool" where
  "is_space c \<longleftrightarrow> c \<in> {CHR '' '', TAB, LF, CHR 0x0B, CHR 0x0C, CR}"

definition is_digit :: "char \<Rightarrow> bool" where
  "is_digit c \<longleftrightarrow> 48 \<le> (of_char c :: nat) \<and> (of_char c :: nat) \<le> 57"

definition read_digits :: "string \<Rightarrow> nat" where
  "read_digits ds = foldl (\<lambda>n d. 10 * n + (of_char d - 48)) 0 ds"

definition scan_unsigned :: "string \<Rightarrow> nat option" where
  "scan_unsigned s = (let ds = takeWhile is_digit s in if ds = [] then None else Some (read_digits ds))"

definition scan_d :: "string \<Rightarrow> int option" where
  "scan_d str = (case dropWhile is_space str of
       [] \<Rightarrow> None
     | c # s \<Rightarrow> if c = CHR ''-'' then map_option (\<lambda>n. - int n) (scan_unsigned s)
                else if c = CHR ''+'' then map_option int (scan_unsigned s)
                else map_option int (scan_unsigned (c # s)))"

text \<open>\<open>int\<close> has 32 bits.\<close>

definition fits_int :: "int \<Rightarrow> bool" where
  "fits_int i \<longleftrightarrow> - (2 ^ 31) \<le> i \<and> i < 2 ^ 31"

section \<open>The arguments of the module\<close>

fun parse_args_loop ::
  "pam_handle \<Rightarrow> string list \<Rightarrow> nat \<Rightarrow> int \<Rightarrow> pam_event list \<Rightarrow> (nat \<times> int \<times> pam_event list) res" where
  "parse_args_loop ph [] optmask dbus_timeout evs = Inr (optmask, dbus_timeout, evs)"
| "parse_args_loop ph (arg # argv) optmask dbus_timeout evs =
     (if arg = ''debug'' then parse_args_loop ph argv (optmask OR PAM_DEBUG_ARG) dbus_timeout evs
      else case pam_str_skip_prefix_len arg ''dbus_timeout='' 13 of
        Some str \<Rightarrow> (case scan_d str of
            None \<Rightarrow> parse_args_loop ph argv optmask dbus_timeout
              (if optmask AND PAM_DEBUG_ARG \<noteq> 0
               then evs @ conv_text_info ph
                      (info_text (''Ignore bad gpupdate dbus_timeout option value: '' @ str))
               else evs)
          | Some intarg \<Rightarrow>
              if \<not> fits_int intarg \<or> \<not> fits_int (intarg * 1000) then Inl Int_overflow
              else parse_args_loop ph argv (optmask OR PAM_DBUS_TIMEOUT) (intarg * 1000) evs)
      | None \<Rightarrow> parse_args_loop ph argv optmask dbus_timeout
          (if optmask AND PAM_DEBUG_ARG \<noteq> 0
           then evs @ conv_text_info ph (info_text (''Ignore gpupdate unknown option: '' @ arg))
           else evs))"

definition parse_args ::
  "pam_handle \<Rightarrow> string list \<Rightarrow> int \<Rightarrow> (nat \<times> int \<times> pam_event list) res" where
  "parse_args ph argv dbus_timeout = parse_args_loop ph argv 0 dbus_timeout []"

section \<open>The request\<close>

text \<open>
  Looking up the account with a growing buffer: \<open>None\<close> if the loop never ends,
  \<open>Some None\<close> if there is no account.
\<close>

partial_function (option) look_up_account ::
  "avail \<Rightarrow> (nat \<Rightarrow> pw_answer) \<Rightarrow> nat \<Rightarrow> account option option" where
  "look_up_account mem getpwnam_r bufsize =
     (if \<not> mem bufsize then Some None
      else case getpwnam_r bufsize of
        Found pw \<Rightarrow> Some (Some pw)
      | Absent \<Rightarrow> Some None
      | Failed \<Rightarrow> Some None
      | Too_small \<Rightarrow> look_up_account mem getpwnam_r (size_add bufsize 4))"

declare look_up_account.simps [code]

definition output_only :: wants where
  "output_only = \<lparr>wants_result = True, wants_output = True, wants_error = False\<rparr>"

text \<open>\<open>result\<close> is not initialised and never read; \<open>reply\<close> and \<open>reply_size\<close> are NULL and -1.\<close>

definition no_reply :: outputs where
  "no_reply = \<lparr>out_result = 0, out_output = (None, - 1), out_error = (None, 0)\<rparr>"

definition send_pam_oddjob_gpupdate_request ::
  "avail \<Rightarrow> acl \<Rightarrow> transport \<Rightarrow> pam_handle \<Rightarrow> string list \<Rightarrow> pam_event list res" where
  "send_pam_oddjob_gpupdate_request mem a tr ph argv =
     res_bind (parse_args ph argv (- 1)) (\<lambda>(arg_flags, dbus_timeout, evs).
     let evs = (if arg_flags AND PAM_DEBUG_ARG \<noteq> 0
                then evs @ conv_text_info ph (info_text (''D-Bus oddjob timeout is '' @ show_int dbus_timeout))
                else evs)
     in res_bind
          (case ph_user ph of
             None \<Rightarrow> Inr (evs, out_output no_reply)
           | Some user \<Rightarrow>
               if length user = 0 then Inr (evs, out_output no_reply)
               else case look_up_account mem (ph_getpwnam ph user) 8192 of
                 None \<Rightarrow> Inl Diverges
               | Some None \<Rightarrow> Inr (evs, out_output no_reply)
               | Some (Some pw) \<Rightarrow>
                   if ph_uid ph \<noteq> ac_uid pw \<or> ph_euid ph \<noteq> ac_uid pw then
                     res_bind (oddjob_dbus_call_method mem a tr (ODDJOB_SERVICE_NAME @ ''_gpupdate'') ''/''
                         (ODDJOB_INTERFACE_NAME @ ''_gpupdate'') ''gpupdatefor'' dbus_timeout
                         output_only no_reply [user])
                       (\<lambda>(ret, out). Inr (evs @ (case tr_get tr of
                           Inl e \<Rightarrow> []
                         | Inr conn \<Rightarrow> [Request (ODDJOB_SERVICE_NAME @ ''_gpupdate'') ''/''
                             (ODDJOB_INTERFACE_NAME @ ''_gpupdate'') ''gpupdatefor'' user dbus_timeout]),
                         out_output out))
                   else if arg_flags AND PAM_DEBUG_ARG \<noteq> 0 then
                     Inr (evs @ conv_text_info ph (info_text (''Ignore gpupdate for user '' @ ac_name pw
                            @ '' with uid '' @ show_int (sint (ac_uid pw)))), out_output no_reply)
                   else Inr (evs, out_output no_reply))
          (\<lambda>(evs, reply, reply_size).
             Inr (case reply of
                    Some text \<Rightarrow> if reply_size > 0 then evs @ conv_text_info ph text else evs
                  | None \<Rightarrow> evs)))"

definition PAM_IGNORE :: int where "PAM_IGNORE = 25"

definition pam_sm_open_session ::
  "avail \<Rightarrow> acl \<Rightarrow> transport \<Rightarrow> pam_handle \<Rightarrow> string list \<Rightarrow> (int \<times> pam_event list) res" where
  "pam_sm_open_session mem a tr ph argv =
     res_bind (send_pam_oddjob_gpupdate_request mem a tr ph argv) (\<lambda>evs. Inr (PAM_IGNORE, evs))"

definition pam_sm_close_session :: "pam_handle \<Rightarrow> string list \<Rightarrow> (int \<times> pam_event list) res" where
  "pam_sm_close_session ph argv = Inr (PAM_IGNORE, [])"

definition pam_sm_acct_mgmt ::
  "avail \<Rightarrow> acl \<Rightarrow> transport \<Rightarrow> pam_handle \<Rightarrow> string list \<Rightarrow> (int \<times> pam_event list) res" where
  "pam_sm_acct_mgmt mem a tr ph argv =
     res_bind (send_pam_oddjob_gpupdate_request mem a tr ph argv) (\<lambda>evs. Inr (PAM_IGNORE, evs))"

section \<open>The arguments\<close>

text \<open>The timeouts the arguments ask for, and the complaints about the others.\<close>

definition timeout_value :: "string \<Rightarrow> string option" where
  "timeout_value arg = pam_str_skip_prefix_len arg ''dbus_timeout='' 13"

definition timeouts :: "string list \<Rightarrow> int list" where
  "timeouts argv = List.map_filter (\<lambda>arg. Option.bind (timeout_value arg) scan_d) argv"

definition complaint :: "string \<Rightarrow> string option" where
  "complaint arg =
     (if arg = ''debug'' then None
      else case timeout_value arg of
        Some str \<Rightarrow> if scan_d str = None
                    then Some (info_text (''Ignore bad gpupdate dbus_timeout option value: '' @ str)) else None
      | None \<Rightarrow> Some (info_text (''Ignore gpupdate unknown option: '' @ arg)))"

definition complaints :: "pam_handle \<Rightarrow> string list \<Rightarrow> pam_event list" where
  "complaints ph argv = concat (map (conv_text_info ph) (List.map_filter complaint argv))"

definition usable :: "int \<Rightarrow> bool" where
  "usable i \<longleftrightarrow> fits_int (i * 1000)"

lemma usable_fits: "usable i \<Longrightarrow> fits_int i"
  by (auto simp: usable_def fits_int_def)

lemma debug_is_no_timeout [simp]: "timeout_value ''debug'' = None"
  by (simp add: timeout_value_def pam_str_skip_prefix_len_def)

lemma pam_flags [simp]: "PAM_DEBUG_ARG = 1" "PAM_DBUS_TIMEOUT = 2"
  by (simp_all add: PAM_DEBUG_ARG_def PAM_DBUS_TIMEOUT_def)

lemma debug_bit [simp]: "((m::nat) OR Suc 0) mod 2 = Suc 0" "(m OR 2) mod 2 = m mod 2"
  using and_or_distrib_nat [of m 1 1] and_or_distrib_nat [of m 2 1] and_or_absorb_nat [of m 1]
  by (simp_all add: and_one_eq)

lemma timeouts_Cons:
  "timeouts (arg # argv) = (case Option.bind (timeout_value arg) scan_d of None \<Rightarrow> timeouts argv
     | Some i \<Rightarrow> i # timeouts argv)"
  by (auto simp: timeouts_def map_filter_def split: option.split)

lemma complaints_Cons:
  "complaints ph (arg # argv) = (case complaint arg of None \<Rightarrow> complaints ph argv
     | Some s \<Rightarrow> conv_text_info ph s @ complaints ph argv)"
  by (simp add: complaints_def map_filter_def split: option.split)

lemma parse_args_loop_step:
  "parse_args_loop ph (arg # argv) m t evs =
     (if arg = ''debug'' then parse_args_loop ph argv (m OR 1) t evs
      else case Option.bind (timeout_value arg) scan_d of
        Some i \<Rightarrow> if usable i then parse_args_loop ph argv (m OR 2) (i * 1000) evs else Inl Int_overflow
      | None \<Rightarrow> parse_args_loop ph argv m t
          (if m AND 1 \<noteq> 0 then evs @ conv_text_info ph (the (complaint arg)) else evs))"
  using usable_fits
  by (auto simp: timeout_value_def [symmetric] complaint_def usable_def split: option.split)

lemma complaint_None: "complaint arg = None \<longleftrightarrow> arg = ''debug'' \<or> Option.bind (timeout_value arg) scan_d \<noteq> None"
  by (auto simp: complaint_def split: option.splits)

lemma parse_args_loop_result:
  "parse_args_loop ph argv m t evs =
     (if list_all usable (timeouts argv)
      then Inr (m OR (if ''debug'' \<in> set argv then 1 else 0) OR (if timeouts argv = [] then 0 else 2),
        last (t # map (\<lambda>i. i * 1000) (timeouts argv)),
        evs @ complaints ph (if m AND 1 \<noteq> 0 then argv else dropWhile (\<lambda>arg. arg \<noteq> ''debug'') argv))
      else Inl Int_overflow)"
proof (induction argv arbitrary: m t evs)
  case Nil
  then show ?case by (simp add: timeouts_def complaints_def map_filter_def)
next
  case (Cons arg argv)
  note or_ac = or.assoc or.commute or.left_commute
  show ?case
  proof (cases "arg = ''debug''")
    case True
    then show ?thesis
      by (simp add: parse_args_loop_step Cons.IH timeouts_Cons complaints_Cons complaint_def or_ac)
  next
    case False
    then show ?thesis
      using complaint_None [of arg]
      by (auto simp: parse_args_loop_step Cons.IH timeouts_Cons complaints_Cons or_ac simp del: parse_args_loop.simps
          split: option.split)
  qed
qed

section \<open>Numbers\<close>

lemma digit_char:
  assumes "d < 10"
  shows "is_digit (char_of (48 + d))" "of_char (char_of (48 + d) :: char) = (48 + d :: nat)"
    "\<not> is_space (char_of (48 + d))" "char_of (48 + d) \<noteq> CHR ''-''" "char_of (48 + d) \<noteq> CHR ''+''"
proof -
  show c: "of_char (char_of (48 + d) :: char) = (48 + d :: nat)"
    using assms by (simp add: of_char_of)
  show "is_digit (char_of (48 + d))" using assms c by (simp add: is_digit_def)
  have "char_of (48 + d) \<noteq> x" if "of_char x < (48::nat)" for x :: char
    using that c by auto
  then show "\<not> is_space (char_of (48 + d))" "char_of (48 + d) \<noteq> CHR ''-''" "char_of (48 + d) \<noteq> CHR ''+''"
    by (simp_all add: is_space_def TAB_def LF_def CR_def)
qed

lemma show_nat_digits: "list_all is_digit (show_nat n) \<and> show_nat n \<noteq> [] \<and> read_digits (show_nat n) = n"
proof (induction n rule: less_induct)
  case (less n)
  show ?case
  proof (cases "n < 10")
    case True
    then show ?thesis
      using digit_char [OF True] by (simp add: show_nat.simps [of n] read_digits_def)
  next
    case False
    have "n mod 10 < 10" by simp
    from digit_char [OF this] less.IH [of "n div 10"] False show ?thesis
      by (simp add: show_nat.simps [of n] read_digits_def)
  qed
qed

lemma show_nat_first: "\<exists>(d::nat) r. show_nat n = char_of (48 + d) # r \<and> d < 10"
proof (induction n rule: less_induct)
  case (less n)
  show ?case
  proof (cases "n < 10")
    case True
    then show ?thesis by (intro exI [of _ n] exI [of _ "[]"]) (simp add: show_nat.simps [of n])
  next
    case False
    then obtain d :: nat and r where "show_nat (n div 10) = char_of (48 + d) # r" "d < 10"
      using less.IH [of "n div 10"] by auto
    with False have "show_nat n = char_of (48 + d) # r @ [char_of (48 + n mod 10)]"
      by (simp add: show_nat.simps [of n])
    with \<open>d < 10\<close> show ?thesis by blast
  qed
qed

text \<open>Reading back a printed number gives the number.\<close>

lemma scan_d_show_int: "scan_d (show_int i) = Some i"
proof -
  have u: "scan_unsigned (show_nat n) = Some n" for n
  proof -
    have "takeWhile is_digit (show_nat n) = show_nat n"
      using show_nat_digits [of n] by (auto simp: takeWhile_eq_all_conv list_all_iff)
    then show ?thesis
      unfolding scan_unsigned_def by (simp only: Let_def) (use show_nat_digits [of n] in simp)
  qed
  show ?thesis
  proof (cases "i < 0")
    case True
    have "\<not> is_space (CHR ''-'')" by (simp add: is_space_def TAB_def LF_def CR_def)
    with True show ?thesis by (simp add: show_int_def scan_d_def u)
  next
    case False
    obtain d :: nat and r where "show_nat (nat i) = char_of (48 + d) # r" "d < 10" using show_nat_first by blast
    with digit_char [OF this(2)] u [of "nat i"] False show ?thesis by (simp add: show_int_def scan_d_def)
  qed
qed

section \<open>Looking up the account\<close>

lemma look_up_account_unfold:
  "look_up_account mem f n =
     (if \<not> mem n then Some None
      else case f n of Found pw \<Rightarrow> Some (Some pw) | Too_small \<Rightarrow> look_up_account mem f (size_add n 4) | _ \<Rightarrow> Some None)"
  by (subst look_up_account.simps) (auto split: pw_answer.split)

lemma look_up_account_finds:
  "\<forall>j < k. mem (n + 4 * j) \<and> f (n + 4 * j) = Too_small \<Longrightarrow> n + 4 * k < SIZE_LIMIT \<Longrightarrow>
   look_up_account mem f n = look_up_account mem f (n + 4 * k)"
proof (induction k arbitrary: n)
  case (Suc k)
  have "size_add n 4 = n + 4" using Suc.prems(2) by (intro size_add_small) simp
  moreover have "f n = Too_small" "mem n" using Suc.prems(1) [rule_format, of 0] by auto
  moreover have "look_up_account mem f (n + 4) = look_up_account mem f (n + 4 + 4 * k)"
  proof (rule Suc.IH)
    show "\<forall>j<k. mem (n + 4 + 4 * j) \<and> f (n + 4 + 4 * j) = Too_small"
    proof (intro allI impI)
      fix j assume "j < k"
      with Suc.prems(1) [rule_format, of "Suc j"] show "mem (n + 4 + 4 * j) \<and> f (n + 4 + 4 * j) = Too_small"
        by (simp add: algebra_simps)
    qed
  qed (use Suc.prems(2) in simp)
  ultimately show ?case by (subst look_up_account_unfold) (simp add: algebra_simps)
qed simp

lemma look_up_account_found:
  "look_up_account mem f n = Some r \<Longrightarrow> \<forall>pw. r = Some pw \<longrightarrow> (\<exists>m. f m = Found pw)"
  by (erule look_up_account.raw_induct [rotated, where P = "\<lambda>mem f n r. \<forall>pw. r = Some pw \<longrightarrow> (\<exists>m. f m = Found pw)"])
     (auto split: if_splits pw_answer.splits)

section \<open>What the module does\<close>

lemma and_debug: "(m AND PAM_DEBUG_ARG \<noteq> 0) \<longleftrightarrow> odd m"
  by (simp add: odd_iff_mod_2_eq_one)

lemma parse_args_result:
  "parse_args ph argv t =
     (if list_all usable (timeouts argv)
      then Inr ((if ''debug'' \<in> set argv then 1 else 0) OR (if timeouts argv = [] then 0 else 2),
        last (t # map (\<lambda>i. i * 1000) (timeouts argv)),
        complaints ph (dropWhile (\<lambda>arg. arg \<noteq> ''debug'') argv))
      else Inl Int_overflow)"
  by (simp add: parse_args_def parse_args_loop_result)

text \<open>
  C32. For every argument vector, parsing gives the last timeout in milliseconds, the flags for
  debug and dbus_timeout, and complaints about the arguments after the first debug; the only
  fault is a timeout whose product with 1000 does not fit int.
\<close>

theorem parse_args_meaning:
  "(case parse_args ph argv t of
      Inl e \<Rightarrow> e = Int_overflow \<and> (\<exists>i \<in> set (timeouts argv). \<not> usable i)
    | Inr (flags, timeout, evs) \<Rightarrow>
        (flags AND PAM_DEBUG_ARG \<noteq> 0) = (''debug'' \<in> set argv)
        \<and> (flags AND PAM_DBUS_TIMEOUT \<noteq> 0) = (timeouts argv \<noteq> [])
        \<and> timeout = last (t # map (\<lambda>i. i * 1000) (timeouts argv))
        \<and> evs = complaints ph (dropWhile (\<lambda>arg. arg \<noteq> ''debug'') argv))"
  by (auto simp: parse_args_result list_all_iff)

text \<open>The text the service's answer gives the user.\<close>

definition request_message :: "string \<Rightarrow> dbus_msg" where
  "request_message user = \<lparr>dm_type = Method_call, dm_sender = None,
     dm_destination = Some ''ru.basealt.oddjob_gpupdate'', dm_path = Some ''/'',
     dm_interface = Some ''ru.basealt.oddjob_gpupdate'', dm_member = Some ''gpupdatefor'',
     dm_serial = 0, dm_args = [Arg_string user]\<rparr>"

definition answer_text :: "transport \<Rightarrow> string \<Rightarrow> int \<Rightarrow> string" where
  "answer_text tr user timeout =
     (case tr_get tr of
        Inl (name, text) \<Rightarrow> name @ '': '' @ text
      | Inr conn \<Rightarrow>
          (case tr_call tr (request_message user) timeout of
             (reply, Some (name, text)) \<Rightarrow> name @ '': '' @ text
           | (None, None) \<Rightarrow> []
           | (Some d, None) \<Rightarrow> (case strings_of (dm_args d) of [] \<Rightarrow> [] | s # _ \<Rightarrow> s)))"

definition request_event :: "string \<Rightarrow> int \<Rightarrow> pam_event" where
  "request_event user timeout =
     Request ''ru.basealt.oddjob_gpupdate'' ''/'' ''ru.basealt.oddjob_gpupdate'' ''gpupdatefor'' user timeout"

lemma service_names [simp]:
  "ODDJOB_SERVICE_NAME @ ''_gpupdate'' = ''ru.basealt.oddjob_gpupdate''"
  "ODDJOB_INTERFACE_NAME @ ''_gpupdate'' = ''ru.basealt.oddjob_gpupdate''"
  by (simp_all add: ODDJOB_SERVICE_NAME_def ODDJOB_INTERFACE_NAME_def ODDJOB_NAMESPACE_def ODDJOB_PACKAGE_NAME_def)

text \<open>Answers with proper texts.\<close>

definition sound_answer :: "transport \<Rightarrow> string \<Rightarrow> int \<Rightarrow> bool" where
  "sound_answer tr user timeout =
     (case fst (tr_call tr (request_message user) timeout) of
        None \<Rightarrow> True
      | Some d \<Rightarrow> list_all nul_free (strings_of (dm_args d)) \<and> length (strings_of (dm_args d)) \<le> 0xffff)"

lemma no_strings: "strings_of [] = []"
  by (simp add: strings_of_def)

lemma nothing_yet [simp]: "out_output no_reply = (None, - 1)"
  by (simp add: no_reply_def)

lemma request_output:
  assumes "\<forall>n. mem n" "sound_answer tr user t"
  shows "\<exists>ret out v. oddjob_dbus_call_method mem a tr ''ru.basealt.oddjob_gpupdate'' ''/''
        ''ru.basealt.oddjob_gpupdate'' ''gpupdatefor'' t output_only no_reply [user] = Inr (ret, out)
     \<and> out_output out = v
     \<and> (v = (None, - 1) \<and> answer_text tr user t = []
        \<or> v = (Some (answer_text tr user t), int (length (answer_text tr user t))))"
proof (cases "tr_get tr")
  case (Inl e)
  have len: "length [user] + 1 \<le> 0xffff" by simp
  show ?thesis
    unfolding call_method_no_bus [OF assms(1) len Inl]
    by (cases e) (simp add: Inl unanswered_def told_text_def output_only_def no_reply_def answer_text_def)
next
  case (Inr conn)
  obtain reply err where call: "tr_call tr (request_message user) t = (reply, err)" by fastforce
  have len: "length [user] + 1 \<le> 0xffff" by simp
  have sound: "\<forall>d. reply = Some d \<longrightarrow>
      (\<forall>s\<in>set (strings_of (dm_args d)). nul_free s) \<and> length (strings_of (dm_args d)) \<le> 0xffff"
    using assms(2) call by (auto simp: sound_answer_def list_all_iff)
  note r = call_method_received [OF assms(1) len Inr _ sound, of _ _ _ _ t err]
  have c: "tr_call tr \<lparr>dm_type = Method_call, dm_sender = None,
      dm_destination = Some ''ru.basealt.oddjob_gpupdate'', dm_path = Some ''/'',
      dm_interface = Some ''ru.basealt.oddjob_gpupdate'', dm_member = Some ''gpupdatefor'',
      dm_serial = 0, dm_args = map Arg_string [user]\<rparr> t = (reply, err)"
    using call by (simp add: request_message_def)
  show ?thesis
    unfolding r [OF c] received_def answer_text_def Inr sum.case call prod.case
    by (auto simp: output_only_def no_reply_def unanswered_def told_text_def no_strings Let_def
        split: option.splits list.splits)
qed

text \<open>The account the loop finds, if the database asks for at most \<open>k\<close> larger buffers.\<close>

definition account_of :: "pam_handle \<Rightarrow> string \<Rightarrow> nat \<Rightarrow> account option" where
  "account_of ph user k = (case ph_getpwnam ph user (8192 + 4 * k) of Found pw \<Rightarrow> Some pw | _ \<Rightarrow> None)"

definition answers_at :: "pam_handle \<Rightarrow> string \<Rightarrow> nat \<Rightarrow> bool" where
  "answers_at ph user k \<longleftrightarrow> (\<forall>j < k. ph_getpwnam ph user (8192 + 4 * j) = Too_small)
     \<and> ph_getpwnam ph user (8192 + 4 * k) \<noteq> Too_small \<and> 8192 + 4 * k < SIZE_LIMIT"

lemma look_up_account_result:
  assumes "\<forall>n. mem n" "answers_at ph user k"
  shows "look_up_account mem (ph_getpwnam ph user) 8192 = Some (account_of ph user k)"
proof -
  have "look_up_account mem (ph_getpwnam ph user) 8192 = look_up_account mem (ph_getpwnam ph user) (8192 + 4 * k)"
    using assms by (intro look_up_account_finds) (auto simp: answers_at_def)
  also have "\<dots> = Some (account_of ph user k)"
    using assms by (subst look_up_account_unfold) (auto simp: answers_at_def account_of_def split: pw_answer.split)
  finally show ?thesis .
qed

text \<open>What a session shows and sends.\<close>

definition told :: "pam_handle \<Rightarrow> string \<Rightarrow> pam_event list" where
  "told ph text = (if text = [] then [] else conv_text_info ph text)"

definition session_events :: "transport \<Rightarrow> pam_handle \<Rightarrow> string \<Rightarrow> account option \<Rightarrow> string list \<Rightarrow> pam_event list" where
  "session_events tr ph user found argv =
     (let timeout = last (- 1 # map (\<lambda>i. i * 1000) (timeouts argv));
          debug = (\<lambda>s. if ''debug'' \<in> set argv then conv_text_info ph (info_text s) else [])
      in complaints ph (dropWhile (\<lambda>arg. arg \<noteq> ''debug'') argv)
         @ debug (''D-Bus oddjob timeout is '' @ show_int timeout)
         @ (case found of
              None \<Rightarrow> []
            | Some pw \<Rightarrow>
                if ph_uid ph = ac_uid pw \<and> ph_euid ph = ac_uid pw
                then debug (''Ignore gpupdate for user '' @ ac_name pw @ '' with uid '' @ show_int (sint (ac_uid pw)))
                else (case tr_get tr of Inl e \<Rightarrow> [] | Inr conn \<Rightarrow> [request_event user timeout])
                       @ told ph (answer_text tr user timeout)))"

lemma open_session_events:
  assumes "\<forall>n. mem n" "ph_user ph = Some user" "user \<noteq> []" "list_all usable (timeouts argv)"
    "answers_at ph user k" "\<And>timeout. sound_answer tr user timeout"
  shows "pam_sm_open_session mem a tr ph argv
    = Inr (PAM_IGNORE, session_events tr ph user (account_of ph user k) argv)"
proof -
  define t where "t = last (- 1 # map (\<lambda>i. i * 1000) (timeouts argv))"
  obtain ret out where call: "oddjob_dbus_call_method mem a tr ''ru.basealt.oddjob_gpupdate'' ''/''
        ''ru.basealt.oddjob_gpupdate'' ''gpupdatefor'' t output_only no_reply [user] = Inr (ret, out)"
    "out_output out = (None, - 1) \<and> answer_text tr user t = []
        \<or> out_output out = (Some (answer_text tr user t), int (length (answer_text tr user t)))"
    using request_output [OF assms(1,6)] by blast
  obtain flags where parsed: "parse_args ph argv (- 1) = Inr (flags, t,
      complaints ph (dropWhile (\<lambda>arg. arg \<noteq> ''debug'') argv))"
    and odd: "odd flags = (''debug'' \<in> set argv)"
    using assms(4) by (simp add: parse_args_result t_def)
  have shown: "(case out_output out of (reply, n) \<Rightarrow> Inr (case reply of None \<Rightarrow> evs
        | Some text \<Rightarrow> if n > 0 then evs @ conv_text_info ph text else evs))
      = Inr (evs @ told ph (answer_text tr user t))" for evs :: "pam_event list"
    using call(2) by (auto simp: told_def)
  show ?thesis
    using assms(2,3)
    unfolding pam_sm_open_session_def send_pam_oddjob_gpupdate_request_def parsed res_bind_Inr prod.case
      and_debug odd service_names look_up_account_result [OF assms(1,5)] session_events_def t_def [symmetric] Let_def
    by (cases "account_of ph user k") (simp_all add: look_up_account_result [OF assms(1,5)] call(1) shown request_event_def split: sum.split)
qed

text \<open>
  C13. With a user, usable timeouts and a password database that answers, opening a session
  shows and sends exactly the specified events: complaints about bad options and the timeout if
  debugging was asked for, then, for a user with an account, and unless the real and the
  effective uid of the process are both that account's (the code does not ask for superuser
  privileges), the request if there is a connection to the bus, and the answer's first text, or
  the text of the D-Bus error.
\<close>

theorem open_session_result:
  assumes "\<forall>n. mem n" "ph_user ph = Some user" "user \<noteq> []" "list_all usable (timeouts argv)"
    "answers_at ph user k" "\<And>timeout. sound_answer tr user timeout"
  shows "pam_sm_open_session mem a tr ph argv
    = Inr (PAM_IGNORE, session_events tr ph user (account_of ph user k) argv)"
  using assms by (rule open_session_events)

definition sample_handle :: pam_handle where
  "sample_handle = \<lparr>ph_conv = Some (Some True), ph_answer = \<lambda>_. (True, Some None), ph_user = Some ''joe'',
     ph_getpwnam = \<lambda>_ n. if n < 8200 then Too_small else Found \<lparr>ac_name = ''joe'', ac_uid = 1000\<rparr>,
     ph_uid = 0, ph_euid = 0\<rparr>"

lemma sample_session:
  "ph_user sample_handle = Some ''joe''" "list_all usable (timeouts [''dbus_timeout=2''])"
  "answers_at sample_handle ''joe'' 2" "sound_answer sample_transport ''joe'' timeout"
  "session_events sample_transport sample_handle ''joe'' (account_of sample_handle ''joe'' 2) [''dbus_timeout=2'']
    = [request_event ''joe'' 2000, Text_info ''done'', Free_responses]"
proof -
  have t: "timeouts [''dbus_timeout=2''] = [2]" by code_simp
  have s: "strings_of [Arg_int32 3, Arg_string ''done'', Arg_string ''''] = [''done'', '''']"
    by (simp add: strings_of_def)
  have a: "answer_text sample_transport ''joe'' 2000 = ''done''"
    by (simp add: answer_text_def sample_transport_def s)
  have c: "complaints sample_handle [] = []" by (simp add: complaints_def map_filter_def)
  show "ph_user sample_handle = Some ''joe''" by (simp add: sample_handle_def)
  show "list_all usable (timeouts [''dbus_timeout=2''])" by (simp add: t usable_def fits_int_def)
  show "answers_at sample_handle ''joe'' 2" by (auto simp: answers_at_def sample_handle_def SIZE_LIMIT_val)
  show "sound_answer sample_transport ''joe'' timeout"
    by (simp add: sound_answer_def sample_transport_def s nul_free_def NUL_def)
  show "session_events sample_transport sample_handle ''joe'' (account_of sample_handle ''joe'' 2) [''dbus_timeout=2'']
    = [request_event ''joe'' 2000, Text_info ''done'', Free_responses]"
    by (simp add: session_events_def t c a told_def)
       (simp add: sample_handle_def account_of_def conv_text_info_def a told_def, simp add: sample_transport_def)
qed

theorem open_session_result_witness:
  "pam_sm_open_session (\<lambda>_. True) no_acl sample_transport sample_handle [''dbus_timeout=2'']
    = Inr (PAM_IGNORE, [request_event ''joe'' 2000, Text_info ''done'', Free_responses])"
  using open_session_result [OF _ sample_session(1) _ sample_session(2,3,4), of "\<lambda>_. True" no_acl]
  by (simp add: sample_session(5))

fun is_request :: "pam_event \<Rightarrow> bool" where
  "is_request (Request s p i m u t) = True"
| "is_request _ = False"

lemma conv_text_no_request [simp]: "filter is_request (conv_text_info ph s) = []"
  by (auto simp: conv_text_info_def split: option.split bool.split prod.split)

lemma complaints_no_request [simp]: "filter is_request (complaints ph argv) = []"
  by (induction argv) (auto simp: complaints_Cons complaints_def map_filter_def split: option.split)

lemma parse_args_no_request: "parse_args ph argv t = Inr (flags, t', evs) \<Longrightarrow> filter is_request evs = []"
  by (auto simp: parse_args_result split: if_splits)

lemma filter_told: "filter is_request (if b then evs @ conv_text_info ph s else evs) = filter is_request evs"
  by simp

text \<open>
  C16. Whatever the arguments, the conversation, the database and the bus do, a session that
  returns gives PAM_IGNORE and sent at most one request, for the non-empty user of the handle
  found in the database, and only when the real or the effective uid differs from that
  account's.
\<close>

theorem open_session_safe:
  assumes "pam_sm_open_session mem a tr ph argv = Inr (r, evs)"
  shows "r = PAM_IGNORE
    \<and> (filter is_request evs = []
       \<or> (\<exists>user pw n t. filter is_request evs = [request_event user t]
            \<and> ph_user ph = Some user \<and> user \<noteq> [] \<and> ph_getpwnam ph user n = Found pw
            \<and> (ph_uid ph \<noteq> ac_uid pw \<or> ph_euid ph \<noteq> ac_uid pw)))"
proof -
  obtain flags t evs0 where p: "parse_args ph argv (- 1) = Inr (flags, t, evs0)"
    using assms by (auto simp: pam_sm_open_session_def send_pam_oddjob_gpupdate_request_def res_simps)
  define evs1 where "evs1 = (if flags AND PAM_DEBUG_ARG \<noteq> 0
      then evs0 @ conv_text_info ph (info_text (''D-Bus oddjob timeout is '' @ show_int t)) else evs0)"
  have none: "filter is_request evs1 = []"
    using parse_args_no_request [OF p] by (simp add: evs1_def)
  note run = assms [unfolded pam_sm_open_session_def send_pam_oddjob_gpupdate_request_def p res_bind_Inr
      prod.case service_names Let_def, folded evs1_def]
  show ?thesis
  proof (cases "\<exists>user. ph_user ph = Some user \<and> user \<noteq> []")
    case False
    with run none show ?thesis by (cases "ph_user ph") auto
  next
    case True
    then obtain user where user: "ph_user ph = Some user" "user \<noteq> []" by blast
    show ?thesis
    proof (cases "\<exists>pw. look_up_account mem (ph_getpwnam ph user) 8192 = Some (Some pw)
        \<and> (ph_uid ph \<noteq> ac_uid pw \<or> ph_euid ph \<noteq> ac_uid pw)")
      case True
      then obtain pw where pw: "look_up_account mem (ph_getpwnam ph user) 8192 = Some (Some pw)"
        "ph_uid ph \<noteq> ac_uid pw \<or> ph_euid ph \<noteq> ac_uid pw" by blast
      then obtain n where "ph_getpwnam ph user n = Found pw" using look_up_account_found by blast
      moreover have "r = PAM_IGNORE" "filter is_request evs = [] \<or> filter is_request evs = [request_event user t]"
        using run user pw none
        by (auto simp: res_simps request_event_def filter_told split: if_splits option.splits sum.splits)
      ultimately show ?thesis using user pw(2) by blast
    next
      case False
      with run user none show ?thesis
        by (auto simp: res_simps filter_told split: if_splits option.splits)
    qed
  qed
qed

theorem open_session_safe_witness:
  "\<exists>pw n. ph_getpwnam sample_handle ''joe'' n = Found pw \<and> ph_uid sample_handle \<noteq> ac_uid pw"
proof -
  have "pam_sm_open_session (\<lambda>_. True) no_acl sample_transport sample_handle [''dbus_timeout=2'']
      = Inr (PAM_IGNORE, [request_event ''joe'' 2000, Text_info ''done'', Free_responses])"
    using open_session_events [OF _ sample_session(1) _ sample_session(2,3,4), of "\<lambda>_. True" no_acl]
    by (simp add: sample_session(5))
  from open_session_safe [OF this] show ?thesis
    by (auto simp: request_event_def sample_handle_def)
qed

end
