(* ===== verification/Chains.thy ===== *)
theory Chains
  imports Prelude
begin

text \<open>
  Singly linked lists of src/mainloop.c. A list is the sequence of its nodes, each with its
  address; addresses grow with every allocation and new nodes go to the front, so a well-formed
  list has falling addresses. A pointer is an address; following a pointer to a node that is no
  longer in the list is a use after free. Every list of the main loop has the same two operations
  (the interface \<open>registration\<close>) and is walked by loops of the same shape (\<open>walk\<close>).
\<close>

section \<open>Nodes\<close>

type_synonym 'a chain = "(nat \<times> 'a) list"

definition first :: "'a chain \<Rightarrow> nat option" where
  "first cs = (case cs of [] \<Rightarrow> None | c # _ \<Rightarrow> Some (fst c))"

text \<open>The \<open>next\<close> field of the node at an address.\<close>

fun next_of :: "'a chain \<Rightarrow> nat \<Rightarrow> nat option" where
  "next_of [] p = None"
| "next_of (c # cs) p = (if fst c = p then first cs else next_of cs p)"

text \<open>Whether a node satisfies the test of the loop over the list.\<close>

definition on_chain :: "('a \<Rightarrow> bool) \<Rightarrow> 'a chain \<Rightarrow> bool" where
  "on_chain P cs = list_ex (\<lambda>c. P (snd c)) cs"

text \<open>Taking out the first node that satisfies the test, with \<open>pred\<close> one step behind.\<close>

fun unlink :: "('a \<Rightarrow> bool) \<Rightarrow> 'a chain \<Rightarrow> 'a chain" where
  "unlink P [] = []"
| "unlink P (c # cs) = (if P (snd c) then cs else c # unlink P cs)"

text \<open>Falling addresses below a bound.\<close>

definition chain_ok :: "nat \<Rightarrow> 'a chain \<Rightarrow> bool" where
  "chain_ok bound cs \<longleftrightarrow> sorted_wrt (>) (map fst cs) \<and> list_all (\<lambda>c. fst c < bound) cs"

lemma chain_ok_Nil [simp]: "chain_ok b []"
  by (simp add: chain_ok_def)

lemma chain_ok_Cons [simp]:
  "chain_ok b (c # cs) \<longleftrightarrow> fst c < b \<and> chain_ok (fst c) cs"
  by (auto simp: chain_ok_def list_all_iff)

lemma chain_ok_push: "chain_ok b cs \<Longrightarrow> chain_ok (Suc b) ((b, x) # cs)"
  by simp

lemma chain_ok_mono: "chain_ok b cs \<Longrightarrow> b \<le> b' \<Longrightarrow> chain_ok b' cs"
  by (auto simp: chain_ok_def list_all_iff)

lemma set_unlink: "set (unlink P cs) \<subseteq> set cs"
  by (induction cs) auto

lemma chain_ok_unlink: "chain_ok b cs \<Longrightarrow> chain_ok b (unlink P cs)"
  by (induction cs arbitrary: b) (auto elim: chain_ok_mono)

lemma unlink_below: "(\<And>q y. (q, y) \<in> set cs \<Longrightarrow> P y \<Longrightarrow> p \<le> q) \<Longrightarrow>
    filter (\<lambda>c. fst c < p) (unlink P cs) = filter (\<lambda>c. fst c < p) cs"
  by (induction cs) (auto, force+)

lemma unlink_unique:
  assumes "distinct (map fst cs)" "(p, x) \<in> set cs" "P x" "\<And>q y. (q, y) \<in> set cs \<Longrightarrow> P y \<Longrightarrow> q = p"
  shows "unlink P cs = filter (\<lambda>c. fst c \<noteq> p) cs"
  using assms
proof (induction cs)
  case (Cons c cs)
  show ?case
  proof (cases "P (snd c)")
    case True
    then have "fst c = p" using Cons.prems(4) [of "fst c" "snd c"] by simp
    moreover have "p \<notin> fst ` set cs" using Cons.prems(1) \<open>fst c = p\<close> by simp
    then have "filter (\<lambda>c. fst c \<noteq> p) cs = cs" by (force simp: filter_id_conv)
    ultimately show ?thesis using True by simp
  next
    case False
    then have mem: "(p, x) \<in> set cs" using Cons.prems(2,3) by auto
    then have "fst c \<noteq> p" using Cons.prems(1) by (metis distinct.simps(2) fst_conv image_eqI list.simps(9) set_map)
    moreover have "unlink P cs = filter (\<lambda>c. fst c \<noteq> p) cs" using Cons.prems mem by (intro Cons.IH) auto
    ultimately show ?thesis using False by simp
  qed
qed simp

lemma unlink_keys: "map key (map snd (unlink (\<lambda>x. key x = k) cs)) = remove1 k (map key (map snd cs))"
  by (induction cs) auto

lemma on_chain_keys: "on_chain (\<lambda>x. key x = k) cs \<longleftrightarrow> k \<in> set (map key (map snd cs))"
  by (auto simp: on_chain_def list_ex_iff)

lemma chain_ok_distinct: "chain_ok b cs \<Longrightarrow> distinct (map fst cs)"
  by (induction cs arbitrary: b) (auto simp: chain_ok_def list_all_iff)

section \<open>The nodes below an address\<close>

definition below :: "nat \<Rightarrow> 'a chain \<Rightarrow> 'a chain" where
  "below p cs = filter (\<lambda>c. fst c < p) cs"

lemma below_all: "chain_ok p cs \<Longrightarrow> below p cs = cs"
  by (auto simp: chain_ok_def below_def list_all_iff filter_id_conv)

lemma chain_ok_below: "chain_ok b cs \<Longrightarrow> chain_ok p (below p cs)"
  by (induction cs arbitrary: b) (auto simp: chain_ok_def below_def list_all_iff)

lemma below_tail:
  assumes "chain_ok b ((p, x) # cs)" "below b cells = (p, x) # cs"
  shows "below p cells = cs"
proof -
  have "p < b" using assms(1) by simp
  then have "below p cells = below p (below b cells)"
    by (auto simp: below_def intro!: filter_cong)
  also have "\<dots> = cs"
    using assms below_all [of p cs] by (simp add: below_def [of p])
  finally show ?thesis .
qed

lemma next_of_below:
  "chain_ok b cs \<Longrightarrow> p \<in> fst ` set cs \<Longrightarrow> next_of cs p = first (below p cs)"
proof (induction cs arbitrary: b)
  case (Cons c cs)
  show ?case
  proof (cases "fst c = p")
    case True
    with Cons.prems show ?thesis using below_all [of p cs] by (auto simp: below_def)
  next
    case False
    with Cons.prems have "p < fst c" by (auto simp: chain_ok_def list_all_iff)
    with False Cons show ?thesis by (auto simp: below_def)
  qed
qed simp

lemma next_of_less: "chain_ok b cs \<Longrightarrow> next_of cs p = Some q \<Longrightarrow> q < p"
proof (induction cs arbitrary: b)
  case (Cons c cs)
  then show ?case by (cases cs) (auto simp: first_def split: if_splits)
qed simp

section \<open>Walking a list\<close>

text \<open>
  \<open>for (l = list; l != NULL; l = lnext) { lnext = l->next; body }\<close>: the body may change the
  list. The walk returns \<open>None\<close> if it never ends.
\<close>

partial_function (option) walk ::
  "('s \<Rightarrow> 'a chain) \<Rightarrow> (nat \<Rightarrow> 'a \<Rightarrow> 's \<Rightarrow> 's res) \<Rightarrow> nat option \<Rightarrow> 's \<Rightarrow> 's res option" where
  "walk cells body l s =
     (case l of
        None \<Rightarrow> Some (Inr s)
      | Some p \<Rightarrow>
          (case map_of (cells s) p of
             None \<Rightarrow> Some (Inl Use_after_free)
           | Some x \<Rightarrow>
               (case body p x s of
                  Inl e \<Rightarrow> Some (Inl e)
                | Inr s' \<Rightarrow> walk cells body (next_of (cells s) p) s')))"

declare walk.simps [code]

lemma walk_None [simp]: "walk cells body None s = Some (Inr s)"
  by (subst walk.simps) simp

lemma walk_Some:
  "walk cells body (Some p) s = (case map_of (cells s) p of
       None \<Rightarrow> Some (Inl Use_after_free)
     | Some x \<Rightarrow> (case body p x s of Inl e \<Rightarrow> Some (Inl e) | Inr s' \<Rightarrow> walk cells body (next_of (cells s) p) s'))"
  by (subst walk.simps) simp

text \<open>A loop that does not end is the fault \<open>Diverges\<close>.\<close>

definition ended :: "'a res option \<Rightarrow> 'a res" where
  "ended r = (case r of None \<Rightarrow> Inl Diverges | Some x \<Rightarrow> x)"

lemma ended_Some [simp]: "ended (Some r) = r"
  by (simp add: ended_def)

text \<open>Where a fault of the walk comes from.\<close>

lemma walk_fault:
  "walk cells body l s = Some r \<Longrightarrow> \<forall>e. r = Inl e \<longrightarrow> e = Use_after_free \<or> (\<exists>p x s. body p x s = Inl e)"
proof (erule walk.raw_induct [rotated,
      where P = "\<lambda>cells body l s r. \<forall>e. r = Inl e \<longrightarrow> e = Use_after_free \<or> (\<exists>p x s. body p x s = Inl e)"])
qed (auto split: option.splits sum.splits)

text \<open>The reference: the body for each node of a fixed list.\<close>

fun for_each :: "(nat \<Rightarrow> 'a \<Rightarrow> 's \<Rightarrow> 's res) \<Rightarrow> 'a chain \<Rightarrow> 's \<Rightarrow> 's res" where
  "for_each body [] s = Inr s"
| "for_each body (c # cs) s = res_bind (body (fst c) (snd c) s) (for_each body cs)"

text \<open>A loop whose body keeps the list well formed ends.\<close>

locale ending_walk =
  fixes cells :: "'s \<Rightarrow> 'a chain" and body :: "nat \<Rightarrow> 'a \<Rightarrow> 's \<Rightarrow> 's res" and inv :: "'s \<Rightarrow> bool"
  assumes inv_chain: "inv s \<Longrightarrow> \<exists>b. chain_ok b (cells s)"
    and inv_body: "inv s \<Longrightarrow> (p, x) \<in> set (cells s) \<Longrightarrow> body p x s = Inr s' \<Longrightarrow> inv s'"
begin

lemma ends: "inv s \<Longrightarrow> \<exists>r. walk cells body l s = Some r \<and> (\<forall>s'. r = Inr s' \<longrightarrow> inv s')"
proof -
  have "inv s \<Longrightarrow> \<exists>r. walk cells body (Some p) s = Some r \<and> (\<forall>s'. r = Inr s' \<longrightarrow> inv s')" for p
  proof (induction p arbitrary: s rule: less_induct)
    case (less p)
    show ?case
    proof (cases "map_of (cells s) p")
      case (Some x)
      show ?thesis
      proof (cases "body p x s")
        case (Inr s')
        then have inv: "inv s'" using less.prems Some by (auto intro: inv_body dest: map_of_SomeD)
        show ?thesis
        proof (cases "next_of (cells s) p")
          case (Some q)
          with inv_chain [OF less.prems] have "q < p" by (auto dest: next_of_less)
          from less.IH [OF this inv] Some Inr \<open>map_of (cells s) p = Some x\<close> show ?thesis
            by (simp add: walk_Some)
        qed (use Inr Some inv in \<open>simp add: walk_Some\<close>)
      qed (use Some in \<open>simp add: walk_Some\<close>)
    qed (simp add: walk_Some)
  qed
  then show "inv s \<Longrightarrow> ?thesis" by (cases l) auto
qed

lemma ended_ok:
  assumes "inv s" "\<And>p x s. body p x s \<noteq> Inl Diverges"
  shows "ends_with inv (ended (walk cells body l s))"
proof -
  obtain r where r: "walk cells body l s = Some r" "\<forall>s'. r = Inr s' \<longrightarrow> inv s'" using ends [OF assms(1)] by blast
  then show ?thesis using walk_fault [OF r(1)] assms(2) by (cases r) auto
qed

end

text \<open>
  A loop whose body also leaves the nodes alone that it has not reached does what the reference
  does: it never follows a pointer to a released node and visits every node once.
\<close>

locale steady_walk = ending_walk +
  assumes body_below: "inv s \<Longrightarrow> (p, x) \<in> set (cells s) \<Longrightarrow> body p x s = Inr s'
      \<Longrightarrow> below p (cells s') = below p (cells s)"
begin

lemma walk_from:
  "inv s \<Longrightarrow> chain_ok b cs \<Longrightarrow> below b (cells s) = cs \<Longrightarrow>
     walk cells body (first cs) s = Some (for_each body cs s)"
proof (induction cs arbitrary: s b)
  case Nil
  then show ?case by (simp add: first_def)
next
  case (Cons c cs)
  obtain p x where c: "c = (p, x)" by fastforce
  obtain b' where ok: "chain_ok b' (cells s)" using inv_chain Cons.prems(1) by blast
  have mem: "(p, x) \<in> set (cells s)"
    using Cons.prems(3) c by (auto simp: below_def filter_eq_Cons_iff)
  then have look: "map_of (cells s) p = Some x" using chain_ok_distinct [OF ok] by simp
  have rest: "below p (cells s) = cs" using Cons.prems(2,3) c by (auto intro: below_tail)
  have nxt: "next_of (cells s) p = first cs"
    using next_of_below [OF ok] mem rest by (metis fst_conv image_eqI)
  show ?case
  proof (cases "body p x s")
    case (Inr s')
    have "inv s'" "below p (cells s') = cs"
      using inv_body [OF Cons.prems(1) mem Inr] body_below [OF Cons.prems(1) mem Inr] rest by simp_all
    with Cons.IH [of s' p] Cons.prems(2) c show ?thesis
      by (simp add: first_def [of "(p, x) # cs"] walk_Some look Inr nxt)
  qed (simp add: c first_def [of "(p, x) # cs"] walk_Some look)
qed

lemma visits_each:
  assumes "inv s"
  shows "walk cells body (first (cells s)) s = Some (for_each body (cells s) s)"
proof -
  obtain b where "chain_ok b (cells s)" using inv_chain assms by blast
  with walk_from [OF assms this] below_all show ?thesis by metis
qed

text \<open>A fault that no body has cannot come from the loop.\<close>

lemma spared:
  assumes "\<And>p x s. inv s \<Longrightarrow> (p, x) \<in> set (cells s) \<Longrightarrow> body p x s \<noteq> Inl e"
  shows "inv s \<Longrightarrow> chain_ok b cs \<Longrightarrow> below b (cells s) = cs \<Longrightarrow> for_each body cs s \<noteq> Inl e"
proof (induction cs arbitrary: s b)
  case (Cons c cs)
  obtain p x where c: "c = (p, x)" by fastforce
  have mem: "(p, x) \<in> set (cells s)"
    using Cons.prems(3) c by (auto simp: below_def filter_eq_Cons_iff)
  have rest: "below p (cells s) = cs" using Cons.prems(2,3) c by (auto intro: below_tail)
  show ?case
  proof (cases "body p x s")
    case (Inr s')
    then show ?thesis
      using Cons.IH [of s' p] Cons.prems(1,2) mem rest c inv_body body_below by auto
  qed (use assms [OF Cons.prems(1) mem] c in auto)
qed simp

end

section \<open>Registrations\<close>

text \<open>
  A list of the main loop as its clients see it: \<open>add\<close> enters a key unless it is there or memory
  runs out, \<open>remove\<close> takes it out.
\<close>

locale registration =
  fixes keys :: "'s \<Rightarrow> 'k list" and add :: "'k \<Rightarrow> 'p \<Rightarrow> 's \<Rightarrow> bool \<times> 's" and remove :: "'k \<Rightarrow> 's \<Rightarrow> 's"
  assumes add_present: "k \<in> set (keys s) \<Longrightarrow> add k p s = (True, s)"
    and add_absent: "k \<notin> set (keys s) \<Longrightarrow> add k p s = (ok, s') \<Longrightarrow> keys s' = (if ok then k # keys s else keys s)"
    and remove_keys: "keys (remove k s) = remove1 k (keys s)"
begin

lemma keys_add:
  "keys (snd (add k p s)) = (if k \<in> set (keys s) \<or> \<not> fst (add k p s) then keys s else k # keys s)"
  using add_present [of k s p] add_absent [of k s p "fst (add k p s)" "snd (add k p s)"]
  by (cases "k \<in> set (keys s)") simp_all

lemma add_distinct: "distinct (keys s) \<Longrightarrow> distinct (keys (snd (add k p s)))"
  by (simp add: keys_add)

lemma remove_distinct: "distinct (keys s) \<Longrightarrow> distinct (keys (remove k s))"
  by (simp add: remove_keys)

lemma add_set: "set (keys (snd (add k p s))) = (if fst (add k p s) then insert k (set (keys s)) else set (keys s))"
  using add_present [of k s p] by (auto simp: keys_add)

lemma remove_set: "distinct (keys s) \<Longrightarrow> set (keys (remove k s)) = set (keys s) - {k}"
  by (simp add: remove_keys)

lemma add_twice: "fst (add k p s) \<Longrightarrow> add k q (snd (add k p s)) = (True, snd (add k p s))"
  by (intro add_present) (simp add: add_set)

lemma remove_added: "k \<notin> set (keys s) \<Longrightarrow> fst (add k p s) \<Longrightarrow> keys (remove k (snd (add k p s))) = keys s"
  by (simp add: remove_keys keys_add)

end

end
