(* ===== verification/Mainloop.thy ===== *)
theory Mainloop
  imports Tables Chains "HOL-Library.Signed_Division" "HOL-Library.Word"
begin

unbundle bit_operations_syntax

text \<open>
  The main loop of src/mainloop.c: the lists of watches, timeouts and children, the preparation
  of \<open>select\<close> and the handling of what became ready. libdbus, the callbacks of the clients and the
  kernel are the record \<open>system\<close> over an arbitrary world; a callback acts on the main loop by the
  list of the operations it calls.
\<close>

section \<open>The lists\<close>

text \<open>libdbus watches and timeouts, functions and their data are addresses.\<close>

datatype watch =
    Dbus_watch nat
  | Oddjob_watch int nat nat nat  \<comment> \<open>descriptor, flags, function, data\<close>

record dbus_timeout =
  to_dtimeout :: nat
  to_start :: "int \<times> int"

record child =
  ch_pid :: int
  ch_fn :: nat
  ch_data :: nat

record 'w mainloop =
  watch_list :: "watch chain"
  timeout_list :: "dbus_timeout chain"
  pid_list :: "child chain"
  ml_fresh :: nat
  ml_world :: 'w

datatype ml_op =
    Op_pid_add int nat nat
  | Op_pid_remove int
  | Op_watch_add int nat nat nat
  | Op_watch_remove int
  | Op_dbus_watch_add nat
  | Op_dbus_watch_remove nat
  | Op_dbus_watch_toggle nat
  | Op_timeout_add nat
  | Op_timeout_remove nat
  | Op_timeout_toggle nat

text \<open>The descriptors of a call of \<open>select\<close>, with the largest of them.\<close>

record selection =
  sel_max :: int
  sel_read :: "int set"
  sel_write :: "int set"
  sel_error :: "int set"

text \<open>
  What the rest of the process and the kernel answer: the time of day (\<open>None\<close> is -1), whether a
  libdbus watch or timeout is enabled, its descriptor, flags and interval, what handling it or
  calling a client's function does, \<open>select\<close>, \<open>waitpid\<close> (the status if it returns the pid), and
  what libdbus calls when a connection's watch and timeout functions are set or cleared.
\<close>

record 'w system =
  sy_gettimeofday :: "'w \<Rightarrow> (int \<times> int) option \<times> 'w"
  sy_watch_enabled :: "'w \<Rightarrow> nat \<Rightarrow> bool"
  sy_watch_fd :: "'w \<Rightarrow> nat \<Rightarrow> int"
  sy_watch_flags :: "'w \<Rightarrow> nat \<Rightarrow> nat"
  sy_timeout_enabled :: "'w \<Rightarrow> nat \<Rightarrow> bool"
  sy_timeout_interval :: "'w \<Rightarrow> nat \<Rightarrow> int"
  sy_watch_handle :: "nat \<Rightarrow> nat \<Rightarrow> 'w \<Rightarrow> 'w \<times> ml_op list"
  sy_timeout_handle :: "nat \<Rightarrow> 'w \<Rightarrow> 'w \<times> ml_op list"
  sy_watch_fn :: "nat \<Rightarrow> int \<Rightarrow> nat \<Rightarrow> nat \<Rightarrow> 'w \<Rightarrow> bool \<times> 'w \<times> ml_op list"
  sy_pid_fn :: "nat \<Rightarrow> int \<Rightarrow> int \<Rightarrow> nat \<Rightarrow> 'w \<Rightarrow> 'w \<times> ml_op list"
  sy_waitpid :: "int \<Rightarrow> 'w \<Rightarrow> int option \<times> 'w"
  sy_select :: "selection \<Rightarrow> (int \<times> int) option \<Rightarrow> 'w \<Rightarrow> int \<times> selection \<times> 'w"
  sy_watch_functions :: "nat \<Rightarrow> bool \<Rightarrow> 'w \<Rightarrow> 'w \<times> ml_op list"
  sy_timeout_functions :: "nat \<Rightarrow> bool \<Rightarrow> 'w \<Rightarrow> 'w \<times> ml_op list"

section \<open>Adding and removing\<close>

definition push_child :: "child \<Rightarrow> 'w mainloop \<Rightarrow> 'w mainloop" where
  "push_child c st = st\<lparr>pid_list := (ml_fresh st, c) # pid_list st, ml_fresh := Suc (ml_fresh st)\<rparr>"

definition push_watch :: "watch \<Rightarrow> 'w mainloop \<Rightarrow> 'w mainloop" where
  "push_watch w st = st\<lparr>watch_list := (ml_fresh st, w) # watch_list st, ml_fresh := Suc (ml_fresh st)\<rparr>"

definition push_timeout :: "dbus_timeout \<Rightarrow> 'w mainloop \<Rightarrow> 'w mainloop" where
  "push_timeout t st = st\<lparr>timeout_list := (ml_fresh st, t) # timeout_list st, ml_fresh := Suc (ml_fresh st)\<rparr>"

definition mainloop_pid_add :: "avail \<Rightarrow> int \<Rightarrow> nat \<Rightarrow> nat \<Rightarrow> 'w mainloop \<Rightarrow> bool \<times> 'w mainloop" where
  "mainloop_pid_add mem pid fn data st =
     (if on_chain (\<lambda>c. ch_pid c = pid) (pid_list st) then (True, st)
      else if \<not> mem 32 then (False, st)
      else (True, push_child \<lparr>ch_pid = pid, ch_fn = fn, ch_data = data\<rparr> st))"

definition mainloop_pid_remove :: "int \<Rightarrow> 'w mainloop \<Rightarrow> 'w mainloop" where
  "mainloop_pid_remove pid st = st\<lparr>pid_list := unlink (\<lambda>c. ch_pid c = pid) (pid_list st)\<rparr>"

fun is_oddjob_fd :: "int \<Rightarrow> watch \<Rightarrow> bool" where
  "is_oddjob_fd fd (Oddjob_watch fd' flags fn data) = (fd' = fd)"
| "is_oddjob_fd fd (Dbus_watch w) = False"

fun is_dbus_watch :: "nat \<Rightarrow> watch \<Rightarrow> bool" where
  "is_dbus_watch w (Dbus_watch w') = (w' = w)"
| "is_dbus_watch w (Oddjob_watch fd flags fn data) = False"

definition mainloop_oddjob_watch_add ::
  "avail \<Rightarrow> int \<Rightarrow> nat \<Rightarrow> nat \<Rightarrow> nat \<Rightarrow> 'w mainloop \<Rightarrow> bool \<times> 'w mainloop" where
  "mainloop_oddjob_watch_add mem fd flags fn data st =
     (if on_chain (is_oddjob_fd fd) (watch_list st) then (True, st)
      else if \<not> mem 48 then (False, st)
      else (True, push_watch (Oddjob_watch fd flags fn data) st))"

definition mainloop_oddjob_watch_remove :: "int \<Rightarrow> 'w mainloop \<Rightarrow> 'w mainloop" where
  "mainloop_oddjob_watch_remove fd st = st\<lparr>watch_list := unlink (is_oddjob_fd fd) (watch_list st)\<rparr>"

definition watch_dbus_add :: "avail \<Rightarrow> nat \<Rightarrow> 'w mainloop \<Rightarrow> bool \<times> 'w mainloop" where
  "watch_dbus_add mem watch st =
     (if on_chain (is_dbus_watch watch) (watch_list st) then (True, st)
      else if \<not> mem 48 then (False, st)
      else (True, push_watch (Dbus_watch watch) st))"

definition watch_dbus_remove :: "nat \<Rightarrow> 'w mainloop \<Rightarrow> 'w mainloop" where
  "watch_dbus_remove watch st = st\<lparr>watch_list := unlink (is_dbus_watch watch) (watch_list st)\<rparr>"

definition watch_dbus_toggle :: "nat \<Rightarrow> 'w mainloop \<Rightarrow> 'w mainloop" where
  "watch_dbus_toggle unused_watch st = st"

definition timeout_dbus_add :: "avail \<Rightarrow> 'w system \<Rightarrow> nat \<Rightarrow> 'w mainloop \<Rightarrow> bool \<times> 'w mainloop" where
  "timeout_dbus_add mem sys timeout st =
     (if on_chain (\<lambda>t. to_dtimeout t = timeout) (timeout_list st) then (True, st)
      else case sy_gettimeofday sys (ml_world st) of
        (None, w) \<Rightarrow> (False, st\<lparr>ml_world := w\<rparr>)
      | (Some tv, w) \<Rightarrow>
          if \<not> mem 40 then (False, st\<lparr>ml_world := w\<rparr>)
          else (True, push_timeout \<lparr>to_dtimeout = timeout, to_start = tv\<rparr> (st\<lparr>ml_world := w\<rparr>)))"

definition timeout_dbus_remove :: "nat \<Rightarrow> 'w mainloop \<Rightarrow> 'w mainloop" where
  "timeout_dbus_remove timeout st =
     st\<lparr>timeout_list := unlink (\<lambda>t. to_dtimeout t = timeout) (timeout_list st)\<rparr>"

definition timeout_dbus_toggle :: "nat \<Rightarrow> 'w mainloop \<Rightarrow> 'w mainloop" where
  "timeout_dbus_toggle unused_timeout st = st"

text \<open>The operations a callback calls.\<close>

fun run_op :: "avail \<Rightarrow> 'w system \<Rightarrow> ml_op \<Rightarrow> 'w mainloop \<Rightarrow> 'w mainloop" where
  "run_op mem sys (Op_pid_add pid fn data) st = snd (mainloop_pid_add mem pid fn data st)"
| "run_op mem sys (Op_pid_remove pid) st = mainloop_pid_remove pid st"
| "run_op mem sys (Op_watch_add fd flags fn data) st = snd (mainloop_oddjob_watch_add mem fd flags fn data st)"
| "run_op mem sys (Op_watch_remove fd) st = mainloop_oddjob_watch_remove fd st"
| "run_op mem sys (Op_dbus_watch_add w) st = snd (watch_dbus_add mem w st)"
| "run_op mem sys (Op_dbus_watch_remove w) st = watch_dbus_remove w st"
| "run_op mem sys (Op_dbus_watch_toggle w) st = watch_dbus_toggle w st"
| "run_op mem sys (Op_timeout_add t) st = snd (timeout_dbus_add mem sys t st)"
| "run_op mem sys (Op_timeout_remove t) st = timeout_dbus_remove t st"
| "run_op mem sys (Op_timeout_toggle t) st = timeout_dbus_toggle t st"

definition run_ops :: "avail \<Rightarrow> 'w system \<Rightarrow> ml_op list \<Rightarrow> 'w mainloop \<Rightarrow> 'w mainloop" where
  "run_ops mem sys ops st = fold (run_op mem sys) ops st"

text \<open>A callback: the world it leaves, then its operations.\<close>

definition called_back :: "avail \<Rightarrow> 'w system \<Rightarrow> 'w \<times> ml_op list \<Rightarrow> 'w mainloop \<Rightarrow> 'w mainloop" where
  "called_back mem sys r st = run_ops mem sys (snd r) (st\<lparr>ml_world := fst r\<rparr>)"

definition mainloop_connect :: "avail \<Rightarrow> 'w system \<Rightarrow> nat \<Rightarrow> 'w mainloop \<Rightarrow> 'w mainloop" where
  "mainloop_connect mem sys conn st =
     (let st = called_back mem sys (sy_watch_functions sys conn True (ml_world st)) st
      in called_back mem sys (sy_timeout_functions sys conn True (ml_world st)) st)"

definition mainloop_disconnect :: "avail \<Rightarrow> 'w system \<Rightarrow> nat \<Rightarrow> 'w mainloop \<Rightarrow> 'w mainloop" where
  "mainloop_disconnect mem sys conn st =
     (let st = called_back mem sys (sy_watch_functions sys conn False (ml_world st)) st
      in called_back mem sys (sy_timeout_functions sys conn False (ml_world st)) st)"

section \<open>Preparing select\<close>

definition WATCH_READABLE :: nat where "WATCH_READABLE = 1"
definition WATCH_WRITABLE :: nat where "WATCH_WRITABLE = 2"
definition WATCH_ERROR :: nat where "WATCH_ERROR = 4"
definition WATCH_HANGUP :: nat where "WATCH_HANGUP = 8"

text \<open>An \<open>fd_set\<close> has 1024 bits; \<open>FD_SET\<close> and \<open>FD_ISSET\<close> do not check the index.\<close>

definition FD_SET :: "int \<Rightarrow> int set \<Rightarrow> int set res" where
  "FD_SET fd s = (if 0 \<le> fd \<and> fd < 1024 then Inr (insert fd s) else Inl Out_of_bounds)"

definition FD_ISSET :: "int \<Rightarrow> int set \<Rightarrow> bool res" where
  "FD_ISSET fd s = (if 0 \<le> fd \<and> fd < 1024 then Inr (fd \<in> s) else Inl Out_of_bounds)"

definition raise_max :: "int \<Rightarrow> selection \<Rightarrow> selection" where
  "raise_max fd sel = sel\<lparr>sel_max := if sel_max sel > fd then sel_max sel else fd\<rparr>"

definition select_fd :: "int \<Rightarrow> nat \<Rightarrow> selection \<Rightarrow> selection res" where
  "select_fd fd flags sel =
     res_bind (if flags AND (WATCH_READABLE OR WATCH_HANGUP) \<noteq> 0
               then res_bind (FD_SET fd (sel_read sel)) (\<lambda>s. Inr (raise_max fd (sel\<lparr>sel_read := s\<rparr>)))
               else Inr sel) (\<lambda>sel.
     res_bind (if flags AND WATCH_WRITABLE \<noteq> 0
               then res_bind (FD_SET fd (sel_write sel)) (\<lambda>s. Inr (raise_max fd (sel\<lparr>sel_write := s\<rparr>)))
               else Inr sel) (\<lambda>sel.
     if flags AND WATCH_ERROR \<noteq> 0
     then res_bind (FD_SET fd (sel_error sel)) (\<lambda>s. Inr (raise_max fd (sel\<lparr>sel_error := s\<rparr>)))
     else Inr sel))"

fun prepare_watch :: "'w system \<Rightarrow> 'w \<Rightarrow> watch \<Rightarrow> selection \<Rightarrow> selection res" where
  "prepare_watch sys w (Dbus_watch d) sel =
     (if sy_watch_enabled sys w d then select_fd (sy_watch_fd sys w d) (sy_watch_flags sys w d) sel else Inr sel)"
| "prepare_watch sys w (Oddjob_watch fd flags fn data) sel = select_fd fd flags sel"

fun prepare_watches :: "'w system \<Rightarrow> 'w \<Rightarrow> watch list \<Rightarrow> selection \<Rightarrow> selection res" where
  "prepare_watches sys w [] sel = Inr sel"
| "prepare_watches sys w (x # xs) sel = res_bind (prepare_watch sys w x sel) (prepare_watches sys w xs)"

definition to_int :: "int \<Rightarrow> int" where
  "to_int i = signed_take_bit 31 i"

text \<open>
  The loop over the timeouts: whether the timeout is used, its seconds and microseconds, \<open>now\<close>
  (\<open>None\<close> while it is not initialised) and the world. \<open>front\<close>: the node is \<open>timeout_list\<close> itself.
\<close>

definition nearer :: "'w system \<Rightarrow> bool \<Rightarrow> dbus_timeout \<Rightarrow> int \<times> int \<Rightarrow> int \<times> int \<Rightarrow> 'w \<Rightarrow> int \<times> int" where
  "nearer sys front t now tv w =
     (let current_interval = to_int (fst tv * 1000 + snd tv sdiv 1000);
          this_interval = to_int (sy_timeout_interval sys w (to_dtimeout t) - 1000 * (fst now - fst (to_start t)))
      in if front \<or> this_interval < current_interval
         then (this_interval sdiv 1000, (this_interval smod 1000) * 1000) else tv)"

fun prepare_timeouts ::
  "'w system \<Rightarrow> bool \<Rightarrow> dbus_timeout list \<Rightarrow> bool \<Rightarrow> int \<times> int \<Rightarrow> (int \<times> int) option \<Rightarrow> 'w
     \<Rightarrow> (bool \<times> (int \<times> int) \<times> 'w) res" where
  "prepare_timeouts sys front [] use_tv tv now w = Inr (use_tv, tv, w)"
| "prepare_timeouts sys front (t # ts) use_tv tv now w =
     (let (answer, w) = sy_gettimeofday sys w;
          now = (case answer of None \<Rightarrow> now | Some n \<Rightarrow> Some n);
          use_tv = (use_tv \<or> answer \<noteq> None)
      in if \<not> use_tv then Inr (use_tv, tv, w)
         else if sy_timeout_enabled sys w (to_dtimeout t) then
           (case now of
              None \<Rightarrow> Inl Uninitialised
            | Some n \<Rightarrow> prepare_timeouts sys False ts use_tv (nearer sys front t n tv w) now w)
         else prepare_timeouts sys False ts use_tv tv now w)"

definition prepare :: "'w system \<Rightarrow> 'w mainloop \<Rightarrow> (selection \<times> bool \<times> (int \<times> int) \<times> 'w mainloop) res" where
  "prepare sys st =
     res_bind (prepare_watches sys (ml_world st) (map snd (watch_list st))
         \<lparr>sel_max = - 1, sel_read = {}, sel_write = {}, sel_error = {}\<rparr>) (\<lambda>sel.
     let use_tv = (pid_list st \<noteq> []);
         tv = (if pid_list st \<noteq> [] then (1, 0) else (0, 0))
     in res_bind (prepare_timeouts sys True (map snd (timeout_list st)) use_tv tv None (ml_world st))
          (\<lambda>(use_tv, tv, w). Inr (sel, use_tv, tv, st\<lparr>ml_world := w\<rparr>)))"

section \<open>Handling what is ready\<close>

definition ready_flags :: "int \<Rightarrow> selection \<Rightarrow> nat res" where
  "ready_flags fd sel =
     res_bind (FD_ISSET fd (sel_read sel)) (\<lambda>r.
     res_bind (FD_ISSET fd (sel_write sel)) (\<lambda>w.
     res_bind (FD_ISSET fd (sel_error sel)) (\<lambda>e.
       Inr ((if r then WATCH_READABLE else 0) OR (if w then WATCH_WRITABLE else 0)
            OR (if e then WATCH_ERROR else 0)))))"

text \<open>The array of the libdbus watches to handle later, with its count.\<close>

type_synonym dwatches = "(nat \<times> nat) list option \<times> nat"

definition note_dwatch :: "avail \<Rightarrow> nat \<Rightarrow> nat \<Rightarrow> dwatches \<Rightarrow> dwatches res" where
  "note_dwatch mem dwatch flags = (\<lambda>(dwatches, dwatch_count).
     res_bind (find_slot (\<lambda>d. Inr (fst d = dwatch)) dwatches 0 dwatch_count) (\<lambda>i.
     if i < dwatch_count then
       res_bind (arr_get (elems dwatches) i) (\<lambda>d.
       res_bind (arr_set (elems dwatches) i (fst d, snd d OR flags)) (\<lambda>a. Inr (Some a, dwatch_count)))
     else
       res_bind (oddjob_resize_array mem (0, 0) 16 dwatches dwatch_count (i + 1)) (\<lambda>dwatches.
       res_bind (arr_set (elems dwatches) i (dwatch, flags)) (\<lambda>a. Inr (Some a, i + 1)))))"

text \<open>The state of the first loop: the main loop, the last descriptor of a libdbus watch, the array.\<close>

record 'w scanning =
  sc_loop :: "'w mainloop"
  sc_fd :: int
  sc_dwatches :: dwatches

definition scan_dbus_watch ::
  "avail \<Rightarrow> 'w system \<Rightarrow> selection \<Rightarrow> nat \<Rightarrow> 'w scanning \<Rightarrow> 'w scanning res" where
  "scan_dbus_watch mem sys sel dwatch sc =
     (if sy_watch_enabled sys (ml_world (sc_loop sc)) dwatch then
        (let fd = sy_watch_fd sys (ml_world (sc_loop sc)) dwatch;
             sc = sc\<lparr>sc_fd := fd\<rparr>
         in res_bind (ready_flags fd sel) (\<lambda>flags.
              if flags \<noteq> 0
              then res_bind (note_dwatch mem dwatch flags (sc_dwatches sc)) (\<lambda>d. Inr (sc\<lparr>sc_dwatches := d\<rparr>))
              else Inr sc))
      else Inr sc)"

definition scan_oddjob_watch ::
  "avail \<Rightarrow> 'w system \<Rightarrow> selection \<Rightarrow> nat \<Rightarrow> int \<Rightarrow> nat \<Rightarrow> nat \<Rightarrow> 'w scanning \<Rightarrow> 'w scanning res" where
  "scan_oddjob_watch mem sys sel p fd fn data sc =
     res_bind (ready_flags fd sel) (\<lambda>flags.
       if flags = 0 then Inr sc
       else (let (finished, r) = sy_watch_fn sys fn fd flags data (ml_world (sc_loop sc));
                 st = called_back mem sys r (sc_loop sc)
             in if \<not> finished then Inr (sc\<lparr>sc_loop := st\<rparr>)
                else if map_of (watch_list st) p = None then Inl Use_after_free
                else Inr (sc\<lparr>sc_loop := mainloop_oddjob_watch_remove fd st\<rparr>)))"

fun scan_watch ::
  "avail \<Rightarrow> 'w system \<Rightarrow> selection \<Rightarrow> nat \<Rightarrow> watch \<Rightarrow> 'w scanning \<Rightarrow> 'w scanning res" where
  "scan_watch mem sys sel p (Dbus_watch dwatch) sc = scan_dbus_watch mem sys sel dwatch sc"
| "scan_watch mem sys sel p (Oddjob_watch fd flags fn data) sc = scan_oddjob_watch mem sys sel p fd fn data sc"

fun handle_dwatches :: "avail \<Rightarrow> 'w system \<Rightarrow> (nat \<times> nat) list option \<Rightarrow> nat \<Rightarrow> nat \<Rightarrow> 'w mainloop \<Rightarrow> 'w mainloop res" where
  "handle_dwatches mem sys dwatches i 0 st = Inr st"
| "handle_dwatches mem sys dwatches i (Suc n) st =
     res_bind (arr_get (elems dwatches) i) (\<lambda>d.
       handle_dwatches mem sys dwatches (i + 1) n
         (called_back mem sys (sy_watch_handle sys (fst d) (snd d) (ml_world st)) st))"

definition handle_timeout :: "avail \<Rightarrow> 'w system \<Rightarrow> nat \<Rightarrow> dbus_timeout \<Rightarrow> 'w mainloop \<Rightarrow> 'w mainloop res" where
  "handle_timeout mem sys p t st =
     (if sy_timeout_enabled sys (ml_world st) (to_dtimeout t)
      then Inr (called_back mem sys (sy_timeout_handle sys (to_dtimeout t) (ml_world st)) st)
      else Inr st)"

definition reap_child :: "avail \<Rightarrow> 'w system \<Rightarrow> nat \<Rightarrow> child \<Rightarrow> 'w mainloop \<Rightarrow> 'w mainloop res" where
  "reap_child mem sys p c st =
     (case sy_waitpid sys (ch_pid c) (ml_world st) of
        (None, w) \<Rightarrow> Inr (st\<lparr>ml_world := w\<rparr>)
      | (Some status, w) \<Rightarrow>
          (let st = called_back mem sys (sy_pid_fn sys (ch_fn c) (ch_pid c) status (ch_data c) w) st
           in if map_of (pid_list st) p = None then Inl Use_after_free
              else Inr (mainloop_pid_remove (ch_pid c) st)))"

definition handle :: "avail \<Rightarrow> 'w system \<Rightarrow> selection \<Rightarrow> 'w mainloop \<Rightarrow> 'w mainloop res" where
  "handle mem sys sel st =
     res_bind (ended (walk (\<lambda>sc. watch_list (sc_loop sc)) (scan_watch mem sys sel) (first (watch_list st))
         \<lparr>sc_loop = st, sc_fd = - 1, sc_dwatches = (None, 0)\<rparr>)) (\<lambda>sc.
     res_bind (handle_dwatches mem sys (fst (sc_dwatches sc)) 0 (snd (sc_dwatches sc)) (sc_loop sc)) (\<lambda>st.
     res_bind (if sc_fd sc \<noteq> - 1
               then ended (walk timeout_list (handle_timeout mem sys) (first (timeout_list st)) st)
               else Inr st) (\<lambda>st.
     ended (walk pid_list (reap_child mem sys) (first (pid_list st)) st))))"

section \<open>One iteration\<close>

definition mainloop_iterate :: "avail \<Rightarrow> 'w system \<Rightarrow> 'w mainloop \<Rightarrow> (int \<times> 'w mainloop) res" where
  "mainloop_iterate mem sys st =
     res_bind (prepare sys st) (\<lambda>(sel, use_tv, tv, st).
       let (i, ready, w) = sy_select sys sel (if use_tv then Some tv else None) (ml_world st);
           st = st\<lparr>ml_world := w\<rparr>
       in if i \<noteq> - 1 then res_bind (handle mem sys ready st) (\<lambda>st. Inr (i, st)) else Inr (i, st))"

text \<open>The dispositions \<open>mainloop_reset_signal_handlers\<close> leaves; \<open>signal\<close> refuses SIGKILL and SIGSTOP.\<close>

datatype sig = SIGALRM | SIGINT | SIGQUIT | SIGILL | SIGABRT | SIGKILL | SIGSEGV | SIGPIPE | SIGTERM
  | SIGCHLD | SIGCONT | SIGSTOP | Other_signal nat

datatype disposition = SIG_DFL | SIG_IGN | Handler nat

definition set_signal :: "sig \<Rightarrow> disposition \<Rightarrow> (sig \<Rightarrow> disposition) \<Rightarrow> sig \<Rightarrow> disposition" where
  "set_signal s d h = (if s = SIGKILL \<or> s = SIGSTOP then h else h(s := d))"

definition mainloop_reset_signal_handlers :: "(sig \<Rightarrow> disposition) \<Rightarrow> sig \<Rightarrow> disposition" where
  "mainloop_reset_signal_handlers h =
     fold (\<lambda>(s, d). set_signal s d)
       [(SIGALRM, SIG_DFL), (SIGINT, SIG_DFL), (SIGQUIT, SIG_DFL), (SIGILL, SIG_DFL), (SIGABRT, SIG_DFL),
        (SIGKILL, SIG_DFL), (SIGSEGV, SIG_DFL), (SIGPIPE, SIG_IGN), (SIGTERM, SIG_DFL), (SIGCHLD, SIG_DFL),
        (SIGCONT, SIG_DFL), (SIGSTOP, SIG_DFL)] h"

section \<open>The lists as registrations\<close>

definition pid_keys :: "'w mainloop \<Rightarrow> int list" where
  "pid_keys st = map ch_pid (map snd (pid_list st))"

definition timeout_keys :: "'w mainloop \<Rightarrow> nat list" where
  "timeout_keys st = map to_dtimeout (map snd (timeout_list st))"

fun dbus_key :: "watch \<Rightarrow> nat list" where
  "dbus_key (Dbus_watch w) = [w]"
| "dbus_key (Oddjob_watch fd flags fn data) = []"

fun fd_key :: "watch \<Rightarrow> int list" where
  "fd_key (Dbus_watch w) = []"
| "fd_key (Oddjob_watch fd flags fn data) = [fd]"

definition dbus_keys :: "'w mainloop \<Rightarrow> nat list" where
  "dbus_keys st = concat (map dbus_key (map snd (watch_list st)))"

definition fd_keys :: "'w mainloop \<Rightarrow> int list" where
  "fd_keys st = concat (map fd_key (map snd (watch_list st)))"

lemma on_chain_dbus: "on_chain (is_dbus_watch w) cs \<longleftrightarrow> w \<in> set (concat (map dbus_key (map snd cs)))"
proof (induction cs)
  case (Cons c cs)
  then show ?case by (cases "snd c") (auto simp: on_chain_def)
qed (simp add: on_chain_def)

lemma on_chain_fd: "on_chain (is_oddjob_fd fd) cs \<longleftrightarrow> fd \<in> set (concat (map fd_key (map snd cs)))"
proof (induction cs)
  case (Cons c cs)
  then show ?case by (cases "snd c") (auto simp: on_chain_def)
qed (simp add: on_chain_def)

lemma unlink_dbus:
  "concat (map dbus_key (map snd (unlink (is_dbus_watch w) cs))) = remove1 w (concat (map dbus_key (map snd cs)))"
  "concat (map fd_key (map snd (unlink (is_dbus_watch w) cs))) = concat (map fd_key (map snd cs))"
proof (induction cs)
  case (Cons c cs)
  { case 1 with Cons show ?case by (cases "snd c") auto }
  { case 2 with Cons show ?case by (cases "snd c") auto }
qed simp_all

lemma unlink_fd:
  "concat (map fd_key (map snd (unlink (is_oddjob_fd fd) cs))) = remove1 fd (concat (map fd_key (map snd cs)))"
  "concat (map dbus_key (map snd (unlink (is_oddjob_fd fd) cs))) = concat (map dbus_key (map snd cs))"
proof (induction cs)
  case (Cons c cs)
  { case 1 with Cons show ?case by (cases "snd c") auto }
  { case 2 with Cons show ?case by (cases "snd c") auto }
qed simp_all

lemmas list_ops = mainloop_pid_add_def mainloop_pid_remove_def mainloop_oddjob_watch_add_def
  mainloop_oddjob_watch_remove_def watch_dbus_add_def watch_dbus_remove_def timeout_dbus_add_def
  timeout_dbus_remove_def push_child_def push_watch_def push_timeout_def watch_dbus_toggle_def timeout_dbus_toggle_def

lemmas key_defs = pid_keys_def timeout_keys_def dbus_keys_def fd_keys_def

lemmas chain_key_simps = on_chain_keys unlink_keys on_chain_dbus on_chain_fd unlink_dbus unlink_fd

interpretation pids: registration pid_keys "\<lambda>pid p. mainloop_pid_add mem pid (fst p) (snd p)" mainloop_pid_remove
  for mem :: avail
  by unfold_locales (auto simp: list_ops pid_keys_def chain_key_simps [simplified] split: if_splits)

interpretation fds: registration fd_keys
  "\<lambda>fd p. mainloop_oddjob_watch_add mem fd (fst p) (fst (snd p)) (snd (snd p))" mainloop_oddjob_watch_remove
  for mem :: avail
  by unfold_locales (auto simp: list_ops fd_keys_def chain_key_simps [simplified] split: if_splits)

interpretation dbus_watches: registration dbus_keys "\<lambda>w (p :: unit). watch_dbus_add mem w" watch_dbus_remove
  for mem :: avail
  by unfold_locales (auto simp: list_ops dbus_keys_def chain_key_simps [simplified] split: if_splits)

interpretation timeouts: registration timeout_keys "\<lambda>t (p :: unit). timeout_dbus_add mem sys t" timeout_dbus_remove
  for mem :: avail and sys :: "'w system"
  by unfold_locales (auto simp: list_ops timeout_keys_def chain_key_simps [simplified] split: if_splits option.splits prod.splits)

section \<open>The invariant\<close>

definition chains_ok :: "'w mainloop \<Rightarrow> bool" where
  "chains_ok st \<longleftrightarrow> chain_ok (ml_fresh st) (watch_list st) \<and> chain_ok (ml_fresh st) (timeout_list st)
     \<and> chain_ok (ml_fresh st) (pid_list st)"

definition keys_ok :: "'w mainloop \<Rightarrow> bool" where
  "keys_ok st \<longleftrightarrow> distinct (dbus_keys st) \<and> distinct (fd_keys st) \<and> distinct (timeout_keys st) \<and> distinct (pid_keys st)"

definition ml_ok :: "'w mainloop \<Rightarrow> bool" where
  "ml_ok st \<longleftrightarrow> chains_ok st \<and> keys_ok st"

lemma ml_world_ok [simp]: "ml_ok (st\<lparr>ml_world := w\<rparr>) = ml_ok st"
  by (simp add: ml_ok_def chains_ok_def keys_ok_def key_defs)

lemma world_lists [simp]:
  "pid_keys (st\<lparr>ml_world := w\<rparr>) = pid_keys st" "timeout_keys (st\<lparr>ml_world := w\<rparr>) = timeout_keys st"
  "fd_keys (st\<lparr>ml_world := w\<rparr>) = fd_keys st" "dbus_keys (st\<lparr>ml_world := w\<rparr>) = dbus_keys st"
  by (simp_all add: key_defs)

lemma push_chains:
  "chains_ok st \<Longrightarrow> chains_ok (push_watch x st)" "chains_ok st \<Longrightarrow> chains_ok (push_timeout t st)"
  "chains_ok st \<Longrightarrow> chains_ok (push_child c st)"
  by (auto simp: chains_ok_def push_watch_def push_timeout_def push_child_def elim: chain_ok_mono)

lemma run_op_chains: "chains_ok st \<Longrightarrow> chains_ok (run_op mem sys op st)"
proof (cases op)
  case (Op_timeout_add t)
  assume ok: "chains_ok st"
  have "chains_ok (st\<lparr>ml_world := w\<rparr>)" for w using ok by (simp add: chains_ok_def)
  with ok Op_timeout_add show ?thesis
    by (auto simp: timeout_dbus_add_def push_chains split: prod.split option.split)
qed (auto simp: chains_ok_def push_chains [unfolded chains_ok_def] mainloop_pid_add_def mainloop_pid_remove_def
    mainloop_oddjob_watch_add_def mainloop_oddjob_watch_remove_def watch_dbus_add_def watch_dbus_remove_def
    timeout_dbus_remove_def watch_dbus_toggle_def timeout_dbus_toggle_def chain_ok_unlink)

text \<open>Each operation changes the keys of one list only.\<close>

lemma other_keys:
  "timeout_keys (snd (mainloop_pid_add mem pid fn data st)) = timeout_keys st"
  "fd_keys (snd (mainloop_pid_add mem pid fn data st)) = fd_keys st"
  "dbus_keys (snd (mainloop_pid_add mem pid fn data st)) = dbus_keys st"
  "timeout_keys (mainloop_pid_remove pid st) = timeout_keys st"
  "fd_keys (mainloop_pid_remove pid st) = fd_keys st"
  "dbus_keys (mainloop_pid_remove pid st) = dbus_keys st"
  "pid_keys (snd (mainloop_oddjob_watch_add mem fd flags fn data st)) = pid_keys st"
  "timeout_keys (snd (mainloop_oddjob_watch_add mem fd flags fn data st)) = timeout_keys st"
  "dbus_keys (snd (mainloop_oddjob_watch_add mem fd flags fn data st)) = dbus_keys st"
  "pid_keys (mainloop_oddjob_watch_remove fd st) = pid_keys st"
  "timeout_keys (mainloop_oddjob_watch_remove fd st) = timeout_keys st"
  "dbus_keys (mainloop_oddjob_watch_remove fd st) = dbus_keys st"
  "pid_keys (snd (watch_dbus_add mem w st)) = pid_keys st"
  "timeout_keys (snd (watch_dbus_add mem w st)) = timeout_keys st"
  "fd_keys (snd (watch_dbus_add mem w st)) = fd_keys st"
  "pid_keys (watch_dbus_remove w st) = pid_keys st"
  "timeout_keys (watch_dbus_remove w st) = timeout_keys st"
  "fd_keys (watch_dbus_remove w st) = fd_keys st"
  "pid_keys (snd (timeout_dbus_add mem sys t st)) = pid_keys st"
  "fd_keys (snd (timeout_dbus_add mem sys t st)) = fd_keys st"
  "dbus_keys (snd (timeout_dbus_add mem sys t st)) = dbus_keys st"
  "pid_keys (timeout_dbus_remove t st) = pid_keys st"
  "fd_keys (timeout_dbus_remove t st) = fd_keys st"
  "dbus_keys (timeout_dbus_remove t st) = dbus_keys st"
  by (simp_all add: list_ops key_defs unlink_dbus [simplified] unlink_fd [simplified] split: prod.split option.split)

lemma run_op_keys: "keys_ok st \<Longrightarrow> keys_ok (run_op mem sys op st)"
  by (cases op)
     (auto simp: keys_ok_def other_keys pids.remove_distinct fds.remove_distinct dbus_watches.remove_distinct
       timeouts.remove_distinct dbus_watches.add_distinct timeouts.add_distinct watch_dbus_toggle_def timeout_dbus_toggle_def
       intro: pids.add_distinct [where p = "(_, _)", simplified] fds.add_distinct [where p = "(_, _, _)", simplified])

lemma run_op_ok: "ml_ok st \<Longrightarrow> ml_ok (run_op mem sys op st)"
  by (simp add: ml_ok_def run_op_chains run_op_keys)

lemma run_ops_ok: "ml_ok st \<Longrightarrow> ml_ok (run_ops mem sys ops st)"
  by (induction ops arbitrary: st) (simp_all add: run_ops_def run_op_ok)

lemma called_back_ok: "ml_ok st \<Longrightarrow> ml_ok (called_back mem sys r st)"
  by (simp add: called_back_def run_ops_ok)

section \<open>The loops end and keep the invariant\<close>

lemma ml_ok_chain: "ml_ok st \<Longrightarrow> \<exists>b. chain_ok b (watch_list st)" "ml_ok st \<Longrightarrow> \<exists>b. chain_ok b (timeout_list st)"
  "ml_ok st \<Longrightarrow> \<exists>b. chain_ok b (pid_list st)"
  by (auto simp: ml_ok_def chains_ok_def)

lemma mainloop_remove_ok:
  "ml_ok st \<Longrightarrow> ml_ok (mainloop_oddjob_watch_remove fd st)" "ml_ok st \<Longrightarrow> ml_ok (mainloop_pid_remove pid st)"
  using run_op_ok [of st _ _ "Op_watch_remove fd"] run_op_ok [of st _ _ "Op_pid_remove pid"] by simp_all

lemma scan_watch_ok: "scan_watch mem sys sel p x sc = Inr sc' \<Longrightarrow> ml_ok (sc_loop sc) \<Longrightarrow> ml_ok (sc_loop sc')"
  by (cases x) (auto simp: scan_dbus_watch_def scan_oddjob_watch_def Let_def res_simps called_back_ok mainloop_remove_ok
      split: if_splits prod.splits)

lemma handle_timeout_ok: "handle_timeout mem sys p t st = Inr st' \<Longrightarrow> ml_ok st \<Longrightarrow> ml_ok st'"
  by (auto simp: handle_timeout_def called_back_ok split: if_splits)

lemma reap_child_ok: "reap_child mem sys p c st = Inr st' \<Longrightarrow> ml_ok st \<Longrightarrow> ml_ok st'"
  by (auto simp: reap_child_def Let_def called_back_ok mainloop_remove_ok split: prod.splits option.splits if_splits)

interpretation scans: ending_walk "\<lambda>sc. watch_list (sc_loop sc)" "scan_watch mem sys sel" "\<lambda>sc. ml_ok (sc_loop sc)"
  for mem :: avail and sys :: "'w system" and sel :: selection
  by unfold_locales (auto simp: ml_ok_chain intro: scan_watch_ok)

interpretation ticks: ending_walk timeout_list "handle_timeout mem sys" ml_ok
  for mem :: avail and sys :: "'w system"
  by unfold_locales (auto simp: ml_ok_chain intro: handle_timeout_ok)

interpretation reaps: ending_walk pid_list "reap_child mem sys" ml_ok
  for mem :: avail and sys :: "'w system"
  by unfold_locales (auto simp: ml_ok_chain intro: reap_child_ok)

text \<open>What cannot be the outcome of a body.\<close>

lemma no_divergence:
  "FD_ISSET fd s \<noteq> Inl Diverges" "FD_SET fd s \<noteq> Inl Diverges" "arr_get a i \<noteq> Inl Diverges"
  "arr_set a i v \<noteq> Inl Diverges" "find_slot (\<lambda>d. Inr (P d)) arr i n \<noteq> Inl Diverges"
  "oddjob_resize_array mem z es arr cur want \<noteq> Inl Diverges"
proof -
  show "find_slot (\<lambda>d. Inr (P d)) arr i n \<noteq> Inl Diverges"
    by (induction n arbitrary: i) (auto simp: res_simps arr_get_def)
qed (auto simp: FD_ISSET_def FD_SET_def guard_defs oddjob_resize_array_def oddjob_malloc0_def oddjob_malloc_def res_simps Let_def
      split: if_splits option.splits)

lemma ready_flags_ends: "ready_flags fd sel \<noteq> Inl Diverges"
  by (auto simp: ready_flags_def res_simps no_divergence)

lemma note_dwatch_ends: "note_dwatch mem dwatch flags d \<noteq> Inl Diverges"
  by (auto simp: note_dwatch_def res_simps no_divergence split: prod.splits if_splits)

lemma bodies_end:
  "scan_watch mem sys sel p x sc \<noteq> Inl Diverges" "handle_timeout mem sys p t st \<noteq> Inl Diverges"
  "reap_child mem sys p c st \<noteq> Inl Diverges"
  by (cases x)
     (auto simp: scan_dbus_watch_def scan_oddjob_watch_def handle_timeout_def reap_child_def Let_def res_simps
       ready_flags_ends note_dwatch_ends split: prod.splits if_splits option.splits)

lemma handle_dwatches_ok: "ml_ok st \<Longrightarrow> ends_with ml_ok (handle_dwatches mem sys d i n st)"
proof (induction n arbitrary: i st)
  case (Suc n)
  have "ends_with (\<lambda>_. True) (arr_get (elems d) i)" by (simp add: avoids_True no_divergence)
  then show ?case by (auto intro!: avoids_bind Suc called_back_ok)
qed simp

lemma handle_ok: "ml_ok st \<Longrightarrow> ends_with ml_ok (handle mem sys sel st)"
  unfolding handle_def
  by (rule avoids_bind [OF scans.ended_ok [OF _ bodies_end(1)]], simp,
      rule avoids_bind [OF handle_dwatches_ok], simp,
      rule avoids_bind [where P = ml_ok], simp add: ticks.ended_ok bodies_end,
      simp add: reaps.ended_ok bodies_end)

lemma prepare_timeouts_ends: "prepare_timeouts sys front ts use_tv tv now w \<noteq> Inl Diverges"
  by (induction ts arbitrary: front use_tv tv now w)
     (auto simp: Let_def split: prod.splits option.splits if_splits)

lemma prepare_watches_ends: "prepare_watches sys w xs sel \<noteq> Inl Diverges"
proof (induction xs arbitrary: sel)
  case (Cons x xs)
  then show ?case
    by (cases x) (auto simp: res_simps select_fd_def no_divergence split: if_splits)
qed simp

lemma prepare_ok: "ml_ok st \<Longrightarrow> ends_with (\<lambda>(sel, use_tv, tv, st'). ml_ok st') (prepare sys st)"
  unfolding prepare_def Let_def
  by (rule avoids_bind [where P = "\<lambda>_. True"], simp add: avoids_True prepare_watches_ends,
      rule avoids_bind [where P = "\<lambda>_. True"], simp add: avoids_True prepare_timeouts_ends) auto

lemma iterate_ok: "ml_ok st \<Longrightarrow> ends_with (\<lambda>(i, st'). ml_ok st') (mainloop_iterate mem sys st)"
  unfolding mainloop_iterate_def Let_def
  by (rule avoids_bind [OF prepare_ok]) (auto intro!: avoids_bind [OF handle_ok] split: prod.split)

section \<open>Reachable states\<close>

text \<open>The rest of the process may change the world between two calls.\<close>

definition empty_loop :: "'w \<Rightarrow> 'w mainloop" where
  "empty_loop w = \<lparr>watch_list = [], timeout_list = [], pid_list = [], ml_fresh = 0, ml_world = w\<rparr>"

inductive loop_reachable :: "avail \<Rightarrow> 'w system \<Rightarrow> 'w mainloop \<Rightarrow> bool" for mem :: avail and sys :: "'w system" where
  start: "loop_reachable mem sys (empty_loop w)"
| world: "loop_reachable mem sys st \<Longrightarrow> loop_reachable mem sys (st\<lparr>ml_world := w\<rparr>)"
| op: "loop_reachable mem sys st \<Longrightarrow> loop_reachable mem sys (run_op mem sys op st)"
| connect: "loop_reachable mem sys st \<Longrightarrow> loop_reachable mem sys (mainloop_connect mem sys conn st)"
| disconnect: "loop_reachable mem sys st \<Longrightarrow> loop_reachable mem sys (mainloop_disconnect mem sys conn st)"
| iterate: "loop_reachable mem sys st \<Longrightarrow> mainloop_iterate mem sys st = Inr (i, st')
    \<Longrightarrow> loop_reachable mem sys st'"

lemma reachable_ok: "loop_reachable mem sys st \<Longrightarrow> ml_ok st"
proof (induction rule: loop_reachable.induct)
  case (start w)
  then show ?case by (simp add: ml_ok_def chains_ok_def keys_ok_def key_defs empty_loop_def)
next
  case (iterate st i st')
  then show ?case using iterate_ok [of st mem sys] by simp
qed (simp_all add: run_op_ok mainloop_connect_def mainloop_disconnect_def Let_def called_back_ok)

text \<open>
  C11. In every state that the operations and iterations of the main loop reach, no watch,
  descriptor, timeout or child is registered twice, and an iteration always ends, whatever the
  callbacks add to or remove from the lists it is walking.
\<close>

theorem reachable_loop_invariant:
  assumes "loop_reachable mem sys st"
  shows "distinct (dbus_keys st) \<and> distinct (fd_keys st) \<and> distinct (timeout_keys st) \<and> distinct (pid_keys st)
    \<and> mainloop_iterate mem sys st \<noteq> Inl Diverges"
  using reachable_ok [OF assms] iterate_ok [OF reachable_ok [OF assms], of mem sys]
  by (auto simp: ml_ok_def keys_ok_def)

text \<open>A world of nothing, where every child has exited with status 7.\<close>

definition still_system :: "unit system" where
  "still_system = \<lparr>sy_gettimeofday = \<lambda>w. (Some (100, 0), w), sy_watch_enabled = \<lambda>w d. True,
     sy_watch_fd = \<lambda>w d. int d, sy_watch_flags = \<lambda>w d. 3, sy_timeout_enabled = \<lambda>w t. True,
     sy_timeout_interval = \<lambda>w t. 1000 * int t, sy_watch_handle = \<lambda>d f w. (w, []),
     sy_timeout_handle = \<lambda>t w. (w, []), sy_watch_fn = \<lambda>fn fd f d w. (True, w, []),
     sy_pid_fn = \<lambda>fn pid s d w. (w, []), sy_waitpid = \<lambda>pid w. (if pid = 6 then None else Some 7, w),
     sy_select = \<lambda>sel tv w. (1, sel, w), sy_watch_functions = \<lambda>c b w. (w, []),
     sy_timeout_functions = \<lambda>c b w. (w, [])\<rparr>"

definition sample_loop :: "unit mainloop" where
  "sample_loop = run_ops (\<lambda>_. True) still_system [Op_dbus_watch_add 4, Op_watch_add 9 1 0 0, Op_timeout_add 3,
     Op_timeout_add 2, Op_pid_add 5 0 0, Op_pid_add 6 0 0, Op_watch_add 9 2 0 0] (empty_loop ())"

lemma sample_reachable: "loop_reachable (\<lambda>_. True) still_system sample_loop"
  unfolding sample_loop_def run_ops_def by (simp del: run_op.simps add: loop_reachable.intros)

theorem reachable_loop_invariant_witness:
  "distinct (fd_keys sample_loop) \<and> fd_keys sample_loop = [9]
   \<and> mainloop_iterate (\<lambda>_. True) still_system sample_loop \<noteq> Inl Diverges"
  using reachable_loop_invariant [OF sample_reachable]
  by (simp add: sample_loop_def run_ops_def list_ops fd_keys_def empty_loop_def on_chain_def still_system_def)

end
