(* ===== verification/Loop_Walks.thy ===== *)
theory Loop_Walks
  imports Mainloop
begin

text \<open>
  What the loops of \<open>handle\<close> do when the callbacks leave the nodes of the list alone that is being
  walked: they are loops over a fixed list. A callback that removes the next node makes the walk
  follow a pointer into released memory.
\<close>

section \<open>Tame callbacks\<close>

fun spares_watches :: "ml_op \<Rightarrow> bool" where
  "spares_watches (Op_watch_remove fd) = False"
| "spares_watches (Op_dbus_watch_remove w) = False"
| "spares_watches _ = True"

fun spares_timeouts :: "ml_op \<Rightarrow> bool" where
  "spares_timeouts (Op_timeout_remove t) = False"
| "spares_timeouts _ = True"

fun spares_pids :: "ml_op \<Rightarrow> bool" where
  "spares_pids (Op_pid_remove pid) = False"
| "spares_pids _ = True"

definition tame_watches :: "'w system \<Rightarrow> bool" where
  "tame_watches sys \<longleftrightarrow> (\<forall>fn fd flags data w. list_all spares_watches (snd (snd (sy_watch_fn sys fn fd flags data w))))"

definition tame_timeouts :: "'w system \<Rightarrow> bool" where
  "tame_timeouts sys \<longleftrightarrow> (\<forall>t w. list_all spares_timeouts (snd (sy_timeout_handle sys t w)))"

definition tame_pids :: "'w system \<Rightarrow> bool" where
  "tame_pids sys \<longleftrightarrow> (\<forall>fn pid status data w. list_all spares_pids (snd (sy_pid_fn sys fn pid status data w)))"

definition tame :: "'w system \<Rightarrow> bool" where
  "tame sys \<longleftrightarrow> tame_watches sys \<and> tame_timeouts sys \<and> tame_pids sys"

text \<open>Operations that spare a list only add to its front.\<close>

definition grows :: "nat \<Rightarrow> 'a chain \<Rightarrow> 'a chain \<Rightarrow> bool" where
  "grows b cs cs' \<longleftrightarrow> (\<exists>new. cs' = new @ cs \<and> list_all (\<lambda>c. b \<le> fst c) new)"

lemma grows_refl [simp]: "grows b cs cs"
  by (auto simp: grows_def)

lemma grows_push: "b \<le> a \<Longrightarrow> grows b cs ((a, x) # cs)"
  by (auto simp: grows_def)

lemma grows_trans: "grows b cs cs' \<Longrightarrow> b \<le> b' \<Longrightarrow> grows b' cs' cs'' \<Longrightarrow> grows b cs cs''"
  by (fastforce simp: grows_def list_all_iff)

lemma grows_below: "grows b cs cs' \<Longrightarrow> p \<le> b \<Longrightarrow> below p cs' = below p cs"
  by (fastforce simp: grows_def below_def list_all_iff filter_empty_conv)

lemma grows_in: "grows b cs cs' \<Longrightarrow> c \<in> set cs \<Longrightarrow> c \<in> set cs'"
  by (auto simp: grows_def)

lemma run_op_grows:
  "ml_fresh st \<le> ml_fresh (run_op mem sys op st)"
  "spares_watches op \<Longrightarrow> grows (ml_fresh st) (watch_list st) (watch_list (run_op mem sys op st))"
  "spares_timeouts op \<Longrightarrow> grows (ml_fresh st) (timeout_list st) (timeout_list (run_op mem sys op st))"
  "spares_pids op \<Longrightarrow> grows (ml_fresh st) (pid_list st) (pid_list (run_op mem sys op st))"
  by (cases op; force simp: list_ops grows_push split: prod.split option.split)+

lemma run_ops_grows:
  "ml_fresh st \<le> ml_fresh (run_ops mem sys ops st)"
  "list_all spares_watches ops \<Longrightarrow> grows (ml_fresh st) (watch_list st) (watch_list (run_ops mem sys ops st))"
  "list_all spares_timeouts ops \<Longrightarrow> grows (ml_fresh st) (timeout_list st) (timeout_list (run_ops mem sys ops st))"
  "list_all spares_pids ops \<Longrightarrow> grows (ml_fresh st) (pid_list st) (pid_list (run_ops mem sys ops st))"
proof (induction ops arbitrary: st)
  case (Cons op ops)
  have u: "run_ops mem sys (op # ops) st = run_ops mem sys ops (run_op mem sys op st)" for st by (simp add: run_ops_def)
  note step = run_op_grows [where mem = mem and sys = sys and op = op]
  { case 1 show ?case using Cons(1) [of "run_op mem sys op st"] step(1) [of st] by (simp add: u) }
  { case 2 then show ?case using Cons(2) [of "run_op mem sys op st"] step(1) [of st] step(2) [of st] by (auto simp: u intro: grows_trans) }
  { case 3 then show ?case using Cons(3) [of "run_op mem sys op st"] step(1) [of st] step(3) [of st] by (auto simp: u intro: grows_trans) }
  { case 4 then show ?case using Cons(4) [of "run_op mem sys op st"] step(1) [of st] step(4) [of st] by (auto simp: u intro: grows_trans) }
qed (simp_all add: run_ops_def)

lemma called_back_grows:
  "list_all spares_watches (snd r) \<Longrightarrow> grows (ml_fresh st) (watch_list st) (watch_list (called_back mem sys r st))"
  "list_all spares_timeouts (snd r) \<Longrightarrow> grows (ml_fresh st) (timeout_list st) (timeout_list (called_back mem sys r st))"
  "list_all spares_pids (snd r) \<Longrightarrow> grows (ml_fresh st) (pid_list st) (pid_list (called_back mem sys r st))"
  using run_ops_grows [where st = "st\<lparr>ml_world := fst r\<rparr>"] by (simp_all add: called_back_def)

lemma in_chain_fresh:
  "ml_ok st \<Longrightarrow> (p, x) \<in> set (watch_list st) \<Longrightarrow> p \<le> ml_fresh st"
  "ml_ok st \<Longrightarrow> (p, t) \<in> set (timeout_list st) \<Longrightarrow> p \<le> ml_fresh st"
  "ml_ok st \<Longrightarrow> (p, c) \<in> set (pid_list st) \<Longrightarrow> p \<le> ml_fresh st"
  by (auto simp: ml_ok_def chains_ok_def chain_ok_def list_all_iff)

section \<open>The bodies spare what is ahead\<close>

lemma distinct_keys_unique:
  "distinct (map key cs) \<Longrightarrow> c \<in> set cs \<Longrightarrow> d \<in> set cs \<Longrightarrow> key c = key d \<Longrightarrow> c = d"
  by (auto simp: distinct_map inj_on_def)

lemma own_child:
  "ml_ok st \<Longrightarrow> (p, c) \<in> set (pid_list st) \<Longrightarrow> (q, d) \<in> set (pid_list st) \<Longrightarrow> ch_pid d = ch_pid c \<Longrightarrow> q = p"
  using distinct_keys_unique [of "\<lambda>c. ch_pid (snd c)" "pid_list st" "(q, d)" "(p, c)"]
  by (simp add: ml_ok_def keys_ok_def key_defs comp_def)

lemma fd_keys_in:
  "fd \<in> set (concat (map fd_key (map snd (cs :: watch chain)))) \<longleftrightarrow> (\<exists>q x. (q, x) \<in> set cs \<and> is_oddjob_fd fd x)"
  unfolding on_chain_fd [symmetric] by (auto simp: on_chain_def list_ex_iff) force+

lemma own_fd:
  "distinct (concat (map fd_key (map snd (cs :: watch chain)))) \<Longrightarrow> distinct (map fst cs) \<Longrightarrow> (p, x) \<in> set cs \<Longrightarrow>
     is_oddjob_fd fd x \<Longrightarrow> (q, y) \<in> set cs \<Longrightarrow> is_oddjob_fd fd y \<Longrightarrow> q = p"
proof (induction cs)
  case (Cons c cs)
  show ?case
  proof (cases "is_oddjob_fd fd (snd c)")
    case True
    then have "fd_key (snd c) = [fd]" by (cases "snd c") auto
    with Cons.prems(1) have "\<not> (\<exists>q x. (q, x) \<in> set cs \<and> is_oddjob_fd fd x)" using fd_keys_in [of fd cs] by simp
    with Cons.prems show ?thesis by auto
  next
    case False
    with Cons show ?thesis by auto
  qed
qed simp

lemma scan_oddjob_steady:
  assumes "ml_ok (sc_loop sc)" "tame_watches sys" "(p, Oddjob_watch fd flags fn data) \<in> set (watch_list (sc_loop sc))"
  shows "scan_oddjob_watch mem sys sel p fd fn data sc \<noteq> Inl Use_after_free"
    "scan_oddjob_watch mem sys sel p fd fn data sc = Inr sc' \<Longrightarrow>
       below p (watch_list (sc_loop sc')) = below p (watch_list (sc_loop sc))"
proof -
  define st where "st = sc_loop sc"
  define seen where "seen = (\<lambda>flags. called_back mem sys (snd (sy_watch_fn sys fn fd flags data (ml_world st))) st)"
  have seen: "called_back mem sys (snd (sy_watch_fn sys fn fd f data (ml_world st))) st = seen f" for f
    by (simp add: seen_def)
  have ok: "ml_ok (seen f)" for f using assms(1) by (simp add: seen_def st_def called_back_ok)
  have grow: "grows (ml_fresh st) (watch_list st) (watch_list (seen f))" for f
    using assms(2) by (auto simp: seen_def tame_watches_def intro!: called_back_grows)
  have kept: "(p, Oddjob_watch fd flags fn data) \<in> set (watch_list (seen f))" for f
    using grow assms(3) by (auto simp: st_def intro: grows_in)
  have d: "distinct (map fst (watch_list (seen f)))" "distinct (concat (map fd_key (map snd (watch_list (seen f)))))" for f
    using ok [of f] by (auto simp: ml_ok_def chains_ok_def keys_ok_def fd_keys_def dest: chain_ok_distinct)
  have look: "map_of (watch_list (seen f)) p \<noteq> None" for f using kept [of f] d(1) [of f] by simp
  have below: "below p (watch_list (seen f)) = below p (watch_list st)" for f
    using grow in_chain_fresh(1) [OF assms(1,3)] by (auto simp: st_def intro: grows_below)
  have removed: "below p (watch_list (mainloop_oddjob_watch_remove fd (seen f))) = below p (watch_list st)" for f
    unfolding below [of f, symmetric]
    by (simp add: mainloop_oddjob_watch_remove_def below_def, rule unlink_below)
       (use own_fd [OF d(2,1) kept] in fastforce)
  have run: "scan_oddjob_watch mem sys sel p fd fn data sc = res_bind (ready_flags fd sel) (\<lambda>flags.
      if flags = 0 then Inr sc
      else Inr (sc\<lparr>sc_loop := (if fst (sy_watch_fn sys fn fd flags data (ml_world st))
                              then mainloop_oddjob_watch_remove fd (seen flags) else seen flags)\<rparr>))"
    unfolding scan_oddjob_watch_def st_def [symmetric]
    by (intro arg_cong [where f = "res_bind _"] ext) (simp add: Let_def split_beta seen look)
  show "scan_oddjob_watch mem sys sel p fd fn data sc \<noteq> Inl Use_after_free"
    by (auto simp: run res_simps ready_flags_def FD_ISSET_def split: if_splits)
  show "scan_oddjob_watch mem sys sel p fd fn data sc = Inr sc' \<Longrightarrow>
       below p (watch_list (sc_loop sc')) = below p (watch_list (sc_loop sc))"
  proof -
    assume "scan_oddjob_watch mem sys sel p fd fn data sc = Inr sc'"
    then obtain flags where "sc' = sc \<or> sc' = sc\<lparr>sc_loop := mainloop_oddjob_watch_remove fd (seen flags)\<rparr>
        \<or> sc' = sc\<lparr>sc_loop := seen flags\<rparr>"
      by (auto simp: run res_simps split: if_splits)
    with below removed show ?thesis by (auto simp: st_def)
  qed
qed

lemma no_released_access:
  "find_slot (\<lambda>d. Inr (P d)) arr i n \<noteq> Inl Use_after_free"
  "oddjob_resize_array mem z es arr' cur want \<noteq> Inl Use_after_free"
  "arr_get xs k \<noteq> Inl Use_after_free" "arr_set xs k v \<noteq> Inl Use_after_free"
  "ready_flags fd sel \<noteq> Inl Use_after_free"
proof -
  show "find_slot (\<lambda>d. Inr (P d)) arr i n \<noteq> Inl Use_after_free"
    by (induction n arbitrary: i) (auto simp: res_simps arr_get_def)
qed (auto simp: guard_defs oddjob_resize_array_def oddjob_malloc0_def oddjob_malloc_def ready_flags_def FD_ISSET_def
      res_simps Let_def split: if_splits option.splits)

lemma scan_dbus_steady:
  "scan_dbus_watch mem sys sel d sc \<noteq> Inl Use_after_free"
  "scan_dbus_watch mem sys sel d sc = Inr sc' \<Longrightarrow> sc_loop sc' = sc_loop sc"
  by (auto simp: scan_dbus_watch_def note_dwatch_def Let_def res_simps no_released_access split: prod.splits if_splits)

lemma handle_timeout_steady:
  assumes "ml_ok st" "tame_timeouts sys" "(p, t) \<in> set (timeout_list st)" "handle_timeout mem sys p t st = Inr st'"
  shows "below p (timeout_list st') = below p (timeout_list st)"
proof -
  have "grows (ml_fresh st) (timeout_list st)
      (timeout_list (called_back mem sys (sy_timeout_handle sys (to_dtimeout t) (ml_world st)) st))"
    using assms(2) by (auto simp: tame_timeouts_def intro!: called_back_grows)
  with assms(4) in_chain_fresh(2) [OF assms(1,3)] show ?thesis
    by (auto simp: handle_timeout_def grows_below split: if_splits)
qed

lemma reap_child_steady:
  assumes "ml_ok st" "tame_pids sys" "(p, c) \<in> set (pid_list st)"
  shows "reap_child mem sys p c st \<noteq> Inl Use_after_free"
    "reap_child mem sys p c st = Inr st' \<Longrightarrow> below p (pid_list st') = below p (pid_list st)"
proof -
  define seen where "seen = (\<lambda>s w. called_back mem sys (sy_pid_fn sys (ch_fn c) (ch_pid c) s (ch_data c) w) st)"
  have seen: "called_back mem sys (sy_pid_fn sys (ch_fn c) (ch_pid c) s (ch_data c) w) st = seen s w" for s w
    by (simp add: seen_def)
  have ok: "ml_ok (seen s w)" for s w using assms(1) by (simp add: seen_def called_back_ok)
  have grow: "grows (ml_fresh st) (pid_list st) (pid_list (seen s w))" for s w
    using assms(2) by (auto simp: seen_def tame_pids_def intro!: called_back_grows)
  have kept: "(p, c) \<in> set (pid_list (seen s w))" for s w using grow assms(3) by (rule grows_in)
  have look: "map_of (pid_list (seen s w)) p \<noteq> None" for s w
    using kept [of s w] ok [of s w] by (auto simp: ml_ok_def chains_ok_def dest!: chain_ok_distinct)
  have below: "below p (pid_list (seen s w)) = below p (pid_list st)" for s w
    using grow in_chain_fresh(3) [OF assms(1,3)] by (rule grows_below)
  have removed: "below p (pid_list (mainloop_pid_remove (ch_pid c) (seen s w))) = below p (pid_list st)" for s w
    unfolding below [of s w, symmetric]
    by (simp add: mainloop_pid_remove_def below_def, rule unlink_below) (use own_child [OF ok kept] in fastforce)
  have run: "reap_child mem sys p c st = (case sy_waitpid sys (ch_pid c) (ml_world st) of
      (None, w) \<Rightarrow> Inr (st\<lparr>ml_world := w\<rparr>)
    | (Some s, w) \<Rightarrow> Inr (mainloop_pid_remove (ch_pid c) (seen s w)))"
    by (auto simp: reap_child_def Let_def seen look split: prod.split option.split)
  show "reap_child mem sys p c st \<noteq> Inl Use_after_free" by (auto simp: run split: prod.split option.split)
  show "reap_child mem sys p c st = Inr st' \<Longrightarrow> below p (pid_list st') = below p (pid_list st)"
    by (auto simp: run removed split: prod.splits option.splits)
qed

section \<open>The walks as loops over fixed lists\<close>

lemma scan_watch_steady:
  assumes "ml_ok (sc_loop sc)" "tame_watches sys" "(p, x) \<in> set (watch_list (sc_loop sc))"
  shows "scan_watch mem sys sel p x sc \<noteq> Inl Use_after_free"
    "scan_watch mem sys sel p x sc = Inr sc' \<Longrightarrow> below p (watch_list (sc_loop sc')) = below p (watch_list (sc_loop sc))"
  using assms scan_dbus_steady [of mem sys sel] scan_oddjob_steady [of sc sys p] by (cases x; auto)+

interpretation steady_scans: steady_walk "\<lambda>sc. watch_list (sc_loop sc)" "scan_watch mem sys sel"
  "\<lambda>sc. ml_ok (sc_loop sc) \<and> tame_watches sys" for mem :: avail and sys :: "'w system" and sel :: selection
  by unfold_locales (auto simp: ml_ok_chain intro: scan_watch_ok scan_watch_steady)

interpretation steady_ticks: steady_walk timeout_list "handle_timeout mem sys" "\<lambda>st. ml_ok st \<and> tame_timeouts sys"
  for mem :: avail and sys :: "'w system"
  by unfold_locales (auto simp: ml_ok_chain intro: handle_timeout_ok handle_timeout_steady)

interpretation steady_reaps: steady_walk pid_list "reap_child mem sys" "\<lambda>st. ml_ok st \<and> tame_pids sys"
  for mem :: avail and sys :: "'w system"
  by unfold_locales (auto simp: ml_ok_chain intro: reap_child_ok reap_child_steady)

text \<open>\<open>handle\<close> with each walk replaced by a loop over the list as it is when the walk starts.\<close>

definition handle_each :: "avail \<Rightarrow> 'w system \<Rightarrow> selection \<Rightarrow> 'w mainloop \<Rightarrow> 'w mainloop res" where
  "handle_each mem sys sel st =
     res_bind (for_each (scan_watch mem sys sel) (watch_list st)
         \<lparr>sc_loop = st, sc_fd = - 1, sc_dwatches = (None, 0)\<rparr>) (\<lambda>sc.
     res_bind (handle_dwatches mem sys (fst (sc_dwatches sc)) 0 (snd (sc_dwatches sc)) (sc_loop sc)) (\<lambda>st.
     res_bind (if sc_fd sc \<noteq> - 1 then for_each (handle_timeout mem sys) (timeout_list st) st else Inr st) (\<lambda>st.
     for_each (reap_child mem sys) (pid_list st) st)))"

lemma res_bind_ok_cong:
  "ends_with P m \<Longrightarrow> m = m' \<Longrightarrow> (\<And>x. P x \<Longrightarrow> f x = g x) \<Longrightarrow> res_bind m f = res_bind m' g"
  by (cases m) auto

abbreviation scan_start :: "'w mainloop \<Rightarrow> 'w scanning" where
  "scan_start st \<equiv> \<lparr>sc_loop = st, sc_fd = - 1, sc_dwatches = (None, 0)\<rparr>"

lemma scans_each: "ml_ok st \<Longrightarrow> tame_watches sys \<Longrightarrow>
    ended (walk (\<lambda>sc. watch_list (sc_loop sc)) (scan_watch mem sys sel) (first (watch_list st)) (scan_start st))
      = for_each (scan_watch mem sys sel) (watch_list st) (scan_start st)"
  using steady_scans.visits_each [of "scan_start st" sys mem sel] by simp

lemma scans_each_ok: "ml_ok st \<Longrightarrow> tame_watches sys \<Longrightarrow>
    ends_with (\<lambda>sc. ml_ok (sc_loop sc)) (for_each (scan_watch mem sys sel) (watch_list st) (scan_start st))"
  unfolding scans_each [symmetric] by (intro scans.ended_ok bodies_end) simp

lemma ticks_each: "ml_ok st \<Longrightarrow> tame_timeouts sys \<Longrightarrow>
    ended (walk timeout_list (handle_timeout mem sys) (first (timeout_list st)) st)
      = for_each (handle_timeout mem sys) (timeout_list st) st"
  by (simp add: steady_ticks.visits_each)

lemma reaps_each: "ml_ok st \<Longrightarrow> tame_pids sys \<Longrightarrow>
    ended (walk pid_list (reap_child mem sys) (first (pid_list st)) st)
      = for_each (reap_child mem sys) (pid_list st) st"
  by (simp add: steady_reaps.visits_each)

lemma ticks_each_ok: "ml_ok st \<Longrightarrow> tame_timeouts sys \<Longrightarrow>
    ends_with ml_ok (for_each (handle_timeout mem sys) (timeout_list st) st)"
  unfolding ticks_each [symmetric] by (intro ticks.ended_ok bodies_end)

lemma handle_eq_each:
  assumes "ml_ok st" "tame sys"
  shows "handle mem sys sel st = handle_each mem sys sel st"
proof -
  have t: "tame_watches sys" "tame_timeouts sys" "tame_pids sys" using assms(2) by (auto simp: tame_def)
  show ?thesis
    unfolding handle_def handle_each_def scans_each [OF assms(1) t(1)]
  proof (intro res_bind_ok_cong [OF scans_each_ok [OF assms(1) t(1)] refl] res_bind_ok_cong [OF handle_dwatches_ok refl]
        res_bind_ok_cong [where P = ml_ok])
  qed (use t in \<open>auto simp: ticks_each reaps_each ticks_each_ok\<close>)
qed

text \<open>No walk touches released memory.\<close>

lemma for_each_keeps:
  assumes "ends_with P (for_each body cs s)" "for_each body cs s \<noteq> Inl e"
  shows "avoids e P (for_each body cs s)"
  using assms by (cases "for_each body cs s") auto

lemma handle_dwatches_spared: "ml_ok st \<Longrightarrow> avoids Use_after_free ml_ok (handle_dwatches mem sys d i n st)"
proof (induction n arbitrary: i st)
  case (Suc n)
  have "avoids Use_after_free (\<lambda>_. True) (arr_get (elems d) i)" by (simp add: avoids_True no_released_access)
  then show ?case by (auto intro!: avoids_bind Suc called_back_ok)
qed simp

lemma handle_each_spared:
  assumes "ml_ok st" "tame sys"
  shows "avoids Use_after_free (\<lambda>_. True) (handle_each mem sys sel st)"
proof -
  have t: "tame_watches sys" "tame_timeouts sys" "tame_pids sys" using assms(2) by (auto simp: tame_def)
  have chain: "\<And>st :: 'a mainloop. ml_ok st \<Longrightarrow> chain_ok (ml_fresh st) (watch_list st) \<and> chain_ok (ml_fresh st) (timeout_list st)
      \<and> chain_ok (ml_fresh st) (pid_list st)"
    by (simp add: ml_ok_def chains_ok_def)
  have scan: "avoids Use_after_free (\<lambda>sc. ml_ok (sc_loop sc)) (for_each (scan_watch mem sys sel) (watch_list st) (scan_start st))"
  proof (rule for_each_keeps [OF scans_each_ok [OF assms(1) t(1)]])
    show "for_each (scan_watch mem sys sel) (watch_list st) (scan_start st) \<noteq> Inl Use_after_free"
      using assms(1) t chain [OF assms(1)]
      by (intro steady_scans.spared [where sys = sys and b = "ml_fresh st"]) (auto simp: below_all scan_watch_steady)
  qed
  have tick: "avoids Use_after_free ml_ok (for_each (handle_timeout mem sys) (timeout_list st) st)" if "ml_ok st" for st
  proof (rule for_each_keeps [OF ticks_each_ok [OF that t(2)]])
    show "for_each (handle_timeout mem sys) (timeout_list st) st \<noteq> Inl Use_after_free"
      using t that chain [OF that]
      by (intro steady_ticks.spared [where sys = sys and b = "ml_fresh st"]) (auto simp: below_all handle_timeout_def)
  qed
  have reap: "avoids Use_after_free (\<lambda>_. True) (for_each (reap_child mem sys) (pid_list st) st)" if "ml_ok st" for st
    unfolding avoids_True using t that chain [OF that]
    by (intro steady_reaps.spared [where sys = sys and b = "ml_fresh st"]) (auto simp: below_all reap_child_steady)
  show ?thesis
    unfolding handle_each_def
    by (rule avoids_bind [OF scan], rule avoids_bind [OF handle_dwatches_spared], simp,
        rule avoids_bind [where P = ml_ok], simp add: tick, rule reap)
qed

text \<open>
  C12. If callbacks remove nothing from the list that is being walked when they are called
  (they may add to it and do anything to the other lists), handling a selection is the same as
  looping over each list as it was when its loop started, and never follows a pointer to a
  released node. What the loops remove themselves, the watch whose function returned TRUE and
  the child that has exited, is no obstacle.
\<close>

theorem handle_walks_lists:
  assumes "loop_reachable mem sys st" "tame sys"
  shows "handle mem sys sel st = handle_each mem sys sel st \<and> handle mem sys sel st \<noteq> Inl Use_after_free"
  using handle_eq_each [OF reachable_ok [OF assms(1)] assms(2), of mem sel]
    handle_each_spared [OF reachable_ok [OF assms(1)] assms(2), of mem sel]
  by (simp add: avoids_True)

theorem handle_walks_lists_witness:
  "handle (\<lambda>_. True) still_system \<lparr>sel_max = 9, sel_read = {9}, sel_write = {4}, sel_error = {}\<rparr> sample_loop
     \<noteq> Inl Use_after_free"
proof -
  have "tame still_system"
    by (simp add: tame_def tame_watches_def tame_timeouts_def tame_pids_def still_system_def)
  from handle_walks_lists [OF sample_reachable this] show ?thesis by blast
qed

section \<open>Reaping the children\<close>

definition exited :: "(int \<Rightarrow> int option) \<Rightarrow> child chain \<Rightarrow> child list" where
  "exited f cs = filter (\<lambda>c. f (ch_pid c) \<noteq> None) (map snd cs)"

text \<open>For each of these children in turn: its function is called with its status, then it is taken out of the list.\<close>

definition reaped :: "avail \<Rightarrow> 'w system \<Rightarrow> (int \<Rightarrow> int option) \<Rightarrow> child list \<Rightarrow> 'w mainloop \<Rightarrow> 'w mainloop" where
  "reaped mem sys f cs st = fold (\<lambda>c st. mainloop_pid_remove (ch_pid c)
     (called_back mem sys (sy_pid_fn sys (ch_fn c) (ch_pid c) (the (f (ch_pid c))) (ch_data c) (ml_world st)) st)) cs st"

lemma ml_ok_pid_list: "ml_ok st \<Longrightarrow> distinct (map fst (pid_list st))"
  by (auto simp: ml_ok_def chains_ok_def dest: chain_ok_distinct)

lemma remove_own_child:
  assumes "ml_ok st" "(p, c) \<in> set (pid_list st)"
  shows "mainloop_pid_remove (ch_pid c) st = st\<lparr>pid_list := filter (\<lambda>d. fst d \<noteq> p) (pid_list st)\<rparr>"
  unfolding mainloop_pid_remove_def
  using unlink_unique [OF ml_ok_pid_list [OF assms(1)] assms(2), of "\<lambda>d. ch_pid d = ch_pid c"] own_child [OF assms]
  by simp

lemma called_back_fresh: "ml_fresh st \<le> ml_fresh (called_back mem sys r st)"
  using run_ops_grows(1) [where st = "st\<lparr>ml_world := fst r\<rparr>"] by (simp add: called_back_def)

lemma grows_filter: "grows b cs cs' \<Longrightarrow> p < b \<Longrightarrow> grows b (filter (\<lambda>c. fst c \<noteq> p) cs) (filter (\<lambda>c. fst c \<noteq> p) cs')"
  by (fastforce simp: grows_def list_all_iff filter_id_conv)

text \<open>One child: its node is gone, the others are there, and new ones may be in front of them.\<close>

lemma reap_one:
  fixes mem :: avail
  assumes "ml_ok st" "tame_pids sys" "(p, c) \<in> set (pid_list st)"
    "sy_waitpid sys (ch_pid c) (ml_world st) = (f (ch_pid c), ml_world st)"
  defines "st' \<equiv> reaped mem sys f (if f (ch_pid c) = None then [] else [c]) st"
  shows "reap_child mem sys p c st = Inr st'"
    "grows (ml_fresh st) (filter (\<lambda>d. fst d \<noteq> p \<or> f (ch_pid c) = None) (pid_list st)) (pid_list st')"
    "ml_fresh st \<le> ml_fresh st'"
proof -
  define seen where "seen = (\<lambda>s. called_back mem sys (sy_pid_fn sys (ch_fn c) (ch_pid c) s (ch_data c) (ml_world st)) st)"
  have seen: "called_back mem sys (sy_pid_fn sys (ch_fn c) (ch_pid c) s (ch_data c) (ml_world st)) st = seen s" for s
    by (simp add: seen_def)
  have ok: "ml_ok (seen s)" for s using assms(1) by (simp add: seen_def called_back_ok)
  have grow: "grows (ml_fresh st) (pid_list st) (pid_list (seen s))" for s
    using assms(2) by (auto simp: seen_def tame_pids_def intro!: called_back_grows)
  have kept: "(p, c) \<in> set (pid_list (seen s))" for s using grow assms(3) by (rule grows_in)
  have look: "map_of (pid_list (seen s)) p \<noteq> None" for s using kept [of s] ml_ok_pid_list [OF ok, of s] by simp
  have fresh: "p < ml_fresh st"
    using assms(1,3) by (auto simp: ml_ok_def chains_ok_def chain_ok_def list_all_iff)
  have st': "st' = (case f (ch_pid c) of None \<Rightarrow> st | Some s \<Rightarrow> mainloop_pid_remove (ch_pid c) (seen s))"
    by (simp add: st'_def reaped_def seen_def split: option.split)
  show "reap_child mem sys p c st = Inr st'"
    using assms(4) by (auto simp: reap_child_def st' Let_def seen look split: option.split)
  show "grows (ml_fresh st) (filter (\<lambda>d. fst d \<noteq> p \<or> f (ch_pid c) = None) (pid_list st)) (pid_list st')"
    using grows_filter [OF grow fresh] by (simp add: st' remove_own_child [OF ok kept] split: option.split)
  show "ml_fresh st \<le> ml_fresh st'"
    by (simp add: st' mainloop_pid_remove_def seen_def called_back_fresh split: option.split)
qed

lemma reap_each:
  assumes "\<And>pid w. sy_waitpid sys pid w = (f pid, w)" "tame_pids sys"
  shows "ml_ok st \<Longrightarrow> chain_ok b cs \<Longrightarrow> b \<le> ml_fresh st \<Longrightarrow> below b (pid_list st) = cs \<Longrightarrow>
    for_each (reap_child mem sys) cs st = Inr (reaped mem sys f (exited f cs) st)
    \<and> grows (ml_fresh st) (filter (\<lambda>c. b \<le> fst c \<or> f (ch_pid (snd c)) = None) (pid_list st))
        (pid_list (reaped mem sys f (exited f cs) st))"
proof (induction cs arbitrary: st b)
  case Nil
  then have "\<forall>c \<in> set (pid_list st). b \<le> fst c" by (force simp: below_def filter_empty_conv)
  then have "filter (\<lambda>c. b \<le> fst c \<or> f (ch_pid (snd c)) = None) (pid_list st) = pid_list st"
    by (simp add: filter_id_conv)
  then show ?case by (simp add: reaped_def exited_def)
next
  case (Cons a cs)
  obtain p c where a: "a = (p, c)" by fastforce
  let ?keep = "\<lambda>b c. b \<le> fst c \<or> f (ch_pid (snd c)) = None"
  have mem: "(p, c) \<in> set (pid_list st)" using Cons.prems(4) a by (auto simp: below_def filter_eq_Cons_iff)
  have rest: "below p (pid_list st) = cs" using Cons.prems(2,4) a by (auto intro: below_tail)
  define st' where "st' = reaped mem sys f (if f (ch_pid c) = None then [] else [c]) st"
  note one = reap_one [where f = f and mem = mem, OF Cons.prems(1) assms(2) mem assms(1), folded st'_def]
  have ok: "ml_ok st'" using reap_child_ok [OF one(1) Cons.prems(1)] .
  have b: "below p (pid_list st') = cs" "p \<le> ml_fresh st'" "p < ml_fresh st"
    using reap_child_steady(2) [OF Cons.prems(1) assms(2) mem one(1)] rest one(3) Cons.prems(2,3) a by auto
  have ih: "for_each (reap_child mem sys) cs st' = Inr (reaped mem sys f (exited f cs) st')"
    "grows (ml_fresh st') (filter (?keep p) (pid_list st')) (pid_list (reaped mem sys f (exited f cs) st'))"
    using Cons.IH [OF ok _ b(2,1)] Cons.prems(2) a by auto
  have same: "reaped mem sys f (exited f cs) st' = reaped mem sys f (exited f (a # cs)) st"
    by (simp add: st'_def exited_def a reaped_def)
  have between: "d = (p, c)" if "d \<in> set (pid_list st)" "p \<le> fst d" "fst d < b" for d
  proof -
    have "d \<in> set (a # cs)" using that Cons.prems(4) by (auto simp: below_def simp flip: Cons.prems(4))
    moreover have "d \<notin> set cs" using that(2) rest by (auto simp: below_def)
    ultimately show ?thesis using a by simp
  qed
  have left: "filter (?keep p) (filter (\<lambda>d. fst d \<noteq> p \<or> f (ch_pid c) = None) (pid_list st)) = filter (?keep b) (pid_list st)"
    using Cons.prems(2) a by (auto intro!: filter_cong) (fastforce dest: between)+
  obtain new where new: "pid_list st' = new @ filter (\<lambda>d. fst d \<noteq> p \<or> f (ch_pid c) = None) (pid_list st)"
    "list_all (\<lambda>c. ml_fresh st \<le> fst c) new"
    using one(2) by (auto simp: grows_def)
  have "filter (?keep p) new = new" using new(2) b(3) by (auto simp: list_all_iff filter_id_conv)
  then have "filter (?keep p) (pid_list st') = new @ filter (?keep b) (pid_list st)"
    using new(1) left by simp
  then have "grows (ml_fresh st) (filter (?keep b) (pid_list st)) (filter (?keep p) (pid_list st'))"
    using new(2) by (auto simp: grows_def)
  with ih one(1,3) show ?case unfolding same by (auto simp: a intro: grows_trans)
qed

text \<open>
  C23. If the answers of waitpid stay the same during the loop and the functions of the
  children remove no child, the last loop of handle calls the function of exactly the children
  that have exited, in the order of the list, with their status, and takes exactly these
  children out of the list; the others stay in their order, behind those that the functions
  have registered meanwhile.
\<close>

theorem reap_children_result:
  assumes "loop_reachable mem sys st" "\<And>pid w. sy_waitpid sys pid w = (f pid, w)" "tame_pids sys"
  shows "ended (walk pid_list (reap_child mem sys) (first (pid_list st)) st)
      = Inr (reaped mem sys f (exited f (pid_list st)) st)
    \<and> (\<exists>new. pid_list (reaped mem sys f (exited f (pid_list st)) st)
           = new @ filter (\<lambda>c. f (ch_pid (snd c)) = None) (pid_list st)
         \<and> (\<forall>c \<in> set new. ml_fresh st \<le> fst c))"
proof -
  have ok: "ml_ok st" using reachable_ok [OF assms(1)] .
  then have chain: "chain_ok (ml_fresh st) (pid_list st)" by (simp add: ml_ok_def chains_ok_def)
  have "filter (\<lambda>c. ml_fresh st \<le> fst c \<or> f (ch_pid (snd c)) = None) (pid_list st)
      = filter (\<lambda>c. f (ch_pid (snd c)) = None) (pid_list st)"
    using chain by (auto simp: chain_ok_def list_all_iff intro!: filter_cong)
  then show ?thesis
    using reap_each [OF assms(2,3) ok chain order_refl below_all [OF chain], of mem] ok assms(3)
    by (simp add: reaps_each grows_def list_all_iff)
qed

text \<open>The function of the child that has exited registers another.\<close>

definition breeding_system :: "unit system" where
  "breeding_system = still_system\<lparr>sy_pid_fn := \<lambda>fn pid s d w. (w, [Op_pid_add 8 0 0]),
     sy_waitpid := \<lambda>pid w. (if pid = 6 then None else Some 7, w)\<rparr>"

definition two_children :: "unit mainloop" where
  "two_children = run_ops (\<lambda>_. True) breeding_system [Op_pid_add 6 0 0, Op_pid_add 5 0 0] (empty_loop ())"

theorem reap_children_result_witness:
  "\<exists>st. ended (walk pid_list (reap_child (\<lambda>_. True) breeding_system) (first (pid_list two_children)) two_children) = Inr st
    \<and> pid_list st = [(2, \<lparr>ch_pid = 8, ch_fn = 0, ch_data = 0\<rparr>), (0, \<lparr>ch_pid = 6, ch_fn = 0, ch_data = 0\<rparr>)]"
proof -
  have reach: "loop_reachable (\<lambda>_. True) breeding_system two_children"
    unfolding two_children_def run_ops_def by (simp del: run_op.simps add: loop_reachable.intros)
  have laws: "\<And>pid w. sy_waitpid breeding_system pid w = ((if pid = 6 then None else Some 7), w)" "tame_pids breeding_system"
    by (simp_all add: breeding_system_def tame_pids_def)
  show ?thesis
    using reap_children_result [OF reach laws(1,2), THEN conjunct1]
    by (simp add: two_children_def run_ops_def list_ops empty_loop_def on_chain_def exited_def reaped_def called_back_def
        breeding_system_def)
qed

section \<open>A callback that removes the next watch\<close>

lemma ready_flags_read:
  "0 \<le> fd \<Longrightarrow> fd < 1024 \<Longrightarrow> fd \<in> sel_read sel \<Longrightarrow> \<exists>flags. ready_flags fd sel = Inr flags \<and> odd flags"
  by (simp add: ready_flags_def FD_ISSET_def WATCH_READABLE_def WATCH_WRITABLE_def WATCH_ERROR_def)

text \<open>
  C40. A descriptor's function that removes the watch after its own makes handle follow the
  pointer it saved before the call to a released node.
\<close>

theorem removing_next_watch_faults:
  assumes "loop_reachable mem sys st"
    and "watch_list st = (p, Oddjob_watch fd flags fn data) # (q, Oddjob_watch fd' flags' fn' data') # cs"
    and "0 \<le> fd" "fd < 1024" "fd \<in> sel_read sel"
    and "\<And>got w. sy_watch_fn sys fn fd got data w = (False, w, [Op_watch_remove fd'])"
  shows "handle mem sys sel st = Inl Use_after_free"
proof -
  have ok: "ml_ok st" using reachable_ok [OF assms(1)] .
  have "fd \<noteq> fd'" using ok assms(2) by (auto simp: ml_ok_def keys_ok_def fd_keys_def)
  obtain got where got: "ready_flags fd sel = Inr got" "odd got" using ready_flags_read assms(3-5) by blast
  then have "got \<noteq> 0" by (cases "got = 0") auto
  have q: "q < p" "q \<notin> fst ` set cs"
    using ok assms(2) by (auto simp: ml_ok_def chains_ok_def chain_ok_def list_all_iff)
  have "map_of cs q = None" using q(2) by (simp add: map_of_eq_None_iff)
  then have "walk (\<lambda>sc. watch_list (sc_loop sc)) (scan_watch mem sys sel) (first (watch_list st)) (scan_start st)
      = Some (Inl Use_after_free)"
    using assms(2,6) got(1) \<open>got \<noteq> 0\<close> q(1) \<open>fd \<noteq> fd'\<close>
    by (simp add: first_def walk_Some scan_oddjob_watch_def called_back_def run_ops_def mainloop_oddjob_watch_remove_def)
  then show ?thesis by (simp add: handle_def)
qed

definition removing_system :: "unit system" where
  "removing_system = still_system\<lparr>sy_watch_fn := \<lambda>fn fd f d w. (False, w, [Op_watch_remove 4])\<rparr>"

theorem removing_next_watch_faults_witness:
  "handle (\<lambda>_. True) removing_system \<lparr>sel_max = 9, sel_read = {9}, sel_write = {}, sel_error = {}\<rparr>
     (run_ops (\<lambda>_. True) removing_system [Op_watch_add 4 1 0 0, Op_watch_add 9 1 0 0] (empty_loop ()))
   = Inl Use_after_free"
proof (rule removing_next_watch_faults)
  show "loop_reachable (\<lambda>_. True) removing_system
      (run_ops (\<lambda>_. True) removing_system [Op_watch_add 4 1 0 0, Op_watch_add 9 1 0 0] (empty_loop ()))"
    unfolding run_ops_def by (simp del: run_op.simps add: loop_reachable.intros)
  show "watch_list (run_ops (\<lambda>_. True) removing_system [Op_watch_add 4 1 0 0, Op_watch_add 9 1 0 0] (empty_loop ()))
      = (1, Oddjob_watch 9 1 0 0) # (0, Oddjob_watch 4 1 0 0) # []"
    by (simp add: run_ops_def list_ops on_chain_def empty_loop_def)
qed (simp_all add: removing_system_def)

end
