(* ===== verification/Loop_Select.thy ===== *)
theory Loop_Select
  imports Mainloop
begin

text \<open>
  What \<open>prepare\<close> hands to \<open>select\<close>: the descriptors of the watches by their flags and the largest
  of them, and the time to wait as the least time any timeout has left.
\<close>

section \<open>The descriptors\<close>

text \<open>The descriptors that are watched, with their flags.\<close>

fun interest :: "'w system \<Rightarrow> 'w \<Rightarrow> watch \<Rightarrow> (int \<times> nat) list" where
  "interest sys w (Dbus_watch d) =
     (if sy_watch_enabled sys w d then [(sy_watch_fd sys w d, sy_watch_flags sys w d)] else [])"
| "interest sys w (Oddjob_watch fd flags fn data) = [(fd, flags)]"

definition interests :: "'w system \<Rightarrow> 'w mainloop \<Rightarrow> (int \<times> nat) list" where
  "interests sys st = concat (map (interest sys (ml_world st)) (map snd (watch_list st)))"

definition fds_with :: "nat \<Rightarrow> (int \<times> nat) list \<Rightarrow> int set" where
  "fds_with bits xs = fst ` {x \<in> set xs. snd x AND bits \<noteq> 0}"

definition READ_BITS :: nat where "READ_BITS = WATCH_READABLE OR WATCH_HANGUP"

definition watched :: "int \<times> nat \<Rightarrow> bool" where
  "watched x \<longleftrightarrow> snd x AND READ_BITS \<noteq> 0 \<or> snd x AND WATCH_WRITABLE \<noteq> 0 \<or> snd x AND WATCH_ERROR \<noteq> 0"

definition in_range :: "int \<times> nat \<Rightarrow> bool" where
  "in_range x \<longleftrightarrow> (watched x \<longrightarrow> 0 \<le> fst x \<and> fst x < 1024)"

definition largest :: "(int \<times> nat) list \<Rightarrow> int \<Rightarrow> int" where
  "largest xs m = fold (\<lambda>x m. if watched x then max m (fst x) else m) xs m"

definition add_interests :: "(int \<times> nat) list \<Rightarrow> selection \<Rightarrow> selection" where
  "add_interests xs sel = \<lparr>sel_max = largest xs (sel_max sel),
     sel_read = sel_read sel \<union> fds_with READ_BITS xs,
     sel_write = sel_write sel \<union> fds_with WATCH_WRITABLE xs,
     sel_error = sel_error sel \<union> fds_with WATCH_ERROR xs\<rparr>"

lemma fds_with_Cons [simp]:
  "fds_with bits (x # xs) = (if snd x AND bits \<noteq> 0 then insert (fst x) (fds_with bits xs) else fds_with bits xs)"
  by (auto simp: fds_with_def)

lemma fds_with_Nil [simp]: "fds_with bits [] = {}"
  by (simp add: fds_with_def)

lemma fds_with_append: "fds_with bits (xs @ ys) = fds_with bits xs \<union> fds_with bits ys"
  by (auto simp: fds_with_def)

lemma add_interests_append: "add_interests (xs @ ys) sel = add_interests ys (add_interests xs sel)"
  by (simp add: add_interests_def largest_def fds_with_append Un_assoc)

lemma select_fd_result:
  "select_fd fd flags sel =
     (if in_range (fd, flags) then Inr (add_interests [(fd, flags)] sel) else Inl Out_of_bounds)"
  unfolding select_fd_def READ_BITS_def [symmetric]
  by (cases "flags AND READ_BITS \<noteq> 0"; cases "flags AND WATCH_WRITABLE \<noteq> 0"; cases "flags AND WATCH_ERROR \<noteq> 0")
     (auto simp: in_range_def watched_def add_interests_def largest_def FD_SET_def raise_max_def)

lemma add_interests_Nil [simp]: "add_interests [] sel = sel"
  by (simp add: add_interests_def largest_def)

lemma prepare_watch_result:
  "prepare_watch sys w x sel =
     (if list_all in_range (interest sys w x) then Inr (add_interests (interest sys w x) sel) else Inl Out_of_bounds)"
  by (cases x) (auto simp: select_fd_result)

lemma prepare_watches_result:
  "prepare_watches sys w xs sel =
     (let is = concat (map (interest sys w) xs)
      in if list_all in_range is then Inr (add_interests is sel) else Inl Out_of_bounds)"
proof (induction xs arbitrary: sel)
  case (Cons x xs)
  then show ?case by (auto simp: prepare_watch_result add_interests_append Let_def)
qed (simp add: Let_def)

lemma prepare_split:
  "prepare sys st =
     (if list_all in_range (interests sys st)
      then res_bind (prepare_timeouts sys True (map snd (timeout_list st)) (pid_list st \<noteq> [])
             (if pid_list st \<noteq> [] then (1, 0) else (0, 0)) None (ml_world st))
             (\<lambda>(use_tv, tv, w). Inr (add_interests (interests sys st)
                \<lparr>sel_max = - 1, sel_read = {}, sel_write = {}, sel_error = {}\<rparr>, use_tv, tv, st\<lparr>ml_world := w\<rparr>))
      else Inl Out_of_bounds)"
  by (simp add: prepare_def prepare_watches_result interests_def Let_def)

section \<open>The time to wait\<close>

text \<open>Milliseconds as seconds and microseconds, the way C divides.\<close>

definition tv_of :: "int \<Rightarrow> int \<times> int" where
  "tv_of ms = (ms sdiv 1000, (ms smod 1000) * 1000)"

lemma tv_of_back: "fst (tv_of ms) * 1000 + snd (tv_of ms) sdiv 1000 = ms"
proof -
  have "(ms smod 1000 * 1000) sdiv 1000 = ms smod 1000"
    by (simp add: signed_divide_int_def abs_mult sgn_mult sgn_mult_abs)
  then show ?thesis by (simp add: tv_of_def sdiv_mult_smod_eq)
qed

lemma tv_of_whole: "tv_of 0 = (0, 0)" "tv_of 1000 = (1, 0)"
  by (simp_all add: tv_of_def signed_divide_int_def signed_modulo_int_def)

lemma tv_of_negative: "ms < 0 \<Longrightarrow> fst (tv_of ms) < 0 \<or> snd (tv_of ms) < 0"
proof -
  assume neg: "ms < 0"
  have "fst (tv_of ms) * 1000 + ms smod 1000 = ms" by (simp add: tv_of_def sdiv_mult_smod_eq)
  with neg have "fst (tv_of ms) < 0 \<or> ms smod 1000 < 0" by linarith
  then show ?thesis by (simp add: tv_of_def)
qed

definition fits32 :: "int \<Rightarrow> bool" where
  "fits32 i \<longleftrightarrow> - (2 ^ 31) \<le> i \<and> i < 2 ^ 31"

lemma to_int_fits: "fits32 i \<Longrightarrow> to_int i = i"
  by (simp add: to_int_def fits32_def signed_take_bit_int_eq_self)

text \<open>The milliseconds a timeout has left at the time \<open>now\<close>; only whole seconds have passed.\<close>

definition left :: "'w system \<Rightarrow> 'w \<Rightarrow> int \<times> int \<Rightarrow> dbus_timeout \<Rightarrow> int" where
  "left sys w now t = sy_timeout_interval sys w (to_dtimeout t) - 1000 * (fst now - fst (to_start t))"

definition active :: "'w system \<Rightarrow> 'w \<Rightarrow> dbus_timeout \<Rightarrow> bool" where
  "active sys w t = sy_timeout_enabled sys w (to_dtimeout t)"

definition least_left :: "'w system \<Rightarrow> 'w \<Rightarrow> int \<times> int \<Rightarrow> dbus_timeout list \<Rightarrow> int \<Rightarrow> int" where
  "least_left sys w now ts ms = fold (\<lambda>t ms. if active sys w t then min ms (left sys w now t) else ms) ts ms"

lemma nearer_result:
  "fits32 ms \<Longrightarrow> fits32 (left sys w now t) \<Longrightarrow>
   nearer sys front t now (tv_of ms) w = tv_of (if front then left sys w now t else min ms (left sys w now t))"
  unfolding nearer_def left_def [symmetric] tv_of_back Let_def
  by (auto simp: to_int_fits tv_of_def min_def)

text \<open>The front timeout, if it is active, replaces what was there; the others lower it.\<close>

definition wait_ms :: "'w system \<Rightarrow> 'w \<Rightarrow> int \<times> int \<Rightarrow> dbus_timeout list \<Rightarrow> int \<Rightarrow> int" where
  "wait_ms sys w now ts ms =
     (case ts of [] \<Rightarrow> ms
      | t # ts \<Rightarrow> least_left sys w now ts (if active sys w t then left sys w now t else ms))"

lemma prepare_timeouts_rest:
  assumes "\<And>w. sy_gettimeofday sys w = (Some now, w)"
  shows "fits32 ms \<Longrightarrow> list_all (\<lambda>t. active sys w t \<longrightarrow> fits32 (left sys w now t)) ts \<Longrightarrow>
    prepare_timeouts sys False ts use_tv (tv_of ms) n w
      = Inr (use_tv \<or> ts \<noteq> [], tv_of (least_left sys w now ts ms), w)"
proof (induction ts arbitrary: use_tv ms n)
  case (Cons t ts)
  have "fits32 (min ms (left sys w now t))" if "active sys w t"
    using Cons.prems that by (auto simp: min_def)
  with Cons show ?case
    by (auto simp: assms Let_def active_def least_left_def nearer_result)
qed (simp add: least_left_def)

lemma prepare_timeouts_result:
  assumes "\<And>w. sy_gettimeofday sys w = (Some now, w)" "fits32 ms"
    "list_all (\<lambda>t. active sys w t \<longrightarrow> fits32 (left sys w now t)) ts"
  shows "prepare_timeouts sys True ts use_tv (tv_of ms) None w
      = Inr (use_tv \<or> ts \<noteq> [], tv_of (wait_ms sys w now ts ms), w)"
proof (cases ts)
  case (Cons t ts')
  with assms show ?thesis
    using prepare_timeouts_rest [OF assms(1)]
    by (auto simp: assms Let_def active_def wait_ms_def nearer_result)
qed (simp add: wait_ms_def)

section \<open>What prepare returns\<close>

lemma prepare_timeouts_fault: "prepare_timeouts sys front ts use_tv tv now w = Inl e \<Longrightarrow> e = Uninitialised"
  by (induction ts arbitrary: front use_tv tv now w)
     (auto simp: Let_def split: prod.splits option.splits if_splits)

lemma Max_insert_max: "finite A \<Longrightarrow> Max (insert (max a b) A) = Max (insert a (insert (b :: int) A))"
  by (cases "A = {}") (simp_all add: max.assoc)

lemma largest_Max: "largest xs m = Max (insert m (fst ` {x \<in> set xs. watched x}))"
proof (induction xs arbitrary: m)
  case (Cons x xs)
  have "{y \<in> set (x # xs). watched y} = (if watched x then insert x {y \<in> set xs. watched y} else {y \<in> set xs. watched y})"
    by auto
  moreover have "largest (x # xs) m = largest xs (if watched x then max m (fst x) else m)"
    by (simp add: largest_def)
  ultimately show ?case by (simp add: Cons Max_insert_max del: Max_insert)
qed (simp add: largest_def)

text \<open>
  C25. When prepare succeeds, the three sets are exactly the descriptors whose enabled watches
  ask for reading or hang-up, writing and errors, and the maximum is the largest of them or -1;
  it fails only on a descriptor outside 0..1023 or a time that was never read.
\<close>

theorem prepare_selects:
  "(case prepare sys st of
      Inl e \<Rightarrow> e = Uninitialised \<or> e = Out_of_bounds \<and> (\<exists>x \<in> set (interests sys st). \<not> in_range x)
    | Inr (sel, use_tv, tv, st') \<Rightarrow>
        list_all in_range (interests sys st)
        \<and> sel_read sel = fds_with (WATCH_READABLE OR WATCH_HANGUP) (interests sys st)
        \<and> sel_write sel = fds_with WATCH_WRITABLE (interests sys st)
        \<and> sel_error sel = fds_with WATCH_ERROR (interests sys st)
        \<and> sel_max sel = Max (insert (- 1) (fst ` {x \<in> set (interests sys st). watched x})))"
proof (cases "prepare sys st")
  case (Inl e)
  then show ?thesis
    by (auto simp: prepare_split res_simps list_all_iff split: if_splits dest: prepare_timeouts_fault)
next
  case (Inr r)
  then show ?thesis
    by (auto simp: prepare_split res_simps add_interests_def largest_Max READ_BITS_def split: if_splits)
qed

lemma whole_second: "(if b then (1, 0) else (0, 0)) = tv_of (if b then 1000 else 0)"
  by (simp add: tv_of_whole)

lemma prepare_wait:
  assumes "prepare sys st = Inr (sel, use_tv, tv, st')" "\<And>w. sy_gettimeofday sys w = (Some now, w)"
    "\<And>t. t \<in> set (map snd (timeout_list st)) \<Longrightarrow> active sys (ml_world st) t \<Longrightarrow> fits32 (left sys (ml_world st) now t)"
  shows "use_tv = (pid_list st \<noteq> [] \<or> timeout_list st \<noteq> [])
    \<and> tv = tv_of (wait_ms sys (ml_world st) now (map snd (timeout_list st)) (if pid_list st = [] then 0 else 1000))"
proof -
  have fits: "fits32 (if pid_list st \<noteq> [] then 1000 else 0)" by (simp add: fits32_def)
  have all: "list_all (\<lambda>t. active sys (ml_world st) t \<longrightarrow> fits32 (left sys (ml_world st) now t))
      (map snd (timeout_list st))"
    using assms(3) by (auto simp: list_all_iff)
  show ?thesis
    using assms(1) unfolding prepare_split whole_second prepare_timeouts_result [OF assms(2) fits all]
    by (auto split: if_splits)
qed

text \<open>
  C24. If nothing overflows, the time prepare gives to select is: 1 second if there are
  children and 0 otherwise, replaced by what the front timeout has left if that is enabled,
  then lowered to the least any other enabled timeout has left.
\<close>

theorem prepare_waits_least:
  assumes "prepare sys st = Inr (sel, use_tv, tv, st')" "\<And>w. sy_gettimeofday sys w = (Some now, w)"
    "\<And>t. t \<in> set (map snd (timeout_list st)) \<Longrightarrow> active sys (ml_world st) t \<Longrightarrow> fits32 (left sys (ml_world st) now t)"
  shows "use_tv = (pid_list st \<noteq> [] \<or> timeout_list st \<noteq> [])
    \<and> tv = tv_of (wait_ms sys (ml_world st) now (map snd (timeout_list st)) (if pid_list st = [] then 0 else 1000))"
  using assms by (rule prepare_wait)

lemma sample_lists:
  "map snd (watch_list sample_loop) = [Oddjob_watch 9 1 0 0, Dbus_watch 4]"
  "map snd (timeout_list sample_loop) = [\<lparr>to_dtimeout = 2, to_start = (100, 0)\<rparr>, \<lparr>to_dtimeout = 3, to_start = (100, 0)\<rparr>]"
  "pid_list sample_loop \<noteq> []"
  by (simp_all add: sample_loop_def run_ops_def list_ops empty_loop_def on_chain_def still_system_def)

lemma sample_prepare:
  "prepare still_system sample_loop = Inr (\<lparr>sel_max = 9, sel_read = {9, 4}, sel_write = {4}, sel_error = {}\<rparr>,
     True, (2, 0), sample_loop)"
proof -
  have n: "nearer still_system True \<lparr>to_dtimeout = 2, to_start = (100, 0)\<rparr> (100, 0) tv w = (2, 0)"
    "nearer still_system False \<lparr>to_dtimeout = 3, to_start = (100, 0)\<rparr> (100, 0) (2, 0) w = (2, 0)" for tv w
    by (simp_all add: nearer_def still_system_def to_int_fits fits32_def signed_divide_int_def signed_modulo_int_def)
  show ?thesis
    unfolding prepare_def sample_lists prepare_watches.simps prepare_watch.simps prepare_timeouts.simps
    by (simp add: still_system_def select_fd_def FD_SET_def raise_max_def WATCH_READABLE_def WATCH_WRITABLE_def
        WATCH_ERROR_def WATCH_HANGUP_def sample_lists Let_def n [unfolded still_system_def, simplified] insert_commute)
qed

theorem prepare_waits_least_witness:
  "tv_of (wait_ms still_system () (100, 0) (map snd (timeout_list sample_loop)) 1000) = (2, 0)"
proof -
  have "pid_list sample_loop \<noteq> []"
    by (simp add: sample_loop_def run_ops_def list_ops empty_loop_def on_chain_def still_system_def)
  moreover have "fits32 (left still_system () (100, 0) t)" if "t \<in> set (map snd (timeout_list sample_loop))" for t
    using that
    by (auto simp: sample_loop_def run_ops_def list_ops empty_loop_def on_chain_def still_system_def left_def fits32_def)
  ultimately show ?thesis
    using prepare_waits_least [OF sample_prepare, of "(100, 0)"] by (simp add: still_system_def)
qed

section \<open>An expired timeout\<close>

lemma least_left_le:
  "least_left sys w now ts ms \<le> ms"
  "t \<in> set ts \<Longrightarrow> active sys w t \<Longrightarrow> least_left sys w now ts ms \<le> left sys w now t"
proof (induction ts arbitrary: ms)
  case (Cons u ts)
  have step: "least_left sys w now (u # ts) ms
      = least_left sys w now ts (if active sys w u then min ms (left sys w now u) else ms)" for ms
    by (simp add: least_left_def)
  { case 1 show ?case unfolding step using Cons(1) [of "if active sys w u then min ms (left sys w now u) else ms"]
      by (auto simp: min_def split: if_splits) }
  { case 2 then show ?case unfolding step
      using Cons(1) [of "min ms (left sys w now u)"] Cons(2) [of "if active sys w u then min ms (left sys w now u) else ms"]
      by (auto simp: min_def split: if_splits) }
qed (simp_all add: least_left_def)

lemma wait_ms_le: "t \<in> set ts \<Longrightarrow> active sys w t \<Longrightarrow> wait_ms sys w now ts ms \<le> left sys w now t"
  using least_left_le(1) [where now = now] least_left_le(2) [where now = now]
  by (cases ts) (auto simp: wait_ms_def)

text \<open>
  C39. An enabled timeout with negative time left makes the time given to select negative:
  select refuses it, the iteration returns -1 and no watch, timeout or child is handled.
\<close>

theorem expired_timeout_stalls:
  assumes "mainloop_iterate mem sys st = Inr (i, st')" "\<And>w. sy_gettimeofday sys w = (Some now, w)"
    "\<And>t. t \<in> set (map snd (timeout_list st)) \<Longrightarrow> active sys (ml_world st) t \<Longrightarrow> fits32 (left sys (ml_world st) now t)"
    "\<And>sel tv w. fst tv < 0 \<or> snd tv < 0 \<Longrightarrow> fst (sy_select sys sel (Some tv) w) = - 1"
    "t \<in> set (map snd (timeout_list st))" "active sys (ml_world st) t" "left sys (ml_world st) now t < 0"
  shows "i = - 1 \<and> watch_list st' = watch_list st \<and> timeout_list st' = timeout_list st \<and> pid_list st' = pid_list st"
proof -
  obtain sel use_tv tv st1 where p: "prepare sys st = Inr (sel, use_tv, tv, st1)"
    using assms(1) by (auto simp: mainloop_iterate_def res_simps)
  from prepare_wait [OF p assms(2,3)] have w: "use_tv = (pid_list st \<noteq> [] \<or> timeout_list st \<noteq> [])"
    "tv = tv_of (wait_ms sys (ml_world st) now (map snd (timeout_list st)) (if pid_list st = [] then 0 else 1000))"
    by blast+
  have "use_tv" using w assms(5) by (cases "timeout_list st") auto
  moreover have "wait_ms sys (ml_world st) now (map snd (timeout_list st)) (if pid_list st = [] then 0 else 1000) < 0"
    using wait_ms_le [OF assms(5,6), of now "if pid_list st = [] then 0 else 1000"] assms(7) by linarith
  then have "fst tv < 0 \<or> snd tv < 0" using w tv_of_negative by simp
  ultimately have "fst (sy_select sys sel (if use_tv then Some tv else None) (ml_world st1)) = - 1"
    using assms(4) by simp
  moreover have "watch_list st1 = watch_list st" "timeout_list st1 = timeout_list st" "pid_list st1 = pid_list st"
    using p by (auto simp: prepare_split res_simps split: if_splits)
  ultimately show ?thesis
    using assms(1) by (auto simp: mainloop_iterate_def p Let_def split: prod.splits)
qed

definition late_system :: "unit system" where
  "late_system = still_system\<lparr>sy_gettimeofday := \<lambda>w. (Some (200, 0), w),
     sy_select := \<lambda>sel tv w. (case tv of Some (s, u) \<Rightarrow> if s < 0 \<or> u < 0 then - 1 else 0 | None \<Rightarrow> 0, sel, w)\<rparr>"

lemma late_run: "mainloop_iterate (\<lambda>_. True) late_system sample_loop = Inr (- 1, sample_loop)"
proof -
  have n: "nearer late_system True \<lparr>to_dtimeout = 2, to_start = (100, 0)\<rparr> (200, 0) tv w = (- 98, 0)"
    "nearer late_system False \<lparr>to_dtimeout = 3, to_start = (100, 0)\<rparr> (200, 0) (- 98, 0) w = (- 98, 0)" for tv w
    by (simp_all add: nearer_def late_system_def still_system_def to_int_fits fits32_def signed_divide_int_def
        signed_modulo_int_def)
  show ?thesis
    unfolding mainloop_iterate_def prepare_def sample_lists prepare_watches.simps prepare_watch.simps prepare_timeouts.simps
    by (simp add: late_system_def still_system_def select_fd_def FD_SET_def raise_max_def WATCH_READABLE_def
        WATCH_WRITABLE_def WATCH_ERROR_def WATCH_HANGUP_def sample_lists Let_def
        n [unfolded late_system_def still_system_def, simplified])
qed

theorem expired_timeout_stalls_witness:
  "\<exists>i st'. mainloop_iterate (\<lambda>_. True) late_system sample_loop = Inr (i, st') \<and> i = - 1 \<and> pid_list st' \<noteq> []"
  using expired_timeout_stalls [OF late_run, of "(200, 0)" "\<lparr>to_dtimeout = 2, to_start = (100, 0)\<rparr>"] late_run sample_lists(3)
  by (auto simp: sample_lists late_system_def still_system_def active_def left_def fits32_def)

end
