(* ===== verification/Loop_Connect.thy ===== *)
theory Loop_Connect
  imports Mainloop "HOL-Library.Multiset"
begin

text \<open>
  \<open>mainloop_connect\<close> and \<open>mainloop_disconnect\<close> of src/mainloop.c: with a connection that hands its
  watches and timeouts to the functions it is given, the one enters them and the other takes
  exactly them out again.
\<close>

section \<open>Connections\<close>

text \<open>
  What libdbus documents: setting the functions calls the add function for every watch and timeout
  the connection has, clearing them calls the remove function.
\<close>

definition hands_over :: "'w system \<Rightarrow> nat \<Rightarrow> nat list \<Rightarrow> nat list \<Rightarrow> bool" where
  "hands_over sys conn ws ts \<longleftrightarrow> (\<forall>w.
     sy_watch_functions sys conn True w = (w, map Op_dbus_watch_add ws)
     \<and> sy_watch_functions sys conn False w = (w, map Op_dbus_watch_remove ws)
     \<and> sy_timeout_functions sys conn True w = (w, map Op_timeout_add ts)
     \<and> sy_timeout_functions sys conn False w = (w, map Op_timeout_remove ts))"

section \<open>Nodes at the front\<close>

text \<open>The nodes \<open>new\<close> are those of the keys \<open>ks\<close>, in this order, as the tests \<open>P\<close> see them.\<close>

definition nodes_of :: "('k \<Rightarrow> 'a \<Rightarrow> bool) \<Rightarrow> 'k list \<Rightarrow> 'a chain \<Rightarrow> bool" where
  "nodes_of P ks new \<longleftrightarrow> list_all2 (\<lambda>k c. \<forall>k'. P k' (snd c) = (k' = k)) ks new"

lemma nodes_of_simps [simp]:
  "nodes_of P [] new = (new = [])"
  "nodes_of P (k # ks) (c # new) = ((\<forall>k'. P k' (snd c) = (k' = k)) \<and> nodes_of P ks new)"
  by (auto simp: nodes_of_def)

lemma unlink_front:
  "nodes_of P ks new \<Longrightarrow> k \<in> set ks \<Longrightarrow>
   \<exists>new'. unlink (P k) (new @ cs) = new' @ cs \<and> nodes_of P (remove1 k ks) new'"
  unfolding nodes_of_def
proof (induction rule: list_all2_induct)
  case (Cons j ks c new)
  show ?case
  proof (cases "k = j")
    case False
    then obtain new' where "unlink (P k) (new @ cs) = new' @ cs"
      "list_all2 (\<lambda>k c. \<forall>k'. P k' (snd c) = (k' = k)) (remove1 k ks) new'"
      using Cons by auto
    with False Cons.hyps(1) show ?thesis by (intro exI [of _ "c # new'"]) auto
  qed (use Cons.hyps in auto)
qed simp

lemma unlink_fronts:
  "nodes_of P us new \<Longrightarrow> mset ks = mset us \<Longrightarrow> fold (\<lambda>k. unlink (P k)) ks (new @ cs) = cs"
proof (induction ks arbitrary: us new)
  case (Cons k ks)
  have k: "k \<in> set us" using mset_eq_setD [OF Cons.prems(2)] by auto
  obtain new' where "unlink (P k) (new @ cs) = new' @ cs" "nodes_of P (remove1 k us) new'"
    using unlink_front [OF Cons.prems(1) k, of cs] by (elim exE conjE) (rule that)
  moreover have "mset ks = mset (remove1 k us)" using Cons.prems(2) [symmetric] by simp
  ultimately show ?case using Cons.IH by simp
qed simp

lemma dbus_nodes: "nodes_of is_dbus_watch ks new \<Longrightarrow> concat (map (dbus_key \<circ> snd) new) = ks"
  unfolding nodes_of_def
proof (induction rule: list_all2_induct)
  case (Cons k ks c new)
  then have "dbus_key (snd c) = [k]" by (cases "snd c") auto
  with Cons show ?case by simp
qed simp

lemma timeout_nodes: "nodes_of (\<lambda>t x. to_dtimeout x = t) ks new \<Longrightarrow> map (to_dtimeout \<circ> snd) new = ks"
  unfolding nodes_of_def by (induction rule: list_all2_induct) auto

section \<open>Entering and taking out\<close>

lemma enter_watches:
  "\<forall>n. mem n \<Longrightarrow> distinct ws \<Longrightarrow> set ws \<inter> set (dbus_keys st) = {} \<Longrightarrow>
   \<exists>new. watch_list (fold (run_op mem sys) (map Op_dbus_watch_add ws) st) = new @ watch_list st
     \<and> nodes_of is_dbus_watch (rev ws) new
     \<and> timeout_list (fold (run_op mem sys) (map Op_dbus_watch_add ws) st) = timeout_list st
     \<and> pid_list (fold (run_op mem sys) (map Op_dbus_watch_add ws) st) = pid_list st"
proof (induction ws arbitrary: st)
  case (Cons w ws)
  let ?st = "push_watch (Dbus_watch w) st"
  have d: "distinct ws" using Cons.prems(2) by simp
  have "watch_dbus_add mem w st = (True, ?st)"
    using Cons.prems by (auto simp: watch_dbus_add_def on_chain_dbus dbus_keys_def)
  moreover have "set ws \<inter> set (dbus_keys ?st) = {}" using Cons.prems by (auto simp: push_watch_def dbus_keys_def)
  then obtain new where "watch_list (fold (run_op mem sys) (map Op_dbus_watch_add ws) ?st) = new @ watch_list ?st"
     "nodes_of is_dbus_watch (rev ws) new"
     "timeout_list (fold (run_op mem sys) (map Op_dbus_watch_add ws) ?st) = timeout_list ?st"
     "pid_list (fold (run_op mem sys) (map Op_dbus_watch_add ws) ?st) = pid_list ?st"
    using Cons.IH [OF Cons.prems(1) d, of ?st] by blast
  ultimately show ?case
    by (intro exI [of _ "new @ [(ml_fresh st, Dbus_watch w)]"])
      (auto simp: push_watch_def nodes_of_def intro: list_all2_appendI)
qed simp

lemma enter_timeouts:
  "\<forall>n. mem n \<Longrightarrow> \<forall>w. fst (sy_gettimeofday sys w) \<noteq> None \<Longrightarrow> distinct ts \<Longrightarrow> set ts \<inter> set (timeout_keys st) = {} \<Longrightarrow>
   \<exists>new. timeout_list (fold (run_op mem sys) (map Op_timeout_add ts) st) = new @ timeout_list st
     \<and> nodes_of (\<lambda>t x. to_dtimeout x = t) (rev ts) new
     \<and> watch_list (fold (run_op mem sys) (map Op_timeout_add ts) st) = watch_list st
     \<and> pid_list (fold (run_op mem sys) (map Op_timeout_add ts) st) = pid_list st"
proof (induction ts arbitrary: st)
  case (Cons t ts)
  obtain tv w where time: "sy_gettimeofday sys (ml_world st) = (Some tv, w)"
    using Cons.prems(2) by (metis not_Some_eq prod.collapse)
  have d: "distinct ts" using Cons.prems(3) by simp
  let ?st = "push_timeout \<lparr>to_dtimeout = t, to_start = tv\<rparr> (st\<lparr>ml_world := w\<rparr>)"
  have "timeout_dbus_add mem sys t st = (True, ?st)"
    using Cons.prems time by (auto simp: timeout_dbus_add_def on_chain_def list_ex_iff timeout_keys_def)
  moreover have "set ts \<inter> set (timeout_keys ?st) = {}" using Cons.prems by (auto simp: push_timeout_def timeout_keys_def)
  then obtain new where "timeout_list (fold (run_op mem sys) (map Op_timeout_add ts) ?st) = new @ timeout_list ?st"
     "nodes_of (\<lambda>t x. to_dtimeout x = t) (rev ts) new"
     "watch_list (fold (run_op mem sys) (map Op_timeout_add ts) ?st) = watch_list ?st"
     "pid_list (fold (run_op mem sys) (map Op_timeout_add ts) ?st) = pid_list ?st"
    using Cons.IH [OF Cons.prems(1,2) d, of ?st] by blast
  ultimately show ?case
    by (intro exI [of _ "new @ [(ml_fresh st, \<lparr>to_dtimeout = t, to_start = tv\<rparr>)]"])
      (auto simp: push_timeout_def nodes_of_def intro: list_all2_appendI)
qed simp

lemma take_out_watches:
  "fold (run_op mem sys) (map Op_dbus_watch_remove ws) st
     = st\<lparr>watch_list := fold (\<lambda>w. unlink (is_dbus_watch w)) ws (watch_list st)\<rparr>"
  by (induction ws arbitrary: st) (simp_all add: watch_dbus_remove_def)

lemma take_out_timeouts:
  "fold (run_op mem sys) (map Op_timeout_remove ts) st
     = st\<lparr>timeout_list := fold (\<lambda>t. unlink (\<lambda>x. to_dtimeout x = t)) ts (timeout_list st)\<rparr>"
  by (induction ts arbitrary: st) (simp_all add: timeout_dbus_remove_def)

text \<open>
  Connecting a connection that hands over its watches and timeouts enters each of them at
  the front of the list; disconnecting it takes exactly them out and leaves the lists as they
  were.
\<close>

theorem disconnect_undoes_connect:
  assumes "\<forall>n. mem n" "\<forall>w. fst (sy_gettimeofday sys w) \<noteq> None" "hands_over sys conn ws ts" "distinct ws" "distinct ts"
    "set ws \<inter> set (dbus_keys st) = {}" "set ts \<inter> set (timeout_keys st) = {}"
  shows "dbus_keys (mainloop_connect mem sys conn st) = rev ws @ dbus_keys st
    \<and> timeout_keys (mainloop_connect mem sys conn st) = rev ts @ timeout_keys st
    \<and> watch_list (mainloop_disconnect mem sys conn (mainloop_connect mem sys conn st)) = watch_list st
    \<and> timeout_list (mainloop_disconnect mem sys conn (mainloop_connect mem sys conn st)) = timeout_list st
    \<and> pid_list (mainloop_disconnect mem sys conn (mainloop_connect mem sys conn st)) = pid_list st"
proof -
  let ?st1 = "fold (run_op mem sys) (map Op_dbus_watch_add ws) st"
  let ?st2 = "fold (run_op mem sys) (map Op_timeout_add ts) ?st1"
  obtain new where new: "watch_list ?st1 = new @ watch_list st" "nodes_of is_dbus_watch (rev ws) new"
     "timeout_list ?st1 = timeout_list st" "pid_list ?st1 = pid_list st"
    using enter_watches [OF assms(1,4,6)] by blast
  then have "set ts \<inter> set (timeout_keys ?st1) = {}" using assms(7) by (simp add: timeout_keys_def)
  then obtain old where old: "timeout_list ?st2 = old @ timeout_list ?st1" "nodes_of (\<lambda>t x. to_dtimeout x = t) (rev ts) old"
     "watch_list ?st2 = watch_list ?st1" "pid_list ?st2 = pid_list ?st1"
    using enter_timeouts [OF assms(1,2,5)] by blast
  have connect: "mainloop_connect mem sys conn st = ?st2"
    using assms(3) by (simp add: mainloop_connect_def called_back_def run_ops_def hands_over_def)
  have disconnect: "mainloop_disconnect mem sys conn s = fold (run_op mem sys) (map Op_timeout_remove ts)
      (fold (run_op mem sys) (map Op_dbus_watch_remove ws) s)" for s
    using assms(3) by (simp add: mainloop_disconnect_def called_back_def run_ops_def hands_over_def)
  show ?thesis
    unfolding connect disconnect take_out_watches take_out_timeouts
    using new old unlink_fronts [OF new(2), of ws "watch_list st"] unlink_fronts [OF old(2), of ts "timeout_list st"]
    by (simp add: dbus_nodes timeout_nodes dbus_keys_def timeout_keys_def)
qed

text \<open>A connection with two watches and a timeout, on a loop that has some of both.\<close>

definition connecting_system :: "unit system" where
  "connecting_system = still_system\<lparr>
     sy_watch_functions := \<lambda>c on w. (w, map (if on then Op_dbus_watch_add else Op_dbus_watch_remove) [7, 8]),
     sy_timeout_functions := \<lambda>c on w. (w, map (if on then Op_timeout_add else Op_timeout_remove) [9])\<rparr>"

theorem disconnect_undoes_connect_witness:
  "dbus_keys (mainloop_connect (\<lambda>_. True) connecting_system 3 sample_loop) = [8, 7, 4]
   \<and> watch_list (mainloop_disconnect (\<lambda>_. True) connecting_system 3
        (mainloop_connect (\<lambda>_. True) connecting_system 3 sample_loop)) = watch_list sample_loop"
proof -
  have h: "hands_over connecting_system 3 [7, 8] [9]" by (simp add: hands_over_def connecting_system_def)
  have keys: "dbus_keys sample_loop = [4]" "timeout_keys sample_loop = [2, 3]"
    by (simp_all add: sample_loop_def run_ops_def list_ops empty_loop_def on_chain_def still_system_def key_defs)
  show ?thesis
    using disconnect_undoes_connect [OF _ _ h, of "\<lambda>_. True" sample_loop]
    by (simp add: keys connecting_system_def still_system_def)
qed

end
