(* ===== verification/Iterate.thy ===== *)
theory Iterate
  imports Dispatch Mainloop "HOL-Library.While_Combinator"
begin

text \<open>
  \<open>oddjob_dbus_main_iterate\<close> of src/oddjob_dbus.c: one iteration of the main loop, then for each
  service the messages that wait are dispatched to \<open>oddjob_dbus_filter\<close> and the replies sent. What
  libdbus does for a connection and what the handlers do is the record \<open>connections\<close>. A handler may add
  methods to the registry or remove some; the code holds a pointer into the array of services meanwhile.
\<close>

section \<open>Handlers that change the registry\<close>

datatype reg_op =
    Reg_add string string string string int "nat option" "nat option"
  | Reg_remove string string string string

fun reg_step :: "avail \<Rightarrow> reg_op \<Rightarrow> registry \<Rightarrow> bus \<Rightarrow> (registry \<times> bus) res" where
  "reg_step mem (Reg_add s p i m n h d) ctx bus =
     res_bind (oddjob_dbus_listeners_add_method mem ctx s p i m n h d bus) (\<lambda>(ok, ctx, bus). Inr (ctx, bus))"
| "reg_step mem (Reg_remove s p i m) ctx bus = oddjob_dbus_listeners_remove_method mem ctx s p i m bus"

fun reg_steps :: "avail \<Rightarrow> reg_op list \<Rightarrow> registry \<Rightarrow> bus \<Rightarrow> (registry \<times> bus) res" where
  "reg_steps mem [] ctx bus = Inr (ctx, bus)"
| "reg_steps mem (x # xs) ctx bus = res_bind (reg_step mem x ctx bus) (\<lambda>(ctx, bus). reg_steps mem xs ctx bus)"

section \<open>The iteration\<close>

text \<open>
  The functions of libdbus for the connection of a service (\<open>None\<close> is NULL): whether data remain to be
  dispatched; the next message that a dispatch takes, if it takes one for the filter; what becomes
  of the filter's reaction, that is the reply it sends, or the run of the handler with what that does to the
  main loop and to the registry; whether messages wait to be sent; a flush.
\<close>

record 'w connections =
  co_data_remains :: "nat option \<Rightarrow> 'w \<Rightarrow> bool"
  co_receive :: "nat option \<Rightarrow> 'w \<Rightarrow> dbus_msg option \<times> 'w"
  co_react :: "nat option \<Rightarrow> dbus_msg \<Rightarrow> reaction \<Rightarrow> 'w \<Rightarrow> ('w \<times> ml_op list) \<times> reg_op list"
  co_has_messages :: "nat option \<Rightarrow> 'w \<Rightarrow> bool"
  co_flush :: "nat option \<Rightarrow> 'w \<Rightarrow> 'w \<times> ml_op list"

type_synonym 'w drain_state = "registry \<times> bus \<times> 'w mainloop"

text \<open>\<open>srv\<close> is a pointer into the array of services; every use of its connection goes through it.\<close>

definition service_at :: "registry \<Rightarrow> service_ptr \<Rightarrow> service res" where
  "service_at ctx srv = points_to (ctx_array ctx) (elems (slots (ctx_services ctx))) srv"

fun dispatch_one ::
  "avail \<Rightarrow> env \<Rightarrow> 'w system \<Rightarrow> 'w connections \<Rightarrow> service_ptr \<Rightarrow> 'w drain_state \<Rightarrow> 'w drain_state res" where
  "dispatch_one mem env sys co srv (ctx, bus, st) =
     res_bind (service_at ctx srv) (\<lambda>s.
       let c = srv_conn s; (m, w) = co_receive co c (ml_world st)
       in (case (c, m) of
             (Some conn, Some d) \<Rightarrow>
               res_bind (oddjob_dbus_filter mem env ctx conn d) (\<lambda>r.
                 let (called, ops) = co_react co c d r w
                 in res_bind (reg_steps mem ops ctx bus) (\<lambda>(ctx, bus).
                      Inr (ctx, bus, called_back mem sys called st)))
           | _ \<Rightarrow> Inr (ctx, bus, called_back mem sys (w, []) st)))"

fun data_remain :: "'w connections \<Rightarrow> service_ptr \<Rightarrow> 'w drain_state res \<Rightarrow> bool" where
  "data_remain co srv (Inl e) = False"
| "data_remain co srv (Inr (ctx, bus, st)) = (case service_at ctx srv of
       Inl e \<Rightarrow> True
     | Inr s \<Rightarrow> co_data_remains co (srv_conn s) (ml_world st))"

definition dispatch_all ::
  "avail \<Rightarrow> env \<Rightarrow> 'w system \<Rightarrow> 'w connections \<Rightarrow> service_ptr \<Rightarrow> 'w drain_state \<Rightarrow> 'w drain_state res option" where
  "dispatch_all mem env sys co srv s =
     while_option (data_remain co srv) (\<lambda>r. res_bind r (dispatch_one mem env sys co srv)) (Inr s)"

definition flush_all ::
  "avail \<Rightarrow> 'w system \<Rightarrow> 'w connections \<Rightarrow> nat option \<Rightarrow> 'w mainloop \<Rightarrow> 'w mainloop option" where
  "flush_all mem sys co c st =
     while_option (\<lambda>st. co_has_messages co c (ml_world st))
       (\<lambda>st. called_back mem sys (co_flush co c (ml_world st)) st) st"

definition or_diverges :: "'a option \<Rightarrow> 'a res" where
  "or_diverges r = (case r of None \<Rightarrow> Inl Diverges | Some x \<Rightarrow> Inr x)"

text \<open>
  The count the loop is bounded by only changes together with the array, which the loop does not
  outlive: \<open>srv\<close> is used once more after the dispatch.
\<close>

fun drain_services ::
  "avail \<Rightarrow> env \<Rightarrow> 'w system \<Rightarrow> 'w connections \<Rightarrow> nat \<Rightarrow> nat \<Rightarrow> 'w drain_state \<Rightarrow> 'w drain_state res" where
  "drain_services mem env sys co i 0 s = Inr s"
| "drain_services mem env sys co i (Suc n) s =
     (let srv = (ctx_array (fst s), i)
      in res_bind (or_diverges (dispatch_all mem env sys co srv s)) (\<lambda>r. res_bind r (\<lambda>(ctx, bus, st).
         res_bind (service_at ctx srv) (\<lambda>x.
         res_bind (or_diverges (flush_all mem sys co (srv_conn x) st)) (\<lambda>st.
           drain_services mem env sys co (i + 1) n (ctx, bus, st))))))"

definition oddjob_dbus_main_iterate ::
  "avail \<Rightarrow> env \<Rightarrow> 'w system \<Rightarrow> 'w connections \<Rightarrow> registry \<Rightarrow> bus \<Rightarrow> (sig \<Rightarrow> disposition) \<Rightarrow> 'w mainloop
     \<Rightarrow> (int \<times> (sig \<Rightarrow> disposition) \<times> 'w drain_state) res" where
  "oddjob_dbus_main_iterate mem env sys co ctx bus handlers st =
     (let handlers = mainloop_reset_signal_handlers handlers
      in res_bind (mainloop_iterate mem sys st) (\<lambda>(ret, st).
         res_bind (drain_services mem env sys co 0 (used (ctx_services ctx)) (ctx, bus, st))
           (\<lambda>s. Inr (ret, handlers, s))))"

section \<open>The signals\<close>

lemma reset_signal_handlers:
  "mainloop_reset_signal_handlers h SIGPIPE = SIG_IGN"
  "s \<in> {SIGALRM, SIGINT, SIGQUIT, SIGILL, SIGABRT, SIGSEGV, SIGTERM, SIGCHLD, SIGCONT}
     \<Longrightarrow> mainloop_reset_signal_handlers h s = SIG_DFL"
  "s \<in> {SIGKILL, SIGSTOP} \<Longrightarrow> mainloop_reset_signal_handlers h s = h s"
  "mainloop_reset_signal_handlers h (Other_signal n) = h (Other_signal n)"
  by (auto simp: mainloop_reset_signal_handlers_def set_signal_def)

section \<open>Queues of connections\<close>

text \<open>
  Each connection has messages that have come in and messages to be sent, and finitely many more come in
  during the iteration (\<open>arriving\<close>). Any function of libdbus that is called for a connection, and
  any handler, may let some of those come in, on any connection; messages to be sent are only queued on the
  connection itself. A dispatch with data takes at least one message, a flush sends at least one.
\<close>

definition moves_on ::
  "(nat option \<Rightarrow> 'w \<Rightarrow> nat) \<Rightarrow> (nat option \<Rightarrow> 'w \<Rightarrow> nat) \<Rightarrow> ('w \<Rightarrow> nat) \<Rightarrow> nat option \<Rightarrow> 'w \<Rightarrow> 'w \<Rightarrow> bool" where
  "moves_on incoming outgoing arriving c w w' \<longleftrightarrow>
     arriving w' \<le> arriving w
     \<and> (\<forall>d. incoming d w' + arriving w' \<le> incoming d w + arriving w)
     \<and> (\<forall>d. d \<noteq> c \<longrightarrow> outgoing d w' \<le> outgoing d w)"

lemma moves_on_refl [simp]: "moves_on incoming outgoing arriving c w w"
  by (simp add: moves_on_def)

lemma moves_on_trans:
  assumes "moves_on incoming outgoing arriving c w w1" "moves_on incoming outgoing arriving c w1 w2"
  shows "moves_on incoming outgoing arriving c w w2"
  using assms unfolding moves_on_def by (meson le_trans)

definition queues ::
  "'w system \<Rightarrow> 'w connections \<Rightarrow> (nat option \<Rightarrow> 'w \<Rightarrow> nat) \<Rightarrow> (nat option \<Rightarrow> 'w \<Rightarrow> nat) \<Rightarrow> ('w \<Rightarrow> nat) \<Rightarrow> bool" where
  "queues sys co incoming outgoing arriving \<longleftrightarrow>
     (\<forall>c w. co_data_remains co c w = (incoming c w > 0) \<and> co_has_messages co c w = (outgoing c w > 0)
        \<and> incoming c (snd (sy_gettimeofday sys w)) = incoming c w
        \<and> outgoing c (snd (sy_gettimeofday sys w)) = outgoing c w
        \<and> arriving (snd (sy_gettimeofday sys w)) = arriving w
        \<and> moves_on incoming outgoing arriving c w (snd (co_receive co c w))
        \<and> (incoming c w > 0 \<longrightarrow> incoming c (snd (co_receive co c w)) + arriving (snd (co_receive co c w))
                                  < incoming c w + arriving w)
        \<and> (\<forall>d r. moves_on incoming outgoing arriving c w (fst (fst (co_react co c d r w))))
        \<and> moves_on incoming outgoing arriving c w (fst (co_flush co c w))
        \<and> (outgoing c w > 0 \<longrightarrow> outgoing c (fst (co_flush co c w)) < outgoing c w))"

lemma run_op_world:
  assumes "\<And>w. f (snd (sy_gettimeofday sys w)) = f w"
  shows "f (ml_world (run_op mem sys op st)) = f (ml_world st)"
proof (cases op)
  case (Op_timeout_add t)
  then show ?thesis
    using assms [of "ml_world st"]
    by (cases "sy_gettimeofday sys (ml_world st)") (auto simp: list_ops split: option.split)
qed (simp_all add: list_ops)

lemma called_back_world:
  assumes "\<And>w. f (snd (sy_gettimeofday sys w)) = f w"
  shows "f (ml_world (called_back mem sys r st)) = f (fst r)"
proof -
  have "f (ml_world (fold (run_op mem sys) ops st)) = f (ml_world st)" for ops and st :: "'a mainloop"
    by (induction ops arbitrary: st) (simp_all add: run_op_world [where f = f, OF assms])
  then show ?thesis by (simp add: called_back_def run_ops_def)
qed

lemma queues_back:
  assumes "queues sys co incoming outgoing arriving"
  shows "incoming c (ml_world (called_back mem sys r st)) = incoming c (fst r)"
    "outgoing c (ml_world (called_back mem sys r st)) = outgoing c (fst r)"
    "arriving (ml_world (called_back mem sys r st)) = arriving (fst r)"
  using assms by (auto simp: queues_def intro!: called_back_world)

lemma moves_on_back:
  assumes "queues sys co incoming outgoing arriving"
  shows "moves_on incoming outgoing arriving c w (ml_world (called_back mem sys r st))
    \<longleftrightarrow> moves_on incoming outgoing arriving c w (fst r)"
  by (simp add: moves_on_def queues_back [OF assms])

lemma while_empties:
  assumes "\<And>s. P s \<Longrightarrow> b s \<Longrightarrow> P (c s) \<and> (f (c s) :: nat) < f s" "P s"
  shows "\<exists>t. while_option b c s = Some t \<and> P t \<and> \<not> b t"
proof -
  obtain t where t: "while_option b c s = Some t"
    using measure_while_option_Some [of P b c f, OF assms] by blast
  moreover have "P t" using while_option_rule [of P b c, OF _ t assms(2)] assms(1) by blast
  ultimately show ?thesis using while_option_stop [OF t] by blast
qed

section \<open>Registry operations under the loop\<close>

text \<open>An operation after which the array is the same leaves every connection where it was.\<close>

definition conns :: "registry \<Rightarrow> nat option list" where
  "conns ctx = map srv_conn (elems (slots (ctx_services ctx)))"

definition same_conns :: "registry \<Rightarrow> registry \<Rightarrow> bool" where
  "same_conns ctx ctx' \<longleftrightarrow> conns ctx' = conns ctx \<and> used (ctx_services ctx') = used (ctx_services ctx)
     \<and> ctx_array ctx' = ctx_array ctx"

lemma same_conns_refl [simp]: "same_conns ctx ctx"
  by (simp add: same_conns_def)

lemma service_modified:
  assumes "modify_slot k f (ctx_services ctx) = Inr (r, t)" "\<And>x r y. f x = Inr (r, y) \<Longrightarrow> srv_conn y = srv_conn x"
  shows "same_conns ctx (ctx\<lparr>ctx_services := t\<rparr>)"
proof -
  obtain x y where m: "arr_get (elems (slots (ctx_services ctx))) k = Inr x" "f x = Inr (r, y)"
    "elems (slots t) = (elems (slots (ctx_services ctx)))[k := y]" "used t = used (ctx_services ctx)"
    using assms(1) by (rule modify_slotD)
  have "srv_conn y = srv_conn (elems (slots (ctx_services ctx)) ! k)"
    using assms(2) [OF m(2)] m(1) by (simp add: arr_get_def split: if_splits)
  then have "map srv_conn ((elems (slots (ctx_services ctx)))[k := y]) = map srv_conn (elems (slots (ctx_services ctx)))"
    by (metis list_update_id map_update nth_map linorder_not_le list_update_beyond)
  with m(3,4) show ?thesis by (simp add: same_conns_def conns_def)
qed

text \<open>
  Adding a method changes the array exactly if the service is new; removing one if the last service goes.
\<close>

lemma add_method_array:
  assumes "oddjob_dbus_listeners_add_method mem ctx s p i m n h d bus = Inr (ok, ctx', bus')"
    "find_named srv_name s (ctx_services ctx) = Inr k"
  shows "if k < used (ctx_services ctx) then same_conns ctx ctx' else ctx_array ctx' = ctx_array ctx + 1"
proof (cases "k < used (ctx_services ctx)")
  case True
  have conn: "srv_conn y = srv_conn z" if "add_to_service mem p i m n h d z = Inr (cs, y)" for z cs y
    using that by (auto simp: add_to_service_def res_simps)
  have "ctx\<lparr>ctx_services := t, ctx_array := ctx_array ctx\<rparr> = ctx\<lparr>ctx_services := t\<rparr>" for t by simp
  with True show ?thesis
    using assms service_modified [of k "add_to_service mem p i m n h d" ctx] conn
    by (auto simp: oddjob_dbus_listeners_add_method_def enter_service_def Let_def res_simps)
next
  case False
  then show ?thesis
    using assms
    by (auto simp: oddjob_dbus_listeners_add_method_def enter_service_def Let_def res_simps split: if_splits)
qed

lemma remove_method_array:
  assumes "oddjob_dbus_listeners_remove_method mem ctx s p i m bus = Inr (ctx', bus')"
  shows "same_conns ctx ctx' \<or> ctx_array ctx' = ctx_array ctx + 1"
proof -
  have conn: "srv_conn y = srv_conn z" if "remove_from_service mem p i m z = Inr (q, y)" for z q y
    using that by (auto simp: remove_from_service_def res_simps)
  have gone: "a' = a + 1" if "drop_service mem (a, k) t' = Inr (a', t)" for a a' k t' and t :: "service table"
    using that by (auto simp: drop_service_def Let_def res_simps split: if_splits)
  obtain k where k: "find_named srv_name s (ctx_services ctx) = Inr k"
    using assms by (auto simp: oddjob_dbus_listeners_remove_method_def Let_def res_simps)
  show ?thesis
  proof (cases "k \<ge> used (ctx_services ctx)")
    case True
    then show ?thesis using assms k by (auto simp: oddjob_dbus_listeners_remove_method_def)
  next
    case False
    then show ?thesis
      using assms k service_modified [of k "remove_from_service mem p i m" ctx] conn
      by (auto simp: oddjob_dbus_listeners_remove_method_def Let_def res_simps dest!: gone split: if_splits)
  qed
qed

lemma reg_step_array:
  assumes "reg_step mem x ctx bus = Inr (ctx', bus')"
  shows "same_conns ctx ctx' \<or> ctx_array ctx < ctx_array ctx'"
proof (cases x)
  case (Reg_add s p i m n h d)
  then obtain ok where a: "oddjob_dbus_listeners_add_method mem ctx s p i m n h d bus = Inr (ok, ctx', bus')"
    using assms by (auto simp: res_simps)
  then obtain k where "find_named srv_name s (ctx_services ctx) = Inr k"
    by (auto simp: oddjob_dbus_listeners_add_method_def enter_service_def Let_def res_simps)
  from add_method_array [OF a this] show ?thesis by (auto split: if_splits)
next
  case (Reg_remove s p i m)
  with assms remove_method_array [of mem ctx s p i m bus] show ?thesis by fastforce
qed

lemma reg_steps_array:
  "reg_steps mem xs ctx bus = Inr (ctx', bus') \<Longrightarrow> same_conns ctx ctx' \<or> ctx_array ctx < ctx_array ctx'"
proof (induction xs arbitrary: ctx bus)
  case (Cons x xs)
  then obtain ctx1 bus1 where "reg_step mem x ctx bus = Inr (ctx1, bus1)" "reg_steps mem xs ctx1 bus1 = Inr (ctx', bus')"
    by (auto simp: res_simps)
  with reg_step_array [of mem x ctx bus] Cons.IH show ?case by (fastforce simp: same_conns_def)
qed simp

lemma reg_steps_append:
  "reg_steps mem (xs @ ys) ctx bus = res_bind (reg_steps mem xs ctx bus) (\<lambda>(ctx, bus). reg_steps mem ys ctx bus)"
proof (induction xs arbitrary: ctx bus)
  case (Cons x xs)
  then show ?case by (cases "reg_step mem x ctx bus") auto
qed simp

lemma service_at_conns:
  "i < length (conns ctx) \<Longrightarrow> \<exists>s. service_at ctx (ctx_array ctx, i) = Inr s \<and> srv_conn s = conns ctx ! i"
  by (simp add: service_at_def conns_def arr_get_def)

lemma service_at_moved: "ctx_array ctx \<noteq> a \<Longrightarrow> service_at ctx (a, i) = Inl Use_after_free"
  by (simp add: service_at_def)

text \<open>A fault that the filter or a handler's operation raised or led to.\<close>

definition blamed :: "avail \<Rightarrow> env \<Rightarrow> 'w connections \<Rightarrow> fault \<Rightarrow> bool" where
  "blamed mem env co e \<longleftrightarrow>
     (\<exists>ctx conn d. oddjob_dbus_filter mem env ctx conn d = Inl e)
     \<or> (\<exists>c d r w ctx bus. case reg_steps mem (snd (co_react co c d r w)) ctx bus of
          Inl e' \<Rightarrow> e = e' | Inr (ctx', bus') \<Rightarrow> ctx_array ctx' \<noteq> ctx_array ctx \<and> e = Use_after_free)"

text \<open>One dispatch: a fault, another array, or a world in which the messages have moved on.\<close>

lemma dispatch_one_cases:
  assumes "queues sys co incoming outgoing arriving" "i < length (conns ctx)" "c = conns ctx ! i" "incoming c (ml_world st) > 0"
  obtains (fault) e where "dispatch_one mem env sys co (ctx_array ctx, i) (ctx, bus, st) = Inl e" "blamed mem env co e"
  | (went) ctx' bus' st' where "dispatch_one mem env sys co (ctx_array ctx, i) (ctx, bus, st) = Inr (ctx', bus', st')"
      "same_conns ctx ctx' \<or> (ctx_array ctx < ctx_array ctx' \<and> blamed mem env co Use_after_free)"
      "moves_on incoming outgoing arriving c (ml_world st) (ml_world st')"
      "incoming c (ml_world st') + arriving (ml_world st') < incoming c (ml_world st) + arriving (ml_world st)"
      "ml_ok st \<longrightarrow> ml_ok st'"
proof -
  obtain s where s: "service_at ctx (ctx_array ctx, i) = Inr s" "srv_conn s = c"
    using service_at_conns [OF assms(2)] assms(3) by blast
  obtain m w where mw: "co_receive co c (ml_world st) = (m, w)" by fastforce
  have w: "moves_on incoming outgoing arriving c (ml_world st) w"
    "incoming c w + arriving w < incoming c (ml_world st) + arriving (ml_world st)"
    using assms(1,4) mw unfolding queues_def by (metis snd_conv)+
  note world = moves_on_back [OF assms(1)] queues_back [OF assms(1)]
  show thesis
  proof (cases "\<exists>conn d. c = Some conn \<and> m = Some d")
    case False
    then have "dispatch_one mem env sys co (ctx_array ctx, i) (ctx, bus, st) = Inr (ctx, bus, called_back mem sys (w, []) st)"
      using s mw by (cases c; cases m) simp_all
    then show thesis by (rule went) (use w in \<open>simp_all add: world called_back_ok\<close>)
  next
    case True
    then obtain conn d where cd: "c = Some conn" "m = Some d" by blast
    show thesis
    proof (cases "oddjob_dbus_filter mem env ctx conn d")
      case (Inl e)
      then have "dispatch_one mem env sys co (ctx_array ctx, i) (ctx, bus, st) = Inl e" using s mw cd by simp
      then show thesis by (rule fault) (use Inl in \<open>auto simp: blamed_def\<close>)
    next
      case (Inr r)
      obtain called ops where react: "co_react co c d r w = (called, ops)" by fastforce
      have called: "moves_on incoming outgoing arriving c w (fst called)"
        using assms(1) react unfolding queues_def by (metis fst_conv)
      have one: "dispatch_one mem env sys co (ctx_array ctx, i) (ctx, bus, st)
          = res_bind (reg_steps mem ops ctx bus) (\<lambda>(ctx, bus). Inr (ctx, bus, called_back mem sys called st))"
        using s mw cd Inr react by simp
      have blame: "blamed mem env co e" if "case reg_steps mem ops ctx bus of
          Inl e' \<Rightarrow> e = e' | Inr (ctx', bus') \<Rightarrow> ctx_array ctx' \<noteq> ctx_array ctx \<and> e = Use_after_free" for e
        using that react unfolding blamed_def by (metis snd_conv)
      show thesis
      proof (cases "reg_steps mem ops ctx bus")
        case (Inl e)
        with one show thesis by (intro fault [of e] blame) simp_all
      next
        case (Inr z)
        then obtain ctx' bus' where z: "reg_steps mem ops ctx bus = Inr (ctx', bus')" by (cases z) auto
        have "same_conns ctx ctx' \<or> (ctx_array ctx < ctx_array ctx' \<and> blamed mem env co Use_after_free)"
          using reg_steps_array [OF z] blame z by auto
        moreover have "incoming c (fst called) + arriving (fst called) \<le> incoming c w + arriving w"
          using called by (simp add: moves_on_def)
        ultimately show thesis
          using one z w moves_on_trans [OF w(1) called]
          by (intro went [of ctx' bus' "called_back mem sys called st"]) (simp_all add: world called_back_ok)
      qed
    qed
  qed
qed

lemma dispatch_all_empties:
  assumes "queues sys co incoming outgoing arriving" "i < length (conns ctx)" "c = conns ctx ! i"
  shows "\<exists>r. dispatch_all mem env sys co (ctx_array ctx, i) (ctx, bus, st) = Some r \<and> (case r of Inl e \<Rightarrow> blamed mem env co e
     | Inr (ctx', bus', st') \<Rightarrow> same_conns ctx ctx' \<and> incoming c (ml_world st') = 0
         \<and> moves_on incoming outgoing arriving c (ml_world st) (ml_world st') \<and> (ml_ok st \<longrightarrow> ml_ok st'))"
proof -
  let ?srv = "(ctx_array ctx, i)"
  let ?P = "\<lambda>r. case r of Inl e \<Rightarrow> blamed mem env co e
     | Inr (ctx', bus', st') \<Rightarrow> (same_conns ctx ctx' \<or> (ctx_array ctx < ctx_array ctx' \<and> blamed mem env co Use_after_free))
         \<and> moves_on incoming outgoing arriving c (ml_world st) (ml_world st') \<and> (ml_ok st \<longrightarrow> ml_ok st')"
  let ?f = "\<lambda>r. case r of Inl e \<Rightarrow> 0
     | Inr (ctx', bus', st') \<Rightarrow> if ctx_array ctx' \<noteq> ctx_array ctx then 1
         else Suc (Suc (incoming c (ml_world st') + arriving (ml_world st')))"
  have remain: "data_remain co ?srv (Inr (ctx', bus', st')) \<longleftrightarrow> incoming c (ml_world st') > 0"
    if "same_conns ctx ctx'" for ctx' bus' and st' :: "'a mainloop"
    using that assms service_at_conns [of i ctx'] by (auto simp: same_conns_def queues_def)
  have gone: "data_remain co ?srv (Inr (ctx', bus', st'))" if "ctx_array ctx < ctx_array ctx'" for ctx' bus' and st' :: "'a mainloop"
    using that service_at_moved [of ctx' "ctx_array ctx" i] by simp
  have step: "?P (res_bind r (dispatch_one mem env sys co ?srv)) \<and> ?f (res_bind r (dispatch_one mem env sys co ?srv)) < ?f r"
    if P: "?P r" and b: "data_remain co ?srv r" for r
  proof -
    obtain ctx1 bus1 st1 where r: "r = Inr (ctx1, bus1, st1)" using b by (cases r) auto
    show ?thesis
    proof (cases "same_conns ctx ctx1")
      case False
      then have "ctx_array ctx < ctx_array ctx1" "blamed mem env co Use_after_free" using P r by auto
      then show ?thesis using r service_at_moved [of ctx1 "ctx_array ctx" i] by simp
    next
      case same: True
      have pos: "incoming c (ml_world st1) > 0" using remain [OF same] b r by simp
      have i1: "i < length (conns ctx1)" "c = conns ctx1 ! i" "ctx_array ctx1 = ctx_array ctx"
        using same assms(2,3) by (simp_all add: same_conns_def)
      from assms(1) i1(1,2) pos show ?thesis
      proof (cases rule: dispatch_one_cases [where mem = mem and env = env and bus = bus1 and st = st1])
        case (fault e)
        with r i1(3) show ?thesis by simp
      next
        case (went ctx2 bus2 st2)
        have "moves_on incoming outgoing arriving c (ml_world st) (ml_world st2)"
          using P r went(3) by (auto intro: moves_on_trans)
        with went r P same i1(3) show ?thesis by (auto simp: same_conns_def)
      qed
    qed
  qed
  have start: "?P (Inr (ctx, bus, st))" by simp
  obtain r where r: "dispatch_all mem env sys co ?srv (ctx, bus, st) = Some r" "?P r" "\<not> data_remain co ?srv r"
    using while_empties [where P = ?P and b = "data_remain co ?srv" and f = ?f, OF step start]
    unfolding dispatch_all_def by blast
  show ?thesis
  proof (cases r)
    case (Inl e)
    with r show ?thesis by simp
  next
    case (Inr z)
    then obtain ctx' bus' st' where z: "r = Inr (ctx', bus', st')" by (cases z) auto
    then have "same_conns ctx ctx'" using r(2,3) gone by auto
    then show ?thesis using r z remain by auto
  qed
qed

lemma flush_all_empties:
  assumes "queues sys co incoming outgoing arriving"
  shows "\<exists>st'. flush_all mem sys co c st = Some st' \<and> outgoing c (ml_world st') = 0
     \<and> moves_on incoming outgoing arriving c (ml_world st) (ml_world st') \<and> (ml_ok st \<longrightarrow> ml_ok st')"
proof -
  let ?P = "\<lambda>st'. moves_on incoming outgoing arriving c (ml_world st) (ml_world st') \<and> (ml_ok st \<longrightarrow> ml_ok st')"
  let ?flush = "\<lambda>st. called_back mem sys (co_flush co c (ml_world st)) st"
  have step: "?P (?flush s) \<and> outgoing c (ml_world (?flush s)) < outgoing c (ml_world s)"
    if "?P s" "co_has_messages co c (ml_world s)" for s
  proof -
    have "moves_on incoming outgoing arriving c (ml_world s) (fst (co_flush co c (ml_world s)))"
      "outgoing c (fst (co_flush co c (ml_world s))) < outgoing c (ml_world s)"
      using assms that(2) unfolding queues_def by blast+
    then show ?thesis
      using that(1) by (auto simp: moves_on_back [OF assms] queues_back [OF assms] called_back_ok intro: moves_on_trans)
  qed
  have "\<exists>t. while_option (\<lambda>st. co_has_messages co c (ml_world st)) ?flush st = Some t
       \<and> ?P t \<and> \<not> co_has_messages co c (ml_world t)"
    by (rule while_empties [where f = "\<lambda>st. outgoing c (ml_world st)", OF step]) simp_all
  then show ?thesis
    using assms by (auto simp: flush_all_def queues_def)
qed

section \<open>After the iteration nothing waits\<close>

text \<open>Nothing is to be sent, and what has come in is among the at most \<open>A\<close> messages that came in meanwhile.\<close>

definition drained ::
  "(nat option \<Rightarrow> 'w \<Rightarrow> nat) \<Rightarrow> (nat option \<Rightarrow> 'w \<Rightarrow> nat) \<Rightarrow> ('w \<Rightarrow> nat) \<Rightarrow> nat \<Rightarrow> nat option \<Rightarrow> 'w \<Rightarrow> bool" where
  "drained incoming outgoing arriving A c w \<longleftrightarrow> outgoing c w = 0 \<and> incoming c w + arriving w \<le> A"

lemma drained_other:
  "drained incoming outgoing arriving A d w \<Longrightarrow> d \<noteq> c \<Longrightarrow> moves_on incoming outgoing arriving c w w' \<Longrightarrow>
     drained incoming outgoing arriving A d w'"
  unfolding drained_def moves_on_def by (metis le_trans le_zero_eq)

lemma drain_services_drains:
  assumes "queues sys co incoming outgoing arriving"
  shows "ml_ok st \<Longrightarrow> i + n \<le> length (conns ctx) \<Longrightarrow> arriving (ml_world st) \<le> A \<Longrightarrow>
    (case drain_services mem env sys co i n (ctx, bus, st) of Inl e \<Rightarrow> blamed mem env co e
     | Inr (ctx', bus', st') \<Rightarrow> ml_ok st' \<and> same_conns ctx ctx'
         \<and> (\<forall>j < n. drained incoming outgoing arriving A (conns ctx ! (i + j)) (ml_world st'))
         \<and> (\<forall>d. drained incoming outgoing arriving A d (ml_world st) \<longrightarrow> drained incoming outgoing arriving A d (ml_world st')))"
proof (induction n arbitrary: i ctx bus st)
  case 0
  then show ?case by simp
next
  case (Suc n)
  let ?c = "conns ctx ! i" and ?dr = "drained incoming outgoing arriving A"
  have i: "i < length (conns ctx)" using Suc.prems(2) by simp
  obtain r where r: "dispatch_all mem env sys co (ctx_array ctx, i) (ctx, bus, st) = Some r"
    "case r of Inl e \<Rightarrow> blamed mem env co e
     | Inr (ctx', bus', st') \<Rightarrow> same_conns ctx ctx' \<and> incoming ?c (ml_world st') = 0
         \<and> moves_on incoming outgoing arriving ?c (ml_world st) (ml_world st') \<and> (ml_ok st \<longrightarrow> ml_ok st')"
    using dispatch_all_empties [OF assms i refl, of mem env bus st] by blast
  show ?case
  proof (cases r)
    case (Inl e)
    with r show ?thesis by (simp add: or_diverges_def)
  next
    case (Inr z)
    then obtain ctx1 bus1 st1 where z: "r = Inr (ctx1, bus1, st1)" by (cases z) auto
    with r(2) Suc.prems(1) have 1: "same_conns ctx ctx1" "incoming ?c (ml_world st1) = 0"
      "moves_on incoming outgoing arriving ?c (ml_world st) (ml_world st1)" "ml_ok st1" by simp_all
    obtain s where s: "service_at ctx1 (ctx_array ctx, i) = Inr s" "srv_conn s = ?c"
      using service_at_conns [of i ctx1] 1(1) i by (auto simp: same_conns_def)
    obtain st2 where 2: "flush_all mem sys co ?c st1 = Some st2" "outgoing ?c (ml_world st2) = 0"
       "moves_on incoming outgoing arriving ?c (ml_world st1) (ml_world st2)" "ml_ok st2"
      using flush_all_empties [OF assms, of mem ?c st1] 1(4) by auto
    have step: "drain_services mem env sys co i (Suc n) (ctx, bus, st) = drain_services mem env sys co (Suc i) n (ctx1, bus1, st2)"
      using r(1) z s 2(1) by (simp add: or_diverges_def)
    have moved: "moves_on incoming outgoing arriving ?c (ml_world st) (ml_world st2)"
      using moves_on_trans [OF 1(3) 2(3)] .
    have few: "arriving (ml_world st2) \<le> A" "arriving (ml_world st1) \<le> A"
      using moved 1(3) Suc.prems(3) by (simp_all add: moves_on_def)
    have "incoming ?c (ml_world st2) + arriving (ml_world st2) \<le> arriving (ml_world st1)"
      using 2(3) 1(2) unfolding moves_on_def by (metis add_0)
    then have here: "?dr ?c (ml_world st2)" using 2(2) few by (simp add: drained_def)
    have kept: "?dr e (ml_world st2)" if "?dr e (ml_world st)" for e
      using that here drained_other [OF that _ moved] by (cases "e = ?c") simp_all
    have "Suc i + n \<le> length (conns ctx1)" using Suc.prems(2) 1(1) by (simp add: same_conns_def)
    note IH = Suc.IH [OF 2(4) this few(1), of bus1]
    show ?thesis
    proof (cases "drain_services mem env sys co (Suc i) n (ctx1, bus1, st2)")
      case (Inl e)
      with IH step show ?thesis by simp
    next
      case (Inr y)
      then obtain ctx' bus' st' where y: "drain_services mem env sys co (Suc i) n (ctx1, bus1, st2) = Inr (ctx', bus', st')"
        by (cases y) auto
      with IH have 3: "ml_ok st'" "same_conns ctx1 ctx'" "\<forall>j < n. ?dr (conns ctx1 ! (Suc i + j)) (ml_world st')"
        "\<forall>d. ?dr d (ml_world st2) \<longrightarrow> ?dr d (ml_world st')" by simp_all
      have "?dr (conns ctx ! (i + j)) (ml_world st')" if "j < Suc n" for j
        using 3(3,4) here 1(1) that by (cases j) (auto simp: same_conns_def)
      then show ?thesis using y step 3 1(1) kept by (simp add: same_conns_def)
    qed
  qed
qed


section \<open>A handler that offers another service\<close>

text \<open>A registry operation in the course of which a service is entered leaves another array.\<close>

lemma reg_steps_new_service:
  assumes "reg_steps mem (before @ Reg_add s p i m n h d # after) ctx bus = Inr (ctx', bus')"
    "reg_steps mem before ctx bus = Inr (ctx1, bus1)" "registry_ok N ctx1"
    "lookup srv_name (ctx_services ctx1) s = None"
  shows "ctx_array ctx < ctx_array ctx'"
proof -
  have wf: "table_wf srv_name (ctx_services ctx1)" using assms(3) by (simp add: registry_ok_def)
  have f: "find_named srv_name s (ctx_services ctx1) = Inr (used (ctx_services ctx1))"
    using wf by (rule services.find_named_cases [of _ s]) (use assms(4) in auto)
  obtain ok ctx2 bus2 where 2: "oddjob_dbus_listeners_add_method mem ctx1 s p i m n h d bus1 = Inr (ok, ctx2, bus2)"
    "reg_steps mem after ctx2 bus2 = Inr (ctx', bus')"
    using assms(1) unfolding reg_steps_append assms(2) by (auto simp: res_simps)
  have "ctx_array ctx2 = ctx_array ctx1 + 1" using add_method_array [OF 2(1) f] by simp
  with reg_steps_array [OF assms(2)] reg_steps_array [OF 2(2)] show ?thesis by (auto simp: same_conns_def)
qed

text \<open>
  C29. When a handler called for a message at any of the services adds a method of a service
  that is not registered yet, among any operations on the registry that return, the loop over
  the services ends in a use after free: the array of services is reallocated, and srv still
  points into the old one when the loop reads srv->conn again.
\<close>

theorem handler_adding_service_faults:
  assumes "registry_ok N ctx" "i < used (ctx_services ctx)" "srv_conn (entries (ctx_services ctx) ! i) = Some conn"
    and "co_data_remains co (Some conn) (ml_world st)" "co_receive co (Some conn) (ml_world st) = (Some msg, w)"
    and "oddjob_dbus_filter mem env ctx conn msg = Inr r"
    and "snd (co_react co (Some conn) msg r w) = before @ Reg_add s p f m n h d # after"
    and "reg_steps mem before ctx bus = Inr (ctx1, bus1)" "registry_ok N ctx1" "lookup srv_name (ctx_services ctx1) s = None"
    and "reg_steps mem (before @ Reg_add s p f m n h d # after) ctx bus = Inr (ctx', bus')"
  shows "drain_services mem env sys co i (Suc k) (ctx, bus, st) = Inl Use_after_free"
proof -
  let ?t = "ctx_services ctx" and ?srv = "(ctx_array ctx, i)"
  have wf: "table_wf srv_name ?t" using assms(1) by (simp add: registry_ok_def)
  then have "i < length (conns ctx)" "conns ctx ! i = Some conn"
    using assms(2,3) by (simp_all add: conns_def table_wf_def entries_def)
  then obtain x where x: "service_at ctx ?srv = Inr x" "srv_conn x = Some conn"
    using service_at_conns [of i ctx] by auto
  obtain called where called: "co_react co (Some conn) msg r w = (called, before @ Reg_add s p f m n h d # after)"
    using assms(7) by (cases "co_react co (Some conn) msg r w") simp
  have one: "dispatch_one mem env sys co ?srv (ctx, bus, st) = Inr (ctx', bus', called_back mem sys called st)"
    using x assms(5,6,11) called by simp
  have "ctx_array ctx < ctx_array ctx'" by (rule reg_steps_new_service [OF assms(11,8-10)])
  then have gone: "service_at ctx' ?srv = Inl Use_after_free" by (simp add: service_at_moved)
  have "dispatch_all mem env sys co ?srv (ctx, bus, st) = Some (Inl Use_after_free)"
    using x assms(4) one gone unfolding dispatch_all_def
    by (subst while_option_unfold, simp del: dispatch_one.simps)
      (subst while_option_unfold, simp, subst while_option_unfold, simp)
  then show ?thesis by (simp add: or_diverges_def)
qed

section \<open>Examples\<close>

text \<open>
  A world of the number of messages still to come and, for each connection, of the lengths of its queues;
  each message is a call, the filter's reaction to it queues a reply, and a flush lets one more message
  come in.
\<close>

type_synonym queue_state = "nat \<times> (nat option \<Rightarrow> nat \<times> nat)"

definition queue_world :: "queue_state system" where
  "queue_world = \<lparr>sy_gettimeofday = \<lambda>w. (Some (100, 0), w), sy_watch_enabled = \<lambda>w d. True,
     sy_watch_fd = \<lambda>w d. int d, sy_watch_flags = \<lambda>w d. 3, sy_timeout_enabled = \<lambda>w t. True,
     sy_timeout_interval = \<lambda>w t. 1000 * int t, sy_watch_handle = \<lambda>d f w. (w, []),
     sy_timeout_handle = \<lambda>t w. (w, []), sy_watch_fn = \<lambda>fn fd f d w. (True, w, []),
     sy_pid_fn = \<lambda>fn pid s d w. (w, []), sy_waitpid = \<lambda>pid w. (None, w),
     sy_select = \<lambda>sel tv w. (1, sel, w), sy_watch_functions = \<lambda>c b w. (w, []),
     sy_timeout_functions = \<lambda>c b w. (w, [])\<rparr>"

definition waiting_in :: "nat option \<Rightarrow> queue_state \<Rightarrow> nat" where
  "waiting_in c w = fst (snd w c)"

definition waiting_out :: "nat option \<Rightarrow> queue_state \<Rightarrow> nat" where
  "waiting_out c w = snd (snd w c)"

definition put_in :: "nat option \<Rightarrow> nat \<Rightarrow> queue_state \<Rightarrow> queue_state" where
  "put_in c k w = (fst w, (snd w)(c := (k, waiting_out c w)))"

definition put_out :: "nat option \<Rightarrow> nat \<Rightarrow> queue_state \<Rightarrow> queue_state" where
  "put_out c k w = (fst w, (snd w)(c := (waiting_in c w, k)))"

definition let_in :: "nat option \<Rightarrow> queue_state \<Rightarrow> queue_state" where
  "let_in c w = (fst w - 1, snd (put_in c (waiting_in c w + min 1 (fst w)) w))"

lemmas queue_defs = waiting_in_def waiting_out_def put_in_def put_out_def let_in_def

definition queue_connections :: "queue_state connections" where
  "queue_connections = \<lparr>co_data_remains = \<lambda>c w. waiting_in c w > 0,
     co_receive = \<lambda>c w. (if waiting_in c w > 0 then Some one_arg_call else None, put_in c (waiting_in c w - 1) w),
     co_react = \<lambda>c d r w. ((put_out c (waiting_out c w + 1) w, []), []),
     co_has_messages = \<lambda>c w. waiting_out c w > 0, co_flush = \<lambda>c w. (let_in c (put_out c 0 w), [])\<rparr>"

lemma queue_connections_queues: "queues queue_world queue_connections waiting_in waiting_out fst"
  by (auto simp: queues_def queue_world_def queue_connections_def moves_on_def queue_defs)

definition one_waiting :: "queue_state mainloop" where
  "one_waiting = empty_loop (1, \<lambda>c. (1, 0))"

lemma one_waiting_iterates: "mainloop_iterate (\<lambda>_. True) queue_world one_waiting = Inr (1, one_waiting)"
  by (simp add: mainloop_iterate_def prepare_def one_waiting_def empty_loop_def queue_world_def Let_def handle_def first_def)

lemma sample_service_at: "service_at (sample_registry [sample_service 3 ''a'']) (ctx_array (sample_registry ss), 0)
    = Inr (sample_service 3 ''a'')"
  by (simp add: service_at_def sample_registry_def table_of_def arr_get_def)

lemma sample_service_conn: "srv_conn (sample_service 3 ''a'') = Some 3" by (simp add: sample_service_def)

lemma one_waiting_drained:
  "\<exists>st'. oddjob_dbus_main_iterate (\<lambda>_. True) sample_env queue_world queue_connections
      (sample_registry [sample_service 3 ''a'']) (sample_bus [3]) h one_waiting
    = Inr (1, mainloop_reset_signal_handlers h, sample_registry [sample_service 3 ''a''], sample_bus [3], st')"
proof -
  let ?ctx = "sample_registry [sample_service 3 ''a'']" and ?c = "Some (3 :: nat)"
  let ?srv = "(ctx_array ?ctx, 0 :: nat)" and ?w = "ml_world one_waiting"
  define w1 where "w1 = put_out ?c 1 (put_in ?c 0 ?w)"
  have w: "waiting_in ?c ?w = 1" "waiting_out ?c (put_in ?c 0 ?w) = 0" by (simp_all add: queue_defs one_waiting_def empty_loop_def)
  have w1: "waiting_in ?c w1 = 0" "waiting_out ?c w1 = 1" by (simp_all add: w1_def queue_defs)
  let ?st1 = "one_waiting\<lparr>ml_world := w1\<rparr>" and ?st2 = "one_waiting\<lparr>ml_world := let_in ?c (put_out ?c 0 w1)\<rparr>"
  have w2: "waiting_out ?c (ml_world ?st2) = 0" by (simp add: queue_defs)
  note q = queue_connections_def called_back_def run_ops_def
  have one: "dispatch_one (\<lambda>_. True) sample_env queue_world queue_connections ?srv (?ctx, sample_bus [3], one_waiting)
      = Inr (?ctx, sample_bus [3], ?st1)"
    using w by (simp add: sample_service_at sample_service_conn sample_call_dispatched q w1_def Let_def)
  have remain: "data_remain queue_connections ?srv (Inr (?ctx, sample_bus [3], one_waiting))"
    "\<not> data_remain queue_connections ?srv (Inr (?ctx, sample_bus [3], ?st1))"
    using w w1 by (simp_all add: sample_service_at sample_service_conn q)
  have "dispatch_all (\<lambda>_. True) sample_env queue_world queue_connections ?srv (?ctx, sample_bus [3], one_waiting)
      = Some (Inr (?ctx, sample_bus [3], ?st1))"
    unfolding dispatch_all_def using remain one
    by (subst while_option_unfold, simp only: if_True res_bind_Inr) (subst while_option_unfold, simp only: if_False)
  moreover have "flush_all (\<lambda>_. True) queue_world queue_connections ?c ?st1 = Some ?st2"
    unfolding flush_all_def using w1 w2
    by (subst while_option_unfold, simp add: q) (subst while_option_unfold, simp add: q)
  moreover have "used (ctx_services ?ctx) = Suc 0" by (simp add: sample_registry_def table_of_def)
  ultimately show ?thesis
    by (simp add: oddjob_dbus_main_iterate_def one_waiting_iterates or_diverges_def sample_service_at sample_service_conn
        del: not_None_eq)
qed


theorem handler_adding_service_faults_witness:
  "drain_services (\<lambda>_. True) sample_env queue_world
      (queue_connections\<lparr>co_react := \<lambda>c d r w. ((w, []), [Reg_add ''b'' ''/o'' ''i'' ''m'' 1 (Some 64) None])\<rparr>) 0 (Suc 0)
      (sample_registry [sample_service 3 ''a''], sample_bus [3], one_waiting)
    = Inl Use_after_free"
proof -
  let ?ctx = "sample_registry [sample_service 3 ''a'']" and ?op = "Reg_add ''b'' ''/o'' ''i'' ''m'' 1 (Some 64) None"
  let ?co = "queue_connections\<lparr>co_react := \<lambda>c d r w. ((w, []), [?op])\<rparr>"
  have e: "0 < used (ctx_services ?ctx)" "srv_conn (entries (ctx_services ?ctx) ! 0) = Some 3"
    by (simp_all add: sample_registry_def table_of_def entries_def sample_service_conn)
  have c: "co_data_remains ?co (Some 3) (ml_world one_waiting)"
    "co_receive ?co (Some 3) (ml_world one_waiting) = (Some one_arg_call, put_in (Some 3) 0 (ml_world one_waiting))"
    by (simp_all add: queue_connections_def one_waiting_def empty_loop_def waiting_in_def)
  have nf: "nul_free ''b''" "nul_free ''/o''" "nul_free ''i''" "nul_free ''m''"
    by (simp_all add: nul_free_def NUL_def)
  have new: "lookup srv_name (ctx_services ?ctx) ''b'' = None" "reached (sample_bus [3]) \<noteq> None"
    by (simp_all add: sample_registry_def lookup_def sample_service_def sample_bus_def reached_def)
  obtain ok ctx2 bus2 where add: "oddjob_dbus_listeners_add_method (\<lambda>_. True) ?ctx ''b'' ''/o'' ''i'' ''m'' 1 (Some 64) None
      (sample_bus [3]) = Inr (ok, ctx2, bus2)"
    using add_method_ok [OF _ sample_registry_ok(2) _ nf sample_balanced(2), of "\<lambda>_. True" 1 "Some 64" None] new(2)
    by (cases "oddjob_dbus_listeners_add_method (\<lambda>_. True) ?ctx ''b'' ''/o'' ''i'' ''m'' 1 (Some 64) None (sample_bus [3])") auto
  then have steps: "reg_steps (\<lambda>_. True) ([] @ ?op # []) ?ctx (sample_bus [3]) = Inr (ctx2, bus2)"
    by simp
  show ?thesis
    by (rule handler_adding_service_faults [OF sample_registry_ok(2) e c sample_call_dispatched _ _ sample_registry_ok(2) new(1) steps]) simp_all
qed

end
