(* ===== verification/Service.thy ===== *)
theory Service
  imports Iterate "HOL-Library.Sublist"
begin

text \<open>
  The service of src/oddjob_dbus.c as a whole: which messages \<open>oddjob_dbus_main_iterate\<close> brings to
  \<open>oddjob_dbus_filter\<close>, in which order, and what the filter decides for each of them. libdbus and the
  handlers are parameters; what is used of them is stated by \<open>delivers\<close> and \<open>queues\<close>.
\<close>

section \<open>Messages in order\<close>

text \<open>Messages only come in behind those that wait already.\<close>

definition only_later :: "(nat option \<Rightarrow> 'w \<Rightarrow> dbus_msg list) \<Rightarrow> 'w \<Rightarrow> 'w \<Rightarrow> bool" where
  "only_later inbox w w' \<longleftrightarrow> (\<forall>c. prefix (inbox c w) (inbox c w'))"

text \<open>
  \<open>inbox\<close> are the messages that wait at a connection, \<open>handled\<close> a record of the reactions to the
  messages taken so far. A dispatch takes the first message that waits and leaves the record alone; what
  becomes of the filter's reaction is entered in the record; a flush and the clock leave both alone, but
  for messages that come in meanwhile.
\<close>

definition delivers ::
  "'w system \<Rightarrow> 'w connections \<Rightarrow> (nat option \<Rightarrow> 'w \<Rightarrow> dbus_msg list)
     \<Rightarrow> ('w \<Rightarrow> (nat option \<times> dbus_msg \<times> reaction) list) \<Rightarrow> bool"
where
  "delivers sys co inbox handled \<longleftrightarrow> (\<forall>c w.
     inbox c (snd (sy_gettimeofday sys w)) = inbox c w \<and> handled (snd (sy_gettimeofday sys w)) = handled w
     \<and> (\<forall>d ds. inbox c w = d # ds \<longrightarrow> fst (co_receive co c w) = Some d
          \<and> handled (snd (co_receive co c w)) = handled w \<and> prefix ds (inbox c (snd (co_receive co c w)))
          \<and> (\<forall>e. e \<noteq> c \<longrightarrow> prefix (inbox e w) (inbox e (snd (co_receive co c w)))))
     \<and> (\<forall>d r. handled (fst (fst (co_react co c d r w))) = handled w @ [(c, d, r)]
          \<and> only_later inbox w (fst (fst (co_react co c d r w))))
     \<and> handled (fst (co_flush co c w)) = handled w \<and> only_later inbox w (fst (co_flush co c w)))"

text \<open>Handlers that leave the registry alone.\<close>

definition steady :: "'w connections \<Rightarrow> bool" where
  "steady co \<longleftrightarrow> (\<forall>c d r w. snd (co_react co c d r w) = [])"

lemma delivers_back:
  assumes "delivers sys co inbox handled"
  shows "inbox c (ml_world (called_back mem sys r st)) = inbox c (fst r)"
    "handled (ml_world (called_back mem sys r st)) = handled (fst r)"
  using assms by (auto simp: delivers_def intro!: called_back_world)

lemma prefix_behind: "prefix xs (done @ d # ds) \<Longrightarrow> prefix ds es \<Longrightarrow> prefix xs ((done @ [d]) @ es)"
  by (metis append.assoc append_Cons append_Nil prefix_order.order_trans same_prefix_prefix)

section \<open>One connection\<close>

text \<open>What is taken at one connection: its messages in order, and those that come in behind them.\<close>

definition reactions :: "nat option \<Rightarrow> (dbus_msg \<Rightarrow> reaction) \<Rightarrow> dbus_msg list \<Rightarrow> (nat option \<times> dbus_msg \<times> reaction) list" where
  "reactions c A ms = map (\<lambda>d. (c, d, A d)) ms"

lemma dispatch_all_takes:
  fixes sys :: "'w system"
  assumes "queues sys co (\<lambda>c w. length (inbox c w)) outgoing arriving" "delivers sys co inbox handled" "steady co"
    and "service_at ctx srv = Inr s" "srv_conn s = Some conn"
    and "\<forall>w. \<forall>d \<in> set (inbox (Some conn) w). oddjob_dbus_filter mem env ctx conn d = Inr (A d)"
  shows "\<exists>st' ms. dispatch_all mem env sys co srv (ctx, bus, st) = Some (Inr (ctx, bus, st'))
    \<and> prefix (inbox (Some conn) (ml_world st)) ms
    \<and> handled (ml_world st') = handled (ml_world st) @ reactions (Some conn) A ms
    \<and> (\<forall>e. e \<noteq> Some conn \<longrightarrow> prefix (inbox e (ml_world st)) (inbox e (ml_world st')))"
proof -
  let ?c = "Some conn"
  define ahead where "ahead = (\<lambda>(st' :: 'w mainloop) ms. prefix (inbox ?c (ml_world st)) (ms @ inbox ?c (ml_world st'))
    \<and> handled (ml_world st') = handled (ml_world st) @ reactions ?c A ms
    \<and> (\<forall>e. e \<noteq> ?c \<longrightarrow> prefix (inbox e (ml_world st)) (inbox e (ml_world st'))))"
  let ?P = "\<lambda>r. \<exists>st' ms. r = Inr (ctx, bus, st') \<and> ahead st' ms"
  let ?f = "\<lambda>r. case r of Inl e \<Rightarrow> 0 | Inr (_, _, st') \<Rightarrow> length (inbox ?c (ml_world st')) + arriving (ml_world st')"
  have step: "?P (res_bind r (dispatch_one mem env sys co srv)) \<and> ?f (res_bind r (dispatch_one mem env sys co srv)) < ?f r"
    if P: "?P r" and b: "data_remain co srv r" for r :: "'w drain_state res"
  proof -
    obtain st1 ms where r: "r = Inr (ctx, bus, st1)" and ms: "ahead st1 ms" using P by blast
    let ?w = "ml_world st1"
    have "length (inbox ?c ?w) > 0" using b r assms(1,4,5) by (simp add: queues_def)
    then obtain d ds where d: "inbox ?c ?w = d # ds" by (cases "inbox ?c ?w") auto
    define w1 where "w1 = snd (co_receive co ?c ?w)"
    obtain called where called: "co_react co ?c d (A d) w1 = (called, [])"
      using assms(3) unfolding steady_def by (metis surjective_pairing)
    have w1: "co_receive co ?c ?w = (Some d, w1)" "handled w1 = handled ?w" "prefix ds (inbox ?c w1)"
      "\<And>e. e \<noteq> ?c \<Longrightarrow> prefix (inbox e ?w) (inbox e w1)"
      using assms(2) d unfolding delivers_def w1_def by (metis surjective_pairing)+
    have w2: "handled (fst called) = handled w1 @ [(?c, d, A d)]" "only_later inbox w1 (fst called)"
      using assms(2) called unfolding delivers_def by (metis fst_conv)+
    have "oddjob_dbus_filter mem env ctx conn d = Inr (A d)" using assms(6) d by (metis list.set_intros(1))
    then have one: "res_bind r (dispatch_one mem env sys co srv) = Inr (ctx, bus, called_back mem sys called st1)"
      using r assms(4,5) w1(1) called by (simp add: Let_def)
    have "prefix ds (inbox ?c (fst called))"
      using w1(3) w2(2) unfolding only_later_def by (metis prefix_order.order_trans)
    then have "prefix (inbox ?c (ml_world st)) ((ms @ [d]) @ inbox ?c (fst called))"
      using ms d unfolding ahead_def by (intro prefix_behind) simp_all
    moreover have "prefix (inbox e (ml_world st)) (inbox e (fst called))" if "e \<noteq> ?c" for e
      using that ms w1(4) [OF that] w2(2) unfolding ahead_def only_later_def by (metis prefix_order.order_trans)
    moreover have "handled (fst called) = handled (ml_world st) @ reactions ?c A (ms @ [d])"
      using ms w1(2) w2(1) by (simp add: ahead_def reactions_def)
    ultimately have "ahead (called_back mem sys called st1) (ms @ [d])"
      by (simp add: ahead_def delivers_back [OF assms(2)])
    moreover have "length (inbox ?c w1) + arriving w1 < length (inbox ?c ?w) + arriving ?w"
      using assms(1) d w1(1) unfolding queues_def w1_def by (metis length_greater_0_conv list.distinct(1))
    moreover have "length (inbox ?c (fst called)) + arriving (fst called) \<le> length (inbox ?c w1) + arriving w1"
      using assms(1) called unfolding queues_def moves_on_def by (metis fst_conv)
    ultimately show ?thesis
      unfolding one using r by (auto simp: queues_back(3) [OF assms(1)] delivers_back [OF assms(2)])
  qed
  have start: "?P (Inr (ctx, bus, st))" by (auto simp: ahead_def reactions_def intro: exI [of _ "[]"])
  obtain r where r: "dispatch_all mem env sys co srv (ctx, bus, st) = Some r" "?P r" "\<not> data_remain co srv r"
    using while_empties [where P = ?P and b = "data_remain co srv" and f = ?f, OF step start]
    unfolding dispatch_all_def by blast
  then obtain st' ms where st': "r = Inr (ctx, bus, st')" "ahead st' ms" by blast
  then have "inbox ?c (ml_world st') = []" using r(3) assms(1,4,5) by (simp add: queues_def)
  then show ?thesis using r(1) st' by (auto simp: ahead_def)
qed

lemma flush_all_handles_nothing:
  fixes sys :: "'w system"
  assumes "queues sys co incoming outgoing arriving" "delivers sys co inbox handled"
  shows "\<exists>st'. flush_all mem sys co c st = Some st' \<and> handled (ml_world st') = handled (ml_world st)
    \<and> only_later inbox (ml_world st) (ml_world st')"
proof -
  let ?flush = "\<lambda>st. called_back mem sys (co_flush co c (ml_world st)) st"
  obtain st' where st': "while_option (\<lambda>st. co_has_messages co c (ml_world st)) ?flush st = Some st'"
    using flush_all_empties [OF assms(1), of mem c st] unfolding flush_all_def by blast
  have "handled (ml_world st') = handled (ml_world st) \<and> only_later inbox (ml_world st) (ml_world st')"
  proof (rule while_option_rule [OF _ st'])
    fix s :: "'w mainloop"
    assume s: "handled (ml_world s) = handled (ml_world st) \<and> only_later inbox (ml_world st) (ml_world s)"
    have "handled (fst (co_flush co c (ml_world s))) = handled (ml_world s)"
      "only_later inbox (ml_world s) (fst (co_flush co c (ml_world s)))"
      using assms(2) unfolding delivers_def by blast+
    with s show "handled (ml_world (?flush s)) = handled (ml_world st) \<and> only_later inbox (ml_world st) (ml_world (?flush s))"
      unfolding only_later_def delivers_back [OF assms(2)] by (metis prefix_order.order_trans)
  qed (simp add: only_later_def)
  with st' show ?thesis by (simp add: flush_all_def)
qed

section \<open>All connections\<close>

lemma drain_services_handles:
  assumes "queues sys co (\<lambda>c w. length (inbox c w)) outgoing arriving" "delivers sys co inbox handled" "steady co"
    and "\<forall>c \<in> S. \<forall>w. \<forall>d \<in> set (inbox c w). oddjob_dbus_filter mem env ctx (the c) d = Inr (A c d)"
  shows "\<lbrakk>set (take n (drop i (conns ctx))) \<subseteq> S; i + n \<le> length (conns ctx); distinct (take n (drop i (conns ctx))); None \<notin> set (take n (drop i (conns ctx)))\<rbrakk> \<Longrightarrow>
    \<exists>st' M. drain_services mem env sys co i n (ctx, bus, st) = Inr (ctx, bus, st')
    \<and> (\<forall>c \<in> set (take n (drop i (conns ctx))). prefix (inbox c (ml_world st)) (M c))
    \<and> handled (ml_world st') = handled (ml_world st)
         @ concat (map (\<lambda>c. reactions c (A c) (M c)) (take n (drop i (conns ctx))))"
proof (induction n arbitrary: i st)
  case 0
  then show ?case by simp
next
  case (Suc n)
  let ?c = "conns ctx ! i" and ?cs = "take n (drop (Suc i) (conns ctx))"
  have cs: "take (Suc n) (drop i (conns ctx)) = ?c # ?cs"
    using Suc.prems(2) by (simp flip: Cons_nth_drop_Suc)
  obtain conn where c: "?c = Some conn" using Suc.prems(4) cs by (cases ?c) auto
  obtain s where s: "service_at ctx (ctx_array ctx, i) = Inr s" "srv_conn s = Some conn"
    using service_at_conns [of i ctx] Suc.prems(2) c by auto
  have "Some conn \<in> S" using c cs Suc.prems(1) by simp
  then have filt: "\<forall>w. \<forall>d \<in> set (inbox (Some conn) w). oddjob_dbus_filter mem env ctx conn d = Inr (A (Some conn) d)"
    using assms(4) by (metis option.sel)
  obtain st1 ms where 1: "dispatch_all mem env sys co (ctx_array ctx, i) (ctx, bus, st) = Some (Inr (ctx, bus, st1))"
    "prefix (inbox (Some conn) (ml_world st)) ms"
    "handled (ml_world st1) = handled (ml_world st) @ reactions (Some conn) (A (Some conn)) ms"
    "\<forall>e. e \<noteq> Some conn \<longrightarrow> prefix (inbox e (ml_world st)) (inbox e (ml_world st1))"
    using dispatch_all_takes [where bus = bus and st = st, OF assms(1-3) s filt] by blast
  obtain st2 where 2: "flush_all mem sys co (Some conn) st1 = Some st2" "handled (ml_world st2) = handled (ml_world st1)"
    "only_later inbox (ml_world st1) (ml_world st2)"
    using flush_all_handles_nothing [OF assms(1,2), of mem "Some conn" st1] by blast
  have step: "drain_services mem env sys co i (Suc n) (ctx, bus, st) = drain_services mem env sys co (Suc i) n (ctx, bus, st2)"
    using 1(1) 2(1) s by (simp add: or_diverges_def)
  obtain st' M where 3: "drain_services mem env sys co (Suc i) n (ctx, bus, st2) = Inr (ctx, bus, st')"
    "\<forall>c \<in> set ?cs. prefix (inbox c (ml_world st2)) (M c)"
    "handled (ml_world st') = handled (ml_world st2) @ concat (map (\<lambda>c. reactions c (A c) (M c)) ?cs)"
    using Suc.IH [of "Suc i" st2] Suc.prems cs by auto
  have out: "Some conn \<notin> set ?cs" using Suc.prems(3) cs c by simp
  have "prefix (inbox e (ml_world st)) (M e)" if "e \<in> set ?cs" for e
  proof -
    have "e \<noteq> Some conn" using that out by blast
    then show ?thesis
      using that 1(4) 2(3) 3(2) unfolding only_later_def by (metis prefix_order.order_trans)
  qed
  then have "\<forall>e \<in> set (take (Suc n) (drop i (conns ctx))). prefix (inbox e (ml_world st)) ((M(Some conn := ms)) e)"
    using 1(2) out unfolding cs c by auto
  moreover have same: "map (\<lambda>e. reactions e (A e) ((M(Some conn := ms)) e)) ?cs = map (\<lambda>e. reactions e (A e) (M e)) ?cs"
    using out by (intro map_cong) auto
  have "handled (ml_world st') = handled (ml_world st)
      @ concat (map (\<lambda>e. reactions e (A e) ((M(Some conn := ms)) e)) (take (Suc n) (drop i (conns ctx))))"
    unfolding cs c list.map(2) same using 1(3) 2(2) 3(3) by simp
  ultimately show ?case unfolding step using 3(1) by blast
qed

text \<open>What the specification of the filter says for a message to a service.\<close>

definition answer :: "env \<Rightarrow> registry \<Rightarrow> service \<Rightarrow> dbus_msg \<Rightarrow> reaction" where
  "answer env ctx srv d =
     (if callable ctx d
      then spec_dispatch env (the (srv_conn srv)) (strings_of (dm_args d)) (the (dm_sender d)) srv (the (dm_path d))
        (dm_interface d) (the (dm_member d))
      else Not_yet_handled)"

lemma served_by_own:
  assumes "distinct (map srv_conn (entries (ctx_services ctx)))" "srv \<in> set (entries (ctx_services ctx))"
    "srv_conn srv = Some conn"
  shows "served_by ctx conn = Some srv"
proof -
  have "List.find (\<lambda>s. srv_conn s = Some conn) xs = Some srv"
    if "distinct (map srv_conn xs)" "srv \<in> set xs" for xs
    using that assms(3) by (induction xs) (auto simp: image_iff)
  then show ?thesis using assms(1,2) by (simp add: served_by_def)
qed

text \<open>
  C17. If libdbus delivers the messages of each connection in order, each with a sender, and
  lets finitely many more come in during the iteration, if every service has a connection of
  its own and the handlers do nothing to the registry, then one iteration of the service takes,
  connection by connection, the messages that wait there and those that came in behind them, in
  order, and there is exactly one reaction for each of them: what the specification of the
  filter says for the service of that connection; the registry is unchanged.
\<close>

theorem service_answers_waiting:
  assumes "\<forall>n. mem n" "registry_ok N ctx" "mainloop_iterate mem sys st = Inr (ret, st1)"
    and "distinct (map srv_conn (entries (ctx_services ctx)))" "None \<notin> set (map srv_conn (entries (ctx_services ctx)))"
    and "queues sys co (\<lambda>c w. length (inbox c w)) outgoing arriving" "delivers sys co inbox handled" "steady co"
    and "\<forall>c w. \<forall>d \<in> set (inbox c w). good_args d \<and> dm_sender d \<noteq> None
           \<and> context_fits (env_acl env) (ctx_selinux ctx) (dm_sender d)"
  shows "\<exists>st' taken. oddjob_dbus_main_iterate mem env sys co ctx bus handlers st
      = Inr (ret, mainloop_reset_signal_handlers handlers, ctx, bus, st')
    \<and> (\<forall>srv \<in> set (entries (ctx_services ctx)). prefix (inbox (srv_conn srv) (ml_world st1)) (taken srv))
    \<and> handled (ml_world st') = handled (ml_world st1)
        @ concat (map (\<lambda>srv. map (\<lambda>d. (srv_conn srv, d, answer env ctx srv d)) (taken srv)) (entries (ctx_services ctx)))"
proof -
  let ?t = "ctx_services ctx"
  let ?cs = "map srv_conn (entries ?t)"
  define A where "A = (\<lambda>c d. answer env ctx (the (served_by ctx (the c))) d)"
  have cs: "0 + used ?t \<le> length (conns ctx)" "take (used ?t) (drop 0 (conns ctx)) = ?cs"
    using assms(2) by (simp_all add: registry_ok_def table_wf_def conns_def entries_def take_map)
  have own: "\<exists>conn. srv_conn srv = Some conn \<and> served_by ctx conn = Some srv" if "srv \<in> set (entries ?t)" for srv
    using that assms(5) served_by_own [OF assms(4) that] by (cases "srv_conn srv") force+
  have filt: "\<forall>c \<in> set ?cs. \<forall>w. \<forall>d \<in> set (inbox c w). oddjob_dbus_filter mem env ctx (the c) d = Inr (A c d)"
  proof (intro ballI allI)
    fix c w d
    assume m: "c \<in> set ?cs" "d \<in> set (inbox c w)"
    from m(1) obtain srv where "srv \<in> set (entries ?t)" "c = srv_conn srv" by (metis (no_types, lifting) imageE list.set_map)
    then obtain conn where c: "c = Some conn" "served_by ctx conn = Some srv" "srv_conn srv = Some conn" using own by metis
    obtain sender where "good_args d" "dm_sender d = Some sender" "context_fits (env_acl env) (ctx_selinux ctx) (dm_sender d)"
      using assms(9) m(2) by blast
    then show "oddjob_dbus_filter mem env ctx (the c) d = Inr (A c d)"
      using filter_spec [OF assms(1,2) _ _ c(2)] c by (simp add: A_def answer_def)
  qed
  note drained = drain_services_handles [where i = 0 and n = "used ?t" and bus = bus and st = st1 and A = A,
      OF assms(6-8) filt _ cs(1), unfolded cs(2), OF subset_refl assms(4,5)]
  obtain st' M where r: "drain_services mem env sys co 0 (used ?t) (ctx, bus, st1) = Inr (ctx, bus, st')"
    "\<forall>c \<in> set ?cs. prefix (inbox c (ml_world st1)) (M c)"
    "handled (ml_world st') = handled (ml_world st1) @ concat (map (\<lambda>c. reactions c (A c) (M c)) ?cs)"
    using drained by blast
  have each: "map (\<lambda>c. reactions c (A c) (M c)) ?cs
      = map (\<lambda>srv. map (\<lambda>d. (srv_conn srv, d, answer env ctx srv d)) (M (srv_conn srv))) (entries ?t)"
    using own by (fastforce simp: reactions_def A_def)
  have "oddjob_dbus_main_iterate mem env sys co ctx bus handlers st
      = Inr (ret, mainloop_reset_signal_handlers handlers, ctx, bus, st')"
    using r(1) assms(3) by (simp add: oddjob_dbus_main_iterate_def)
  moreover have "\<forall>srv \<in> set (entries ?t). prefix (inbox (srv_conn srv) (ml_world st1)) (M (srv_conn srv))"
    using r(2) by simp
  ultimately show ?thesis
    using r(3) [unfolded each] by (intro exI [of _ st'] exI [of _ "\<lambda>srv. M (srv_conn srv)"] conjI)
qed

text \<open>
  Two calls wait at a service, one it offers and one it does not. The world is how many messages have been
  taken at each connection and how many replies wait there, and the record.
\<close>

definition strange_call :: dbus_msg where
  "strange_call = one_arg_call\<lparr>dm_member := Some ''x''\<rparr>"

record served =
  sv_taken :: "nat option \<Rightarrow> nat"
  sv_out :: "nat option \<Rightarrow> nat"
  sv_handled :: "(nat option \<times> dbus_msg \<times> reaction) list"

definition sv_inbox :: "nat option \<Rightarrow> served \<Rightarrow> dbus_msg list" where
  "sv_inbox c w = drop (sv_taken w c) (if c = Some 3 then [one_arg_call, strange_call] else [])"

definition sample_connections :: "served connections" where
  "sample_connections = \<lparr>co_data_remains = \<lambda>c w. sv_inbox c w \<noteq> [],
     co_receive = \<lambda>c w. (if sv_inbox c w = [] then None else Some (hd (sv_inbox c w)),
                        w\<lparr>sv_taken := (sv_taken w)(c := sv_taken w c + 1)\<rparr>),
     co_react = \<lambda>c d r w. ((w\<lparr>sv_out := (sv_out w)(c := sv_out w c + 1), sv_handled := sv_handled w @ [(c, d, r)]\<rparr>, []), []),
     co_has_messages = \<lambda>c w. sv_out w c > 0, co_flush = \<lambda>c w. (w\<lparr>sv_out := (sv_out w)(c := 0)\<rparr>, [])\<rparr>"

definition quiet_system :: "served system" where
  "quiet_system = \<lparr>sy_gettimeofday = \<lambda>w. (Some (100, 0), w), sy_watch_enabled = \<lambda>w d. True,
     sy_watch_fd = \<lambda>w d. int d, sy_watch_flags = \<lambda>w d. 3, sy_timeout_enabled = \<lambda>w t. True,
     sy_timeout_interval = \<lambda>w t. 1000 * int t, sy_watch_handle = \<lambda>d f w. (w, []),
     sy_timeout_handle = \<lambda>t w. (w, []), sy_watch_fn = \<lambda>fn fd f d w. (True, w, []),
     sy_pid_fn = \<lambda>fn pid s d w. (w, []), sy_waitpid = \<lambda>pid w. (None, w),
     sy_select = \<lambda>sel tv w. (1, sel, w), sy_watch_functions = \<lambda>c b w. (w, []),
     sy_timeout_functions = \<lambda>c b w. (w, [])\<rparr>"

lemma sample_connections_laws:
  "queues quiet_system sample_connections (\<lambda>c w. length (sv_inbox c w)) (\<lambda>c w. sv_out w c) (\<lambda>_. 0)"
  "delivers quiet_system sample_connections sv_inbox sv_handled" "steady sample_connections"
proof -
  have rest: "drop (Suc k) xs = ds" if "drop k xs = d # ds" for k and xs ds :: "dbus_msg list" and d
    using that by (metis drop_Suc drop_tl list.sel(3))
  show "queues quiet_system sample_connections (\<lambda>c w. length (sv_inbox c w)) (\<lambda>c w. sv_out w c) (\<lambda>_. 0)"
    by (auto simp: queues_def quiet_system_def sample_connections_def moves_on_def sv_inbox_def)
  show "delivers quiet_system sample_connections sv_inbox sv_handled"
    by (auto simp: delivers_def quiet_system_def sample_connections_def only_later_def sv_inbox_def dest!: rest)
  show "steady sample_connections" by (simp add: steady_def sample_connections_def)
qed

lemma sample_messages_good:
  assumes "d \<in> set (sv_inbox c w)"
  shows "good_args d \<and> dm_sender d \<noteq> None \<and> context_fits (env_acl sample_env) False (dm_sender d)"
proof -
  have "d \<in> {one_arg_call, strange_call}"
    using assms set_drop_subset [of "sv_taken w c" "[one_arg_call, strange_call]"] by (auto simp: sv_inbox_def split: if_splits)
  moreover have "good_args one_arg_call" "dm_sender one_arg_call = Some '':1.7''" by simp_all
  moreover from this have "good_args strange_call" "dm_sender strange_call = Some '':1.7''"
    by (simp_all add: strange_call_def good_args_def)
  ultimately show ?thesis by auto
qed

definition waiting :: served where
  "waiting = \<lparr>sv_taken = \<lambda>_. 0, sv_out = \<lambda>_. 0, sv_handled = []\<rparr>"

theorem service_answers_waiting_witness:
  "\<exists>st' later. oddjob_dbus_main_iterate (\<lambda>_. True) sample_env quiet_system sample_connections
      (sample_registry [sample_service 3 ''a'']) (sample_bus [3]) (\<lambda>_. SIG_DFL) (empty_loop waiting)
    = Inr (1, mainloop_reset_signal_handlers (\<lambda>_. SIG_DFL), sample_registry [sample_service 3 ''a''], sample_bus [3], st')
    \<and> sv_handled (ml_world st') = [(Some 3, one_arg_call, Called sample_result),
        (Some 3, strange_call, Replied No_method ''x'')] @ later"
proof -
  let ?ctx = "sample_registry [sample_service 3 ''a'']" and ?st = "empty_loop waiting"
  have run: "mainloop_iterate (\<lambda>_. True) quiet_system ?st = Inr (1, ?st)"
    by (simp add: mainloop_iterate_def prepare_def empty_loop_def quiet_system_def Let_def handle_def first_def)
  have e: "entries (ctx_services ?ctx) = [sample_service 3 ''a'']" "srv_conn (sample_service 3 ''a'') = Some 3"
    by (simp_all add: sample_service_def)
  have w: "sv_inbox (Some 3) (ml_world ?st) = [one_arg_call, strange_call]" "sv_handled (ml_world ?st) = []"
    by (simp_all add: empty_loop_def waiting_def sv_inbox_def)
  have strange: "good_args strange_call" "dm_sender strange_call = Some '':1.7''" "callable ?ctx strange_call"
    "strings_of (dm_args strange_call) = [''x'']" "dm_path strange_call = Some ''/o''"
    "dm_member strange_call = Some ''x''" "dm_interface strange_call = Some ''i''"
    using one_arg_call_simps
    by (simp_all add: strange_call_def good_args_def callable_def is_disconnect_def is_signal_def)
  have "spec_dispatch sample_env 3 [''x''] '':1.7'' (sample_service 3 ''a'') ''/o'' (Some ''i'') ''x'' = Replied No_method ''x''"
    by (simp add: spec_dispatch_def sample_service_def sample_env_def lookup_def)
  then have a: "answer sample_env ?ctx (sample_service 3 ''a'') one_arg_call = Called sample_result"
    "answer sample_env ?ctx (sample_service 3 ''a'') strange_call = Replied No_method ''x''"
    using strange by (simp_all add: answer_def e spec_dispatch_sample)
  have d: "distinct (map srv_conn (entries (ctx_services ?ctx)))" "None \<notin> set (map srv_conn (entries (ctx_services ?ctx)))"
    by (simp_all add: e)
  have good: "\<forall>c w. \<forall>d \<in> set (sv_inbox c w). good_args d \<and> dm_sender d \<noteq> None \<and> context_fits (env_acl sample_env) (ctx_selinux ?ctx) (dm_sender d)"
    using sample_messages_good by simp
  obtain st' taken where r: "oddjob_dbus_main_iterate (\<lambda>_. True) sample_env quiet_system sample_connections
      ?ctx (sample_bus [3]) (\<lambda>_. SIG_DFL) ?st
    = Inr (1, mainloop_reset_signal_handlers (\<lambda>_. SIG_DFL), ?ctx, sample_bus [3], st')"
    "prefix [one_arg_call, strange_call] (taken (sample_service 3 ''a''))"
    "sv_handled (ml_world st')
      = map (\<lambda>d. (Some 3, d, answer sample_env ?ctx (sample_service 3 ''a'') d)) (taken (sample_service 3 ''a''))"
    using service_answers_waiting [where env = sample_env and bus = "sample_bus [3]" and handlers = "\<lambda>_. SIG_DFL",
        OF _ sample_registry_ok(2) run d sample_connections_laws good] unfolding e(1) by (auto simp: e(2) w)
  from r(2) obtain ms where "taken (sample_service 3 ''a'') = [one_arg_call, strange_call] @ ms" by (auto elim: prefixE)
  with r(1,3) a show ?thesis by auto
qed

end
