(* ===== verification/Registry_Loop.thy ===== *)
theory Registry_Loop
  imports Histories Loop_Connect
begin

text \<open>
  The registry of src/oddjob_dbus.c on the main loop of src/mainloop.c: \<open>service_connect\<close> and
  \<open>service_disconnect\<close> call \<open>mainloop_connect\<close> and \<open>mainloop_disconnect\<close>, which the log of the bus
  records as \<open>Attached\<close> and \<open>Detached\<close>. What the loop watches are the connections of the services.
\<close>

section \<open>The calls of a log on a main loop\<close>

fun loop_event :: "avail \<Rightarrow> 'w system \<Rightarrow> bus_event \<Rightarrow> 'w mainloop \<Rightarrow> 'w mainloop" where
  "loop_event mem sys (Attached c) st = mainloop_connect mem sys c st"
| "loop_event mem sys (Detached c) st = mainloop_disconnect mem sys c st"
| "loop_event mem sys _ st = st"

definition loop_after :: "avail \<Rightarrow> 'w system \<Rightarrow> bus_event list \<Rightarrow> 'w mainloop \<Rightarrow> 'w mainloop" where
  "loop_after mem sys lg st = fold (loop_event mem sys) lg st"

text \<open>
  What libdbus has for its connections: watches \<open>W c\<close> and timeouts \<open>T c\<close> of their own, which it hands
  over.
\<close>

definition own_watches :: "'w system \<Rightarrow> (nat \<Rightarrow> nat list) \<Rightarrow> (nat \<Rightarrow> nat list) \<Rightarrow> bool" where
  "own_watches sys W T \<longleftrightarrow> (\<forall>c. hands_over sys c (W c) (T c))
     \<and> (\<forall>c d. c \<noteq> d \<longrightarrow> set (W c) \<inter> set (W d) = {} \<and> set (T c) \<inter> set (T d) = {})"

section \<open>Sets of keys\<close>

text \<open>The keys of a main loop, with those no connection touches.\<close>

definition loop_keys :: "'w mainloop \<Rightarrow> nat set \<times> nat set \<times> int list \<times> int list" where
  "loop_keys st = (set (dbus_keys st), set (timeout_keys st), fd_keys st, pid_keys st)"

definition distinct_keys :: "'w mainloop \<Rightarrow> bool" where
  "distinct_keys st \<longleftrightarrow> distinct (dbus_keys st) \<and> distinct (timeout_keys st)"

lemma enter_watch_keys:
  assumes "\<forall>n. mem n" "distinct_keys st"
  shows "loop_keys (snd (watch_dbus_add mem w st)) = (insert w (set (dbus_keys st)), set (timeout_keys st), fd_keys st, pid_keys st)
    \<and> distinct_keys (snd (watch_dbus_add mem w st))"
  using assms
  by (auto simp: loop_keys_def distinct_keys_def watch_dbus_add_def push_watch_def key_defs on_chain_dbus)

lemma enter_timeout_keys:
  assumes "\<forall>n. mem n" "\<forall>w. fst (sy_gettimeofday sys w) \<noteq> None" "distinct_keys st"
  shows "loop_keys (snd (timeout_dbus_add mem sys t st)) = (set (dbus_keys st), insert t (set (timeout_keys st)), fd_keys st, pid_keys st)
    \<and> distinct_keys (snd (timeout_dbus_add mem sys t st))"
proof -
  obtain tv w where "sy_gettimeofday sys (ml_world st) = (Some tv, w)"
    using assms(2) by (metis not_Some_eq prod.collapse)
  with assms(1,3) show ?thesis
    by (auto simp: loop_keys_def distinct_keys_def timeout_dbus_add_def push_timeout_def key_defs on_chain_def list_ex_iff)
qed

lemma connect_keys:
  assumes "\<forall>n. mem n" "\<forall>w. fst (sy_gettimeofday sys w) \<noteq> None" "distinct_keys st"
  shows "loop_keys (fold (run_op mem sys) (map Op_dbus_watch_add ws) st)
      = (set ws \<union> set (dbus_keys st), set (timeout_keys st), fd_keys st, pid_keys st)
      \<and> distinct_keys (fold (run_op mem sys) (map Op_dbus_watch_add ws) st)"
    "loop_keys (fold (run_op mem sys) (map Op_timeout_add ts) st)
      = (set (dbus_keys st), set ts \<union> set (timeout_keys st), fd_keys st, pid_keys st)
      \<and> distinct_keys (fold (run_op mem sys) (map Op_timeout_add ts) st)"
  using assms(3)
proof (induction ws arbitrary: st and ts)
  case Nil
  { case 1 then show ?case by (simp add: loop_keys_def) }
  { case 2 then show ?case
    proof (induction ts arbitrary: st)
      case (Cons t ts)
      let ?st = "snd (timeout_dbus_add mem sys t st)"
      have "distinct_keys ?st" "loop_keys ?st = (set (dbus_keys st), insert t (set (timeout_keys st)), fd_keys st, pid_keys st)"
        using enter_timeout_keys [OF assms(1,2) Cons.prems] by blast+
      then show ?case using Cons.IH [of ?st] by (simp add: loop_keys_def)
    qed (simp add: loop_keys_def) }
next
  case (Cons w ws)
  { case 1
    let ?st = "snd (watch_dbus_add mem w st)"
    have "distinct_keys ?st" "loop_keys ?st = (insert w (set (dbus_keys st)), set (timeout_keys st), fd_keys st, pid_keys st)"
      using enter_watch_keys [OF assms(1) 1] by blast+
    then show ?case using Cons.IH(1) [of ?st] by (simp add: loop_keys_def) }
  { case 2 then show ?case by (rule Cons.IH(2)) }
qed


lemma remove_keys_simps:
  "dbus_keys (watch_dbus_remove w st) = remove1 w (dbus_keys st)"
  "timeout_keys (watch_dbus_remove w st) = timeout_keys st" "fd_keys (watch_dbus_remove w st) = fd_keys st"
  "pid_keys (watch_dbus_remove w st) = pid_keys st"
  "timeout_keys (timeout_dbus_remove t st) = remove1 t (timeout_keys st)"
  "dbus_keys (timeout_dbus_remove t st) = dbus_keys st" "fd_keys (timeout_dbus_remove t st) = fd_keys st"
  "pid_keys (timeout_dbus_remove t st) = pid_keys st"
  by (simp_all add: dbus_watches.remove_keys timeouts.remove_keys)
    (simp_all add: watch_dbus_remove_def timeout_dbus_remove_def key_defs unlink_dbus [simplified])

lemma disconnect_keys:
  "distinct_keys st \<Longrightarrow> loop_keys (fold (run_op mem sys) (map Op_dbus_watch_remove ws) st)
      = (set (dbus_keys st) - set ws, set (timeout_keys st), fd_keys st, pid_keys st)
      \<and> distinct_keys (fold (run_op mem sys) (map Op_dbus_watch_remove ws) st)"
  "distinct_keys st \<Longrightarrow> loop_keys (fold (run_op mem sys) (map Op_timeout_remove ts) st)
      = (set (dbus_keys st), set (timeout_keys st) - set ts, fd_keys st, pid_keys st)
      \<and> distinct_keys (fold (run_op mem sys) (map Op_timeout_remove ts) st)"
proof -
  show "distinct_keys st \<Longrightarrow> loop_keys (fold (run_op mem sys) (map Op_dbus_watch_remove ws) st)
      = (set (dbus_keys st) - set ws, set (timeout_keys st), fd_keys st, pid_keys st)
      \<and> distinct_keys (fold (run_op mem sys) (map Op_dbus_watch_remove ws) st)"
    by (induction ws arbitrary: st) (auto simp: loop_keys_def distinct_keys_def remove_keys_simps)
  show "distinct_keys st \<Longrightarrow> loop_keys (fold (run_op mem sys) (map Op_timeout_remove ts) st)
      = (set (dbus_keys st), set (timeout_keys st) - set ts, fd_keys st, pid_keys st)
      \<and> distinct_keys (fold (run_op mem sys) (map Op_timeout_remove ts) st)"
    by (induction ts arbitrary: st) (auto simp: loop_keys_def distinct_keys_def remove_keys_simps)
qed

lemma connect_adds:
  assumes "\<forall>n. mem n" "\<forall>w. fst (sy_gettimeofday sys w) \<noteq> None" "hands_over sys c ws ts" "distinct_keys st"
  shows "loop_keys (mainloop_connect mem sys c st)
      = (set ws \<union> set (dbus_keys st), set ts \<union> set (timeout_keys st), fd_keys st, pid_keys st)
    \<and> distinct_keys (mainloop_connect mem sys c st)"
proof -
  have "mainloop_connect mem sys c st
      = fold (run_op mem sys) (map Op_timeout_add ts) (fold (run_op mem sys) (map Op_dbus_watch_add ws) st)"
    using assms(3) by (simp add: mainloop_connect_def called_back_def run_ops_def hands_over_def)
  then show ?thesis
    using connect_keys(1) [OF assms(1,2,4), of ws]
      connect_keys(2) [OF assms(1,2), of "fold (run_op mem sys) (map Op_dbus_watch_add ws) st" ts]
    by (simp add: loop_keys_def)
qed

lemma disconnect_removes:
  assumes "hands_over sys c ws ts" "distinct_keys st"
  shows "loop_keys (mainloop_disconnect mem sys c st)
      = (set (dbus_keys st) - set ws, set (timeout_keys st) - set ts, fd_keys st, pid_keys st)
    \<and> distinct_keys (mainloop_disconnect mem sys c st)"
proof -
  have "mainloop_disconnect mem sys c st
      = fold (run_op mem sys) (map Op_timeout_remove ts) (fold (run_op mem sys) (map Op_dbus_watch_remove ws) st)"
    using assms(1) by (simp add: mainloop_disconnect_def called_back_def run_ops_def hands_over_def)
  then show ?thesis
    using disconnect_keys(1) [OF assms(2), of mem sys ws]
      disconnect_keys(2) [of "fold (run_op mem sys) (map Op_dbus_watch_remove ws) st" mem sys ts]
    by (simp add: loop_keys_def)
qed

section \<open>The loop watches the connections that are attached\<close>

text \<open>The union of what the connections of a set have.\<close>

definition of_all :: "(nat \<Rightarrow> nat list) \<Rightarrow> nat set \<Rightarrow> nat set" where
  "of_all W C = (\<Union>c \<in> C. set (W c))"

lemma of_all_simps [simp]: "of_all W {} = {}" "of_all W (insert c C) = set (W c) \<union> of_all W C"
  by (simp_all add: of_all_def)

lemma of_all_less:
  "(\<And>c d. c \<noteq> d \<Longrightarrow> set (W c) \<inter> set (W d) = {}) \<Longrightarrow> of_all W C - set (W c) = of_all W (C - {c})"
  unfolding of_all_def by blast

lemma loop_after_log:
  assumes "\<forall>n. mem n" "\<forall>w. fst (sy_gettimeofday sys w) \<noteq> None" "own_watches sys W T"
    and "dbus_keys st = []" "timeout_keys st = []"
  shows "held attaches detaches lg = Some H \<Longrightarrow> (\<And>c. count (tally attaches lg) c \<le> 1) \<Longrightarrow>
    loop_keys (loop_after mem sys lg st) = (of_all W (set_mset H), of_all T (set_mset H), fd_keys st, pid_keys st)
    \<and> distinct_keys (loop_after mem sys lg st) \<and> H \<subseteq># tally attaches lg"
proof (induction lg arbitrary: H rule: rev_induct)
  case Nil
  then show ?case using assms(4,5) by (auto simp: loop_after_def loop_keys_def distinct_keys_def)
next
  case (snoc e lg)
  obtain G where G: "held attaches detaches lg = Some G"
    using snoc.prems(1) by (cases "held attaches detaches lg") (auto simp: held_append)
  have once: "count (tally attaches lg) c \<le> 1" for c
    using snoc.prems(2) [of c] by (simp add: split: option.splits)
  have IH: "loop_keys (loop_after mem sys lg st) = (of_all W (set_mset G), of_all T (set_mset G), fd_keys st, pid_keys st)"
    "distinct_keys (loop_after mem sys lg st)" "G \<subseteq># tally attaches lg"
    using snoc.IH [OF G once] by blast+
  have own: "hands_over sys c (W c) (T c)" "c \<noteq> d \<Longrightarrow> set (W c) \<inter> set (W d) = {}" "c \<noteq> d \<Longrightarrow> set (T c) \<inter> set (T d) = {}" for c d
    using assms(3) by (auto simp: own_watches_def)
  have after: "loop_after mem sys (lg @ [e]) st = loop_event mem sys e (loop_after mem sys lg st)"
    by (simp add: loop_after_def)
  show ?case
  proof (cases e)
    case (Attached c)
    have "H = add_mset c G" using snoc.prems(1) G Attached by (simp add: held_append)
    then show ?thesis
      using connect_adds [OF assms(1,2) own(1) IH(2), of c] IH Attached after by (auto simp: loop_keys_def)
  next
    case (Detached c)
    then have H: "c \<in># G" "H = G - {#c#}" using snoc.prems(1) G by (auto simp: held_append split: if_splits)
    have "count G c \<le> 1" using mset_subset_eq_count [OF IH(3), of c] once [of c] by linarith
    then have set: "set_mset H = set_mset G - {c}"
      unfolding H(2) by (auto simp: set_eq_iff count_greater_zero_iff [symmetric] simp del: count_greater_zero_iff)
    have "H \<subseteq># tally attaches (lg @ [e])"
      using IH(3) Detached by (simp add: H(2) subset_mset.order_trans [OF diff_subset_eq_self])
    then show ?thesis
      using disconnect_removes [OF own(1) IH(2), of mem c] IH Detached after
      by (auto simp: loop_keys_def set of_all_less own)
  qed (use snoc.prems G IH after in \<open>auto simp: held_append loop_keys_def\<close>)
qed

text \<open>
  C35. After any run of the registry on a main loop, the loop has the watches and timeouts of
  exactly the connections of the services, whatever was connected, lost and reconnected before,
  and its other watches and children are as they were.
\<close>

theorem loop_watches_live_connections:
  assumes "\<forall>n. mem n" "reg_run mem es ctx bus" "length es < 0xffff"
    and "\<forall>w. fst (sy_gettimeofday sys w) \<noteq> None" "own_watches sys W T"
    and "dbus_keys st = []" "timeout_keys st = []" "\<And>c. count (tally opens (bus_log bus)) c \<le> 1"
  shows "set (dbus_keys (loop_after mem sys (bus_log bus) st)) = of_all W (set_mset (live (ctx_services ctx)))
    \<and> set (timeout_keys (loop_after mem sys (bus_log bus) st)) = of_all T (set_mset (live (ctx_services ctx)))
    \<and> fd_keys (loop_after mem sys (bus_log bus) st) = fd_keys st
    \<and> pid_keys (loop_after mem sys (bus_log bus) st) = pid_keys st"
proof -
  have b: "held attaches detaches (bus_log bus) = Some (live (ctx_services ctx))"
    "tally attaches (bus_log bus) \<subseteq># tally opens (bus_log bus)"
    using run_implements [OF assms(1-3)] by (simp_all add: implements_def balanced_def)
  have "count (tally attaches (bus_log bus)) c \<le> 1" for c
    using mset_subset_eq_count [OF b(2), of c] assms(8) [of c] by linarith
  from loop_after_log [OF assms(1,4-7) b(1) this] show ?thesis by (simp add: loop_keys_def)
qed

text \<open>A connection with two watches and a timeout on the loop of a run.\<close>

definition pair_system :: "unit system" where
  "pair_system = still_system\<lparr>
     sy_watch_functions := \<lambda>c on w. (w, map (if on then Op_dbus_watch_add else Op_dbus_watch_remove) [2 * c, 2 * c + 1]),
     sy_timeout_functions := \<lambda>c on w. (w, map (if on then Op_timeout_add else Op_timeout_remove) [c])\<rparr>"

theorem loop_watches_live_connections_witness:
  "\<exists>bus. reg_run (\<lambda>_. True) sample_history (sample_registry [sample_service 3 ''a'']) bus
    \<and> set (dbus_keys (loop_after (\<lambda>_. True) pair_system (bus_log bus) (empty_loop ()))) = {6, 7}"
proof -
  obtain bus where run: "reg_run (\<lambda>_. True) sample_history (sample_registry [sample_service 3 ''a'']) bus"
    "tally opens (bus_log bus) = {#3#}"
    using sample_run_log by blast
  have own: "own_watches pair_system (\<lambda>c. [2 * c, 2 * c + 1]) (\<lambda>c. [c])"
    by (auto simp: own_watches_def hands_over_def pair_system_def)
  have live: "live (ctx_services (sample_registry [sample_service 3 ''a''])) = {#3#}"
    by (simp add: live_def conn_of_def sample_registry_def sample_service_def)
  have keys: "dbus_keys (empty_loop ()) = []" "timeout_keys (empty_loop ()) = []"
    by (simp_all add: empty_loop_def key_defs)
  have clock: "\<forall>w. fst (sy_gettimeofday pair_system w) \<noteq> None" by (simp add: pair_system_def still_system_def)
  have once: "count (tally opens (bus_log bus)) c \<le> 1" for c by (simp add: run(2))
  have "set (dbus_keys (loop_after (\<lambda>_. True) pair_system (bus_log bus) (empty_loop ()))) = {6, 7}"
    using loop_watches_live_connections [OF _ run(1) sample_history_short clock own keys once] live
    by (simp add: of_all_def)
  with run(1) show ?thesis by blast
qed

end
