(* ===== verification/Spec2Isabelle.thy ===== *)
theory Spec2Isabelle
  imports Args Cmdline Buffer Gpupdate Selinux Dispatch Histories Reply Client Pam Loop_Walks Loop_Select Loop_Connect
    Service Registry_Loop
begin

text \<open>
  \<^bold>\<open>The program.\<close> oddjob-gpupdate applies group policies when a session opens. The PAM
  module asks, over the system message bus, a service for the method \<open>gpupdatefor\<close> with the
  user's name; the service dispatches the message to a registered handler; the helper program
  \<open>gpupdate\<close> reads the name from its standard input, checks the account and runs the policy
  applier. This library models the C code under src/src from the source; the theories follow its files:

  \<^item> \<open>Prelude\<close>: results (\<open>'a res\<close>: a fault or a value), memory cells and
    arrays with checked accesses, strings, numbers as text, lemma collections. A fault stands for abort,
    exit, a NULL pointer, an access out of bounds, use after free, reading what was never written,
    overflow of a signed integer, or a loop that does not end (\<open>Diverges\<close>).
  \<^item> \<open>Memory\<close>, \<open>Args\<close>, \<open>Cmdline\<close> (util.c): allocation,
    \<open>oddjob_resize_array\<close>, \<open>retry_write\<close>, \<open>oddjob_collect_args\<close>,
    \<open>oddjob_parse_args\<close>. \<open>Buffer\<close> (buffer.c): the byte buffer.
    \<open>Gpupdate\<close> (gpupdate.c): the helper up to \<open>execl\<close>. \<open>Selinux\<close>
    (selinux.c): labelled creation of directories.
  \<^item> \<open>Tables\<close>: the counted arrays that oddjob_dbus.c keeps at four levels, their
    search, growth and removal, with the interface \<open>named_table\<close>. \<open>Ledger\<close>: what
    is held after a log of events. \<open>Registry\<close> (oddjob_dbus.c 50-307, 567-588, 856-1135):
    services, objects, interfaces and methods, and the connections to the bus. \<open>Message\<close>
    (309-565, 1137-1150): message objects. \<open>Dispatch\<close> (590-854): the filter.
    \<open>Histories\<close>: runs of the registry; \<open>Registry_Loop\<close>: those runs on a main
    loop. \<open>Reply\<close> (1152-1353): the responses. \<open>Client\<close> (1355-1504, 1535-1551):
    method calls.
  \<^item> \<open>Pam\<close> (pam_oddjob_gpupdate.c): options, account look-up, request, conversation.
  \<^item> \<open>Chains\<close>: linked lists and the loops over them. \<open>Mainloop\<close>
    (mainloop.c): the lists of watches, timeouts and children, \<open>prepare\<close>,
    \<open>handle\<close>, \<open>mainloop_iterate\<close>, signals. \<open>Loop_Walks\<close>,
    \<open>Loop_Select\<close> and \<open>Loop_Connect\<close>: what its loops and connections do.
    \<open>Iterate\<close> (oddjob_dbus.c 1506-1533): an iteration of the service, whose messages go
    through the filter; \<open>Service\<close>: which messages it takes and what the filter says to each.
  \<^item> This theory joins the module, the client, the filter, the responses and the helper.

  \<^bold>\<open>State.\<close> \<open>registry\<close> is \<open>struct oddjob_dbus_context\<close> with
  its nested arrays; every array is a \<open>table\<close> of slots and a count, as in the code, so that a
  wrong count is an access out of bounds. \<open>ctx_array\<close> numbers the allocations of the array of
  services: a pointer into it is an allocation and an index (\<open>service_ptr\<close>), and following it
  when the array is another one is a use after free (\<open>points_to\<close>). \<open>mainloop\<close> holds the three static lists of
  mainloop.c; a node is an address with its content. \<open>message\<close> is \<open>struct
  oddjob_dbus_message\<close>; \<open>oddjob_buffer\<close> the buffer with cells that may be unwritten.
  Connections, handlers, watches and their data are addresses.

  \<^bold>\<open>Parameters.\<close> What is not in the repository is an argument: \<open>avail\<close>
  (whether \<open>malloc\<close> gives that many bytes), \<open>bus\<close> and \<open>transport\<close>
  (the answers of libdbus, with a log of the calls that change something, of the seconds slept and of the
  names copied and released), \<open>env\<close> (\<open>fnmatch\<close>, \<open>getpwuid\<close>, the uid
  of a sender), \<open>pam_handle\<close>, \<open>system\<close> (clock, \<open>select\<close>,
  \<open>waitpid\<close>, libdbus watches and timeouts, the functions of clients, on an arbitrary world)
  and \<open>connections\<close>. A callback changes the main loop by the list operations it calls.
  Hypotheses on these are stated in the theorems: memory is available; a function removes nothing from the
  list that is walked when it is called (\<open>tame\<close>); the password database answers
  (\<open>answers_at\<close>); where the service asks the bus for SELinux contexts, the sender's fits the
  message (\<open>context_fits\<close>). Of libdbus: finitely many messages come in while an iteration of the
  service runs, whichever of its functions lets them in, a dispatch with data takes a message and a flush
  sends one (\<open>queues\<close>); the messages of a connection are taken in order and each is handled
  (\<open>delivers\<close>); between the client and the service, the bus sets sender and serial and hands
  back the first message the service sends, an error as a \<open>DBusError\<close> (\<open>carries\<close>).
  Setting the file-creation context may fail, which changes \<open>errno\<close> (\<open>Selinux\<close>).

  \<^bold>\<open>What is shown.\<close>
  \<^item> From end to end, for a user whose account is not that of the process, on a bus that carries the
    messages (\<open>carries\<close>) and without the option debug: with a handler that gives the helper
    the arguments as lines, a session runs the policy applier for exactly its user and shows what came of
    it (\<open>session_runs_applier\<close>); a session sends one request, it reaches the registered handler
    with the user and the authenticated uid, and the handler's output is shown
    (\<open>session_reaches_handler\<close>); a sender without an account or a name with a
    line break is refused with an error that is shown (\<open>session_shows_refusal\<close>); the
    arguments of any call survive the way to the helper as lines
    (\<open>called_args_survive_lines\<close>).
  \<^item> Refinement: the registry's nested arrays implement a finite map of offers under adding and
    removing; the filter implements a specification over that map and only calls handlers for authorised,
    well-formed calls; read in order, the log of the bus never closes or detaches what is not open or
    attached, and what it leaves are the connections of the services (\<open>held\<close>,
    \<open>balanced\<close>); in the same way the names copied and not released are those in the arrays
    and those that were lost (\<open>accounted\<close>). After any run, the registry offers what the
    history of the run says, and whoever is called was added and neither replaced nor removed since
    (\<open>Histories\<close>); the main loop watches the live connections (\<open>Registry_Loop\<close>).
    The byte buffer never faults, and implements strings with consumed bytes in front unless fewer bytes
    than those are prepended (\<open>buffer_runs\<close>).
  \<^item> Invariants: nothing is registered twice in any reachable main loop and every iteration ends
    whatever its callbacks do; with tame callbacks its loops visit exactly the lists. An iteration of the
    service reacts to every waiting message once and in order (\<open>service_answers_waiting\<close>).
  \<^item> Functional behaviour, bounds, round trips and errors of each part. Faults the code really has
    are theorems of their own: the service array resized by the wrong counts, the filter's test that never
    holds, a service added by a handler that is being dispatched (both follow from the stale pointer into
    the array), a negative time for
    \<open>select\<close>, the saved next pointer, a cleared buffer's old text, a prepend that loses
    bytes, an argument vector without its NULL, an escape that is never consumed.

  \<^bold>\<open>Loops and bounds.\<close> Loops over counted arrays take the count as fuel.
  \<open>walk\<close> (lists that change under the loop) and \<open>look_up_account\<close> are partial
  functions: a walk ends because new nodes go to the front with higher addresses, so the addresses visited
  fall; the look-up ends if some size below the limit of \<open>size_t\<close> suffices. The connection
  loop takes the answers of the bus and is \<open>Diverges\<close> when they run out, and returns as soon
  as an answer is a connection that is up, if that is before the attempts, counted in an
  \<open>int\<close>, overflow (\<open>connect_keeps_trying\<close>); dispatching and flushing are
  \<open>while_option\<close> and end as the queues empty. \<open>int\<close> has 32 bits,
  \<open>size_t\<close> and \<open>unsigned long\<close> 64, an \<open>fd_set\<close> 1024. The uid
  the bus gives for a sender is an \<open>unsigned long\<close>, cut to the 32 bits of
  \<open>uid_t\<close> for the look-up and compared with the account found.

  \<^bold>\<open>Not modelled.\<close> Output to syslog and stderr; the headers (prototypes), build and
  packaging files, the D-Bus policy and the two shell scripts; the daemon that registers handlers, which
  is not in this repository (that its handler passes the helper the arguments as lines is a hypothesis of
  \<open>session_runs_applier\<close>, and a parameter says what it makes of the helper's run); the internals
  of libdbus, PAM and the kernel. \<open>dbus_message_append_args\<close> and
  \<open>dbus_message_new_error\<close>, whose results the code does not look at, are taken to succeed: what
  libdbus does without memory, or with text that is not UTF-8, is left out. A security context is read
  from an array of bytes only. A dispatched message may add methods to the registry and remove some;
  callbacks of the main loop itself may not.
\<close>

section \<open>A bus with the service on it\<close>

text \<open>
  What libdbus gives the caller for a message the server sends: an error message becomes a
  \<open>DBusError\<close> of its name and its first string.
\<close>

definition error_string :: "error_name \<Rightarrow> string" where
  "error_string name = ''ru.basealt.oddjob.Error.'' @ (case name of
       Unknown_sender \<Rightarrow> ''UnknownSender'' | No_object \<Rightarrow> ''NoObject'' | No_interface \<Rightarrow> ''NoInterface''
     | No_method \<Rightarrow> ''NoMethod'' | Unimplemented_method \<Rightarrow> ''UnimplementedMethod''
     | Unknown_user \<Rightarrow> ''UnknownUser'' | Invalid_call \<Rightarrow> ''InvalidCall'')"

definition delivered_error :: "reply \<Rightarrow> dbus_error" where
  "delivered_error r = (case r_error r of None \<Rightarrow> '''' | Some name \<Rightarrow> name,
     case r_args r of Arg_string s # _ \<Rightarrow> s | _ \<Rightarrow> '''')"

text \<open>
  The client's transport when the service is on the bus: there is a connection; a message arrives at the
  filter with the sender and the serial the bus sets. If the filter calls a handler, and what is sent in
  response to its result and its two buffers begins with a reply, that reply, or one with its arguments,
  comes back; if the filter replies with an error, that error comes back.
\<close>

definition carries ::
  "transport \<Rightarrow> avail \<Rightarrow> env \<Rightarrow> registry \<Rightarrow> nat \<Rightarrow> string \<Rightarrow> nat \<Rightarrow> dbus_lib
     \<Rightarrow> (call \<Rightarrow> int \<times> oddjob_buffer \<times> oddjob_buffer) \<Rightarrow> bool" where
  "carries tr mem env ctx conn sender serial lib handler \<longleftrightarrow> (\<exists>c. tr_get tr = Inr c)
     \<and> (\<forall>m timeout.
       let d = m\<lparr>dm_sender := Some sender, dm_serial := serial\<rparr>;
           msg = \<lparr>msg_conn = Some conn, msg_msg = Some d, msg_result = 0, msg_args = empty_table, msg_context = None\<rparr>
       in (\<forall>c r rs. oddjob_dbus_filter mem env ctx conn d = Inr (Called c)
              \<and> (case handler c of (result, outc, errc) \<Rightarrow>
                   oddjob_dbus_send_message_response_success lib msg result outc errc False) = Inr (r # rs)
            \<longrightarrow> (\<exists>answer. tr_call tr m timeout = (Some answer, None) \<and> dm_args answer = r_args r))
        \<and> (\<forall>name reason r rs. oddjob_dbus_filter mem env ctx conn d = Inr (Replied name reason)
              \<and> oddjob_dbus_send_message_response_error lib msg (error_string name) reason = Inr (r # rs)
            \<longrightarrow> tr_call tr m timeout = (None, Some (delivered_error r))))"

section \<open>A session on a bus with the service\<close>

text \<open>What the handler is called with for a request of the module.\<close>

definition request_call :: "nat \<Rightarrow> nat option \<Rightarrow> string \<Rightarrow> unsigned_long \<Rightarrow> string \<Rightarrow> call" where
  "request_call h data caller uid user = \<lparr>call_handler = h, call_args = [Some user],
     call_service = Some ''ru.basealt.oddjob_gpupdate'', call_path = ''/'',
     call_interface = Some ''ru.basealt.oddjob_gpupdate'', call_member = ''gpupdatefor'',
     call_user = caller, call_uid = uid, call_data = data\<rparr>"

text \<open>The registered method, and no other object of the service that the path would match.\<close>

definition serves_requests :: "env \<Rightarrow> registry \<Rightarrow> nat \<Rightarrow> nat \<Rightarrow> nat option \<Rightarrow> bool" where
  "serves_requests env ctx conn h data \<longleftrightarrow>
     (\<exists>srv. List.find (\<lambda>s. srv_conn s = Some conn) (entries (ctx_services ctx)) = Some srv
       \<and> srv_name srv = Some ''ru.basealt.oddjob_gpupdate''
       \<and> service_offers srv ''/'' ''ru.basealt.oddjob_gpupdate'' ''gpupdatefor'' = Some (1, Some h, data)
       \<and> list_all (\<lambda>x. env_fnmatch env (the (obj_path x)) ''/'' = (obj_path x = Some ''/'')) (entries (srv_objects srv)))"

definition request_outcome :: "env \<Rightarrow> nat \<Rightarrow> nat \<Rightarrow> nat option \<Rightarrow> string \<Rightarrow> string \<Rightarrow> reaction" where
  "request_outcome env conn h data sender user =
     (let uid = env_unix_user env conn sender
      in if account_name env uid = None then Replied Unknown_user (''UID='' @ show_nat (unat uid))
         else if line_break user then Replied Invalid_call ''invalid invocation''
         else Called (request_call h data (the (account_name env uid)) uid user))"

lemma request_filtered:
  assumes "\<forall>n. mem n" "registry_ok N ctx" "context_fits (env_acl env) (ctx_selinux ctx) (Some sender)"
    "serves_requests env ctx conn h data" "nul_free user"
  shows "oddjob_dbus_filter mem env ctx conn ((request_message user)\<lparr>dm_sender := Some sender, dm_serial := k\<rparr>)
    = Inr (request_outcome env conn h data sender user)"
proof -
  let ?d = "(request_message user)\<lparr>dm_sender := Some sender, dm_serial := k\<rparr>"
  obtain srv where srv: "List.find (\<lambda>s. srv_conn s = Some conn) (entries (ctx_services ctx)) = Some srv"
    "srv_name srv = Some ''ru.basealt.oddjob_gpupdate''"
    "service_offers srv ''/'' ''ru.basealt.oddjob_gpupdate'' ''gpupdatefor'' = Some (1, Some h, data)"
    "list_all (\<lambda>x. env_fnmatch env (the (obj_path x)) ''/'' = (obj_path x = Some ''/'')) (entries (srv_objects srv))"
    using assms(4) by (auto simp: serves_requests_def)
  have arg: "strings_of [Arg_string user] = [user]" by (simp add: strings_of_def)
  then have args: "strings_of (dm_args ?d) = [user]" by (simp add: request_message_def)
  have d: "good_args ?d" "callable ctx ?d" "served_by ctx conn = Some srv" "dm_sender ?d = Some sender"
    "dm_path ?d = Some ''/''" "dm_member ?d = Some ''gpupdatefor''" "dm_interface ?d = Some ''ru.basealt.oddjob_gpupdate''"
    using srv(1) assms(5)
    by (simp_all add: good_args_def args callable_def is_disconnect_def is_signal_def oddjob_dbus_message_has_path_def
        served_by_def) (simp_all add: request_message_def arg)
  obtain obj interface meth where o: "lookup obj_path (srv_objects srv) ''/'' = Some obj"
    "lookup if_name (obj_interfaces obj) ''ru.basealt.oddjob_gpupdate'' = Some interface"
    "lookup meth_name (if_methods interface) ''gpupdatefor'' = Some meth" "offer_of meth = (1, Some h, data)"
    using srv(3) by (auto simp: offers_defs bind_eq_Some_conv)
  have "List.find (\<lambda>x. env_fnmatch env (the (obj_path x)) ''/'') (entries (srv_objects srv))
      = List.find (\<lambda>x. obj_path x = Some ''/'') (entries (srv_objects srv))"
    using srv(4) by (intro find_cong) (auto simp: list_all_iff)
  then have found: "List.find (\<lambda>x. env_fnmatch env (the (obj_path x)) ''/'') (entries (srv_objects srv)) = Some obj"
    using o(1) by (simp add: lookup_def)
  have "spec_dispatch env conn [user] sender srv ''/'' (Some ''ru.basealt.oddjob_gpupdate'') ''gpupdatefor''
      = request_outcome env conn h data sender user"
    using found o srv(2) interfaces.lookup_Some [OF o(2)]
    by (simp add: spec_dispatch_def spec_call_def Let_def request_call_def offer_of_def request_outcome_def)
  with filter_spec [OF assms(1,2) d(1) _ d(3,4)] assms(3) d args show ?thesis by simp
qed

lemma request_dispatched:
  assumes "\<forall>n. mem n" "registry_ok N ctx" "context_fits (env_acl env) (ctx_selinux ctx) (Some sender)"
    "serves_requests env ctx conn h data"
    "account_name env (env_unix_user env conn sender) = Some caller"
    "nul_free user" "\<not> line_break user"
  shows "oddjob_dbus_filter mem env ctx conn ((request_message user)\<lparr>dm_sender := Some sender, dm_serial := k\<rparr>)
    = Inr (Called (request_call h data caller (env_unix_user env conn sender) user))"
  unfolding request_filtered [OF assms(1-4,6)] using assms(5,7)
  by (simp add: request_outcome_def)

lemma service_answer:
  assumes "\<forall>n. mem n" "registry_ok N ctx" "context_fits (env_acl env) (ctx_selinux ctx) (Some sender)"
    "serves_requests env ctx conn h data"
    "account_name env (env_unix_user env conn sender) = Some caller"
    "nul_free user" "\<not> line_break user" "lib_return lib" "carries tr mem env ctx conn sender serial lib handler"
    "handler (request_call h data caller (env_unix_user env conn sender) user) = (result, outc, errc)"
    "buffer_ok outc" "buffer_ok errc"
  shows "\<exists>answer. tr_call tr (request_message user) timeout = (Some answer, None)
    \<and> dm_args answer = [Arg_int32 result, Arg_string (buffer_text outc), Arg_string (buffer_text errc)]"
proof -
  let ?d = "(request_message user)\<lparr>dm_sender := Some sender, dm_serial := serial\<rparr>"
  let ?msg = "\<lparr>msg_conn = Some conn, msg_msg = Some ?d, msg_result = 0, msg_args = empty_table, msg_context = None\<rparr>"
  let ?reply = "reply_to Method_return None ?d [Arg_int32 result, Arg_string (buffer_text outc), Arg_string (buffer_text errc)]"
  have sent: "oddjob_dbus_send_message_response_success lib ?msg result outc errc False = Inr [?reply]"
    by (simp add: assms(8) success_args_ok [OF assms(11,12)] oddjob_dbus_send_message_response_success_def
        send_return_and_signal_ok signalled_def request_message_def)
  have "\<exists>answer. tr_call tr (request_message user) timeout = (Some answer, None) \<and> dm_args answer = r_args ?reply"
    using assms(9) [unfolded carries_def Let_def, THEN conjunct2, rule_format, THEN conjunct1, rule_format,
        of "request_message user", OF conjI, OF request_dispatched [OF assms(1-7)]] sent assms(10) by simp
  then show ?thesis by (simp add: reply_to_def)
qed

lemma session_shows:
  assumes "\<forall>n. mem n" "ph_user ph = Some user" "user \<noteq> []" "list_all usable (timeouts argv)" "''debug'' \<notin> set argv"
    "answers_at ph user n" "account_of ph user n = Some pw" "ph_uid ph \<noteq> ac_uid pw \<or> ph_euid ph \<noteq> ac_uid pw"
    "tr_get tr = Inr c" "\<And>t. sound_answer tr user t" "\<And>t. answer_text tr user t = shown"
  shows "pam_sm_open_session mem a tr ph argv
    = Inr (PAM_IGNORE, request_event user (last (- 1 # map (\<lambda>i. i * 1000) (timeouts argv))) # told ph shown)"
proof -
  have none: "complaints ph (dropWhile (\<lambda>arg. arg \<noteq> ''debug'') argv) = []"
  proof -
    have "dropWhile (\<lambda>arg. arg \<noteq> ''debug'') argv = []" using assms(5) by (auto simp: dropWhile_eq_Nil_conv)
    then show ?thesis unfolding complaints_def by (simp only: map_filter_def) simp
  qed
  with open_session_events [OF assms(1-4,6,10)] assms(5,7-9,11) show ?thesis
    by (auto simp: session_events_def Let_def none)
qed

lemma session_answered:
  assumes "\<forall>n. mem n" "registry_ok N ctx" "context_fits (env_acl env) (ctx_selinux ctx) (Some sender)"
    "serves_requests env ctx conn h data"
    "account_name env (env_unix_user env conn sender) = Some caller"
    "nul_free user" "\<not> line_break user" "lib_return lib" "carries tr mem env ctx conn sender serial lib handler"
    "handler (request_call h data caller (env_unix_user env conn sender) user) = (result, outc, errc)"
    "buffer_ok outc" "buffer_ok errc"
    "ph_user ph = Some user" "user \<noteq> []" "list_all usable (timeouts argv)" "''debug'' \<notin> set argv"
    "answers_at ph user n" "account_of ph user n = Some pw" "ph_uid ph \<noteq> ac_uid pw \<or> ph_euid ph \<noteq> ac_uid pw"
  shows "pam_sm_open_session mem a tr ph argv
    = Inr (PAM_IGNORE, request_event user (last (- 1 # map (\<lambda>i. i * 1000) (timeouts argv)))
                         # told ph (buffer_text outc))"
proof -
  note answer = service_answer [where handler = handler and tr = tr, OF assms(1-12)]
  have texts: "strings_of [Arg_int32 result, Arg_string (buffer_text outc), Arg_string (buffer_text errc)]
      = [buffer_text outc, buffer_text errc]"
    by (simp add: strings_of_def)
  obtain c where get: "tr_get tr = Inr c" using assms(9) by (auto simp: carries_def)
  have sound: "sound_answer tr user t" for t
    using answer [of t] assms(11,12) by (auto simp: sound_answer_def texts buffer_ok_def)
  have shown: "answer_text tr user t = buffer_text outc" for t
    using answer [of t] by (auto simp: answer_text_def get texts)
  show ?thesis by (rule session_shows [OF assms(1,13-19) get sound shown])
qed

text \<open>
  C2. Let the bus carry messages between the module and a service that offers the request
  method. For a user with an account, whose name has no NUL and no line break, when the real or
  the effective uid of the process is not that account's, the sender has an account, the
  options have no debug and only usable timeouts, libdbus can make the reply and the handler's
  buffers are well formed, opening a session sends exactly one request: the filter passes it to
  the registered handler with the user as its only argument and the sender's uid and name, and
  the text the handler left in its output buffer is what the module shows to the user; the
  session continues with PAM_IGNORE.
\<close>

theorem session_reaches_handler:
  assumes "\<forall>n. mem n" "registry_ok N ctx" "context_fits (env_acl env) (ctx_selinux ctx) (Some sender)"
    "serves_requests env ctx conn h data"
    "account_name env (env_unix_user env conn sender) = Some caller"
    "nul_free user" "\<not> line_break user" "lib_return lib" "carries tr mem env ctx conn sender serial lib handler"
    "handler (request_call h data caller (env_unix_user env conn sender) user) = (result, outc, errc)"
    "buffer_ok outc" "buffer_ok errc"
    "ph_user ph = Some user" "user \<noteq> []" "list_all usable (timeouts argv)" "''debug'' \<notin> set argv"
    "answers_at ph user n" "account_of ph user n = Some pw" "ph_uid ph \<noteq> ac_uid pw \<or> ph_euid ph \<noteq> ac_uid pw"
  shows "pam_sm_open_session mem a tr ph argv
    = Inr (PAM_IGNORE, request_event user (last (- 1 # map (\<lambda>i. i * 1000) (timeouts argv)))
                         # told ph (buffer_text outc))"
  by (rule session_answered [where handler = handler and tr = tr, OF assms])

section \<open>Requests that are refused\<close>

definition refusal :: "env \<Rightarrow> unsigned_long \<Rightarrow> string" where
  "refusal env uid =
     (if account_name env uid = None then ''ru.basealt.oddjob.Error.UnknownUser: UID='' @ show_nat (unat uid)
      else ''ru.basealt.oddjob.Error.InvalidCall: invalid invocation'')"

lemma refused_answer:
  assumes "\<forall>n. mem n" "registry_ok N ctx" "context_fits (env_acl env) (ctx_selinux ctx) (Some sender)"
    "serves_requests env ctx conn h data" "nul_free user"
    "lib_error lib" "account_name env (env_unix_user env conn sender) = None \<or> line_break user"
    "carries tr mem env ctx conn sender serial lib handler"
  shows "\<exists>name text. tr_call tr (request_message user) timeout = (None, Some (name, text))
    \<and> name @ '': '' @ text = refusal env (env_unix_user env conn sender)"
proof -
  let ?uid = "env_unix_user env conn sender"
  let ?d = "(request_message user)\<lparr>dm_sender := Some sender, dm_serial := serial\<rparr>"
  let ?msg = "\<lparr>msg_conn = Some conn, msg_msg = Some ?d, msg_result = 0, msg_args = empty_table, msg_context = None\<rparr>"
  obtain name reason where n: "oddjob_dbus_filter mem env ctx conn ?d = Inr (Replied name reason)"
    "error_string name @ '': '' @ reason = refusal env ?uid"
    unfolding request_filtered [OF assms(1-5)] request_outcome_def refusal_def Let_def
    using assms(7) by (cases "account_name env ?uid") (auto simp: error_string_def intro!: that)
  obtain r where r: "oddjob_dbus_send_message_response_error lib ?msg (error_string name) reason = Inr [r]"
    "delivered_error r = (error_string name, reason)"
    using assms(6) by (auto simp: oddjob_dbus_send_message_response_error_def delivered_error_def reply_to_def)
  have "tr_call tr (request_message user) timeout = (None, Some (delivered_error r))"
    using assms(8) [unfolded carries_def Let_def, THEN conjunct2, rule_format, THEN conjunct2, rule_format,
        of "request_message user", OF conjI, OF n(1) r(1)] .
  with r(2) n(2) show ?thesis by simp
qed

text \<open>
  C14. Let the bus carry messages between the module and a service that offers the request
  method, and let a session (without debug, with usable timeouts) be opened for a user with an
  account that is not the one of the process. When the sender's uid has no account, or the
  user's name contains a line break, the filter refuses the request before any handler is
  called, whatever the handler, and the session shows the text of the error, UnknownUser or
  InvalidCall, and continues with PAM_IGNORE.
\<close>

theorem session_shows_refusal:
  assumes "\<forall>n. mem n" "registry_ok N ctx" "context_fits (env_acl env) (ctx_selinux ctx) (Some sender)"
    "serves_requests env ctx conn h data" "nul_free user"
    "lib_error lib" "account_name env (env_unix_user env conn sender) = None \<or> line_break user"
    "carries tr mem env ctx conn sender serial lib handler"
    "ph_user ph = Some user" "user \<noteq> []" "list_all usable (timeouts argv)" "''debug'' \<notin> set argv"
    "answers_at ph user n" "account_of ph user n = Some pw" "ph_uid ph \<noteq> ac_uid pw \<or> ph_euid ph \<noteq> ac_uid pw"
  shows "pam_sm_open_session mem a tr ph argv
    = Inr (PAM_IGNORE, request_event user (last (- 1 # map (\<lambda>i. i * 1000) (timeouts argv)))
                         # told ph (refusal env (env_unix_user env conn sender)))"
proof -
  note answer = refused_answer [where tr = tr and handler = handler, OF assms(1-8)]
  obtain c where get: "tr_get tr = Inr c" using assms(8) by (auto simp: carries_def)
  have sound: "sound_answer tr user t" for t
    using answer [of t] by (auto simp: sound_answer_def)
  have shown: "answer_text tr user t = refusal env (env_unix_user env conn sender)" for t
    using answer [of t] by (auto simp: answer_text_def get)
  show ?thesis by (rule session_shows [OF assms(1,9-15) get sound shown])
qed

section \<open>The arguments on the way to the helper\<close>

text \<open>
  C15. The arguments of every call of a handler the filter makes, written one per line, are
  read back by oddjob_collect_args as the same vector followed by NULL, or as no vector at all
  if the call has no arguments: the check for line breaks keeps arguments from being split or
  joined.
\<close>

theorem called_args_survive_lines:
  assumes "\<forall>n. mem' n" "registry_ok N ctx" "\<forall>s \<in> set (strings_of (dm_args d)). nul_free s"
    and "oddjob_dbus_filter mem env ctx conn d = Inr (Called c)"
    and "2 \<le> bufsiz" "length (call_args c) + 2 \<le> 0xffff"
  shows "oddjob_collect_args mem' bufsiz (concat (map (\<lambda>a. the a @ [LF]) (call_args c)))
    = Inr (if call_args c = [] then None else Some (call_args c @ [None]))"
proof -
  let ?ss = "strings_of (dm_args d)"
  have c: "call_args c = map Some ?ss" "\<forall>a \<in> set ?ss. \<not> line_break a"
    using call_authorised [OF assms(2-4)] by blast+
  have "\<forall>l \<in> set ?ss. line_ok l"
    using c(2) assms(3) by (auto simp: line_ok_def plain_def line_break_def nul_free_def)
  then show ?thesis
    using collect_args_stream [OF assms(1,5), of ?ss "[]"] assms(6) c(1)
    by (simp add: comp_def vector_of_def line_ok_def plain_def)
qed

section \<open>From the session to the policy applier\<close>

text \<open>
  What the daemon gives the helper on its standard input for a call: the arguments, one per line
  (\<open>arguments\<close> of the helper in oddjobd-gpupdate.conf.in).
\<close>

definition args_as_lines :: "call \<Rightarrow> string" where
  "args_as_lines c = concat (map (\<lambda>a. the a @ [LF]) (call_args c))"

text \<open>What the helper ends up with for one user, by the options it has.\<close>

definition applier_run :: "os \<Rightarrow> opt list \<Rightarrow> string \<Rightarrow> ending list" where
  "applier_run os opts user =
     (let exe = last (default_gpoa # paths opts);
          out = (if Opt_q \<in> set opts then [] else ''Apply group policies for '' @ user @ ''.'')
      in [if os_exec os exe then Becomes exe (exe # (if Opt_f \<in> set opts then [''--force''] else []) @ [user])
          else Exits HANDLER_FAILURE out,
          Exits (if os_waitpid os then 0 else HANDLER_FAILURE) out])"

lemma helper_runs_applier:
  assumes "\<forall>n. mem n" "2 \<le> bufsiz" "Opt_bad \<notin> set (getopt_words hargv)" "nul_free user" "\<not> line_break user"
    "user \<noteq> []" "check_account os (Some user) = Inr ()"
    "applicable os (last (default_gpoa # paths (getopt_words hargv)))" "os_fork os"
  shows "gpupdate_main mem bufsiz os hargv (user @ [LF]) = Inr (applier_run os (getopt_words hargv) user)"
proof -
  obtain flags where fl: "option_loop (getopt_words hargv) 0 default_gpoa
      = Some (flags, last (default_gpoa # paths (getopt_words hargv)))"
    "flags AND FLAG_QUIET \<noteq> 0 \<longleftrightarrow> Opt_q \<in> set (getopt_words hargv)"
    "flags AND FLAG_FORCE \<noteq> 0 \<longleftrightarrow> Opt_f \<in> set (getopt_words hargv)"
    using option_loop_flags [OF assms(3), of 0 default_gpoa] by auto
  have "line_ok user"
    using assms(4,5) by (auto simp: line_ok_def plain_def line_break_def nul_free_def)
  from gpupdate_user_run [OF assms(1,2) fl(1) this assms(6-9)] fl(2,3) show ?thesis
    by (simp add: applier_run_def Let_def exec_args_def announcement_def log_user_def)
qed

text \<open>
  C1. Let the bus carry messages between the module and a service that offers the request
  method, with a handler that gives the helper the arguments of the call as lines and answers
  with what it makes of the helper's run. For a user with an account, whose name has no NUL and
  no line break, when the real or the effective uid of the process is not that account's, the
  sender has an account, the options have no debug and only usable timeouts, libdbus can make
  the reply, the handler's buffers are well formed, and the helper's options, checks and fork
  succeed, opening a session sends one request and the helper's run it leads to is that of the
  policy applier, with --force if that option is set, for exactly that user; the session shows
  what the handler made of it.
\<close>

theorem session_runs_applier:
  assumes "\<forall>n. mem n" "registry_ok N ctx" "context_fits (env_acl env) (ctx_selinux ctx) (Some sender)"
    "serves_requests env ctx conn h data"
    "account_name env (env_unix_user env conn sender) = Some caller"
    "nul_free user" "\<not> line_break user" "lib_return lib" "carries tr mem env ctx conn sender serial lib handler"
    "\<And>c. handler c = collect (gpupdate_main mem bufsiz os hargv (args_as_lines c))"
    "2 \<le> bufsiz" "Opt_bad \<notin> set (getopt_words hargv)" "check_account os (Some user) = Inr ()"
    "applicable os (last (default_gpoa # paths (getopt_words hargv)))" "os_fork os"
    "collect (Inr (applier_run os (getopt_words hargv) user)) = (result, outc, errc)" "buffer_ok outc" "buffer_ok errc"
    "ph_user ph = Some user" "user \<noteq> []" "list_all usable (timeouts argv)" "''debug'' \<notin> set argv"
    "answers_at ph user n" "account_of ph user n = Some pw" "ph_uid ph \<noteq> ac_uid pw \<or> ph_euid ph \<noteq> ac_uid pw"
  shows "pam_sm_open_session mem a tr ph argv
    = Inr (PAM_IGNORE, request_event user (last (- 1 # map (\<lambda>i. i * 1000) (timeouts argv)))
                         # told ph (buffer_text outc))"
proof (rule session_answered [where handler = handler and tr = tr, OF assms(1-9) _ assms(17-25)])
  have "gpupdate_main mem bufsiz os hargv (user @ [LF]) = Inr (applier_run os (getopt_words hargv) user)"
    by (rule helper_runs_applier [OF assms(1,11,12,6,7,20,13-15)])
  then show "handler (request_call h data caller (env_unix_user env conn sender) user) = (result, outc, errc)"
    using assms(16) by (simp add: assms(10) args_as_lines_def request_call_def)
qed

section \<open>A service and a session\<close>

definition no_answer :: dbus_error where
  "no_answer = (''org.freedesktop.DBus.Error.NoReply'', ''no reply'')"

text \<open>A bus that does what \<open>carries\<close> asks for: the transport computes the answer of the service.\<close>

definition delivered :: "reply \<Rightarrow> dbus_msg" where
  "delivered r = \<lparr>dm_type = r_type r, dm_sender = None, dm_destination = r_destination r, dm_path = None,
     dm_interface = None, dm_member = None, dm_serial = r_serial r, dm_args = r_args r\<rparr>"

definition service_transport ::
  "avail \<Rightarrow> env \<Rightarrow> registry \<Rightarrow> nat \<Rightarrow> string \<Rightarrow> nat \<Rightarrow> dbus_lib \<Rightarrow> (call \<Rightarrow> int \<times> oddjob_buffer \<times> oddjob_buffer)
     \<Rightarrow> transport" where
  "service_transport mem env ctx conn sender serial lib handler = \<lparr>tr_get = Inr conn,
     tr_call = \<lambda>m timeout.
       let d = m\<lparr>dm_sender := Some sender, dm_serial := serial\<rparr>;
           msg = \<lparr>msg_conn = Some conn, msg_msg = Some d, msg_result = 0, msg_args = empty_table, msg_context = None\<rparr>
       in case oddjob_dbus_filter mem env ctx conn d of
            Inr (Called c) \<Rightarrow>
              (let (result, outc, errc) = handler c
               in case oddjob_dbus_send_message_response_success lib msg result outc errc False of
                    Inr (r # _) \<Rightarrow> (Some (delivered r), None)
                  | _ \<Rightarrow> (None, Some no_answer))
          | Inr (Replied name reason) \<Rightarrow>
              (case oddjob_dbus_send_message_response_error lib msg (error_string name) reason of
                 Inr (r # _) \<Rightarrow> (None, Some (delivered_error r))
               | _ \<Rightarrow> (None, Some no_answer))
          | _ \<Rightarrow> (None, Some no_answer)\<rparr>"

lemma service_transport_carries:
  "carries (service_transport mem env ctx conn sender serial lib handler) mem env ctx conn sender serial lib handler"
  by (auto simp: carries_def service_transport_def delivered_def Let_def split: prod.splits)

text \<open>A registry with the service.\<close>

definition gpupdate_service :: service where
  "gpupdate_service = \<lparr>srv_conn = Some 3, srv_name = Some ''ru.basealt.oddjob_gpupdate'', srv_objects = table_of
     [\<lparr>obj_path = Some ''/'', obj_interfaces = table_of
       [\<lparr>if_name = Some ''ru.basealt.oddjob_gpupdate'', if_methods = table_of
         [\<lparr>meth_name = Some ''gpupdatefor'', meth_args = 1, meth_handler = Some 64, meth_data = None\<rparr>]\<rparr>]\<rparr>]\<rparr>"

lemma gpupdate_registry: "registry_ok 1 (sample_registry [gpupdate_service])"
  "serves_requests sample_env (sample_registry [gpupdate_service]) 3 64 None"
proof -
  have nf: "nul_free ''ru.basealt.oddjob_gpupdate''" "nul_free ''/''" "nul_free ''gpupdatefor''"
    by (simp_all add: nul_free_def NUL_def)
  show "registry_ok 1 (sample_registry [gpupdate_service])"
    by (auto simp: registry_ok_def sample_registry_def gpupdate_service_def service_ok_def service_pre_def object_ok_def
        object_pre_def interface_ok_def interface_pre_def table_wf_def table_of_def lookup_def entries_def
        split: if_splits)
  show "serves_requests sample_env (sample_registry [gpupdate_service]) 3 64 None"
    by (simp add: serves_requests_def sample_registry_def gpupdate_service_def table_of_def entries_def offers_defs
        lookup_def offer_of_def sample_env_def)
qed

lemma joe_timeouts: "timeouts [''dbus_timeout=2''] = [2]"
  by code_simp

lemma joe_sample:
  "account_of sample_handle ''joe'' 2 = Some \<lparr>ac_name = ''joe'', ac_uid = 1000\<rparr>"
  "ph_uid sample_handle \<noteq> ac_uid \<lparr>ac_name = ''joe'', ac_uid = 1000\<rparr>"
  "nul_free ''joe''" "\<not> line_break ''joe''"
  "account_name sample_env (env_unix_user sample_env 3 '':1.7'') = Some ''joe''"
  "lib_return good_lib" "lib_error good_lib"
  by (simp_all add: account_of_def sample_handle_def nul_free_def NUL_def line_break_def CR_def LF_def sample_env_def
      good_lib_def account_name_def)

lemma joe_told: "told sample_handle (buffer_text sample_buffer) = [Text_info ''a'', Free_responses]"
  by (simp add: sample_buffer_ok(2) told_def conv_text_info_def sample_handle_def)

theorem session_reaches_handler_witness:
  "pam_sm_open_session (\<lambda>_. True) no_acl (service_transport (\<lambda>_. True) sample_env (sample_registry [gpupdate_service])
       3 '':1.7'' 9 good_lib (\<lambda>c. (0, sample_buffer, sample_buffer))) sample_handle [''dbus_timeout=2'']
     = Inr (PAM_IGNORE, [request_event ''joe'' 2000, Text_info ''a'', Free_responses])"
proof -
  show ?thesis
    using session_reaches_handler [where ph = sample_handle and argv = "[''dbus_timeout=2'']" and a = no_acl and serial = 9,
        OF _ gpupdate_registry(1) _ gpupdate_registry(2) joe_sample(5,3,4,6) service_transport_carries _ sample_buffer_ok(1) sample_buffer_ok(1)
        sample_session(1) _ sample_session(2) _ sample_session(3) joe_sample(1), where mem = "\<lambda>_. True"
        and handler = "\<lambda>c. (0, sample_buffer, sample_buffer)"] joe_sample(2)
    by (simp add: joe_timeouts joe_told)
qed

text \<open>
  The helper without options for the user joe, who has a home; the daemon answers with the sample
  output if the applier was run for joe.
\<close>

definition joe_os :: os where
  "joe_os = sample_os\<lparr>os_getpwnam := \<lambda>u. if u = ''joe'' then Some \<lparr>pw_dir = Some ''/home/joe''\<rparr> else None\<rparr>"

definition joe_collect :: "ending list res \<Rightarrow> int \<times> oddjob_buffer \<times> oddjob_buffer" where
  "joe_collect es =
     (if es = Inr [Becomes default_gpoa [default_gpoa, ''joe''], Exits 0 ''Apply group policies for joe.'']
      then (0, sample_buffer, sample_buffer) else (1, sample_buffer\<lparr>bused := 0\<rparr>, sample_buffer))"

theorem session_runs_applier_witness:
  "pam_sm_open_session (\<lambda>_. True) no_acl (service_transport (\<lambda>_. True) sample_env (sample_registry [gpupdate_service])
       3 '':1.7'' 9 good_lib (\<lambda>c. joe_collect (gpupdate_main (\<lambda>_. True) 8192 joe_os [] (args_as_lines c)))) sample_handle [''dbus_timeout=2'']
     = Inr (PAM_IGNORE, [request_event ''joe'' 2000, Text_info ''a'', Free_responses])"
proof -
  have os: "check_account joe_os (Some ''joe'') = Inr ()" "applicable joe_os (last (default_gpoa # paths (getopt_words [])))" "os_fork joe_os"
    "Opt_bad \<notin> set (getopt_words [])"
    using sample_os_simps by (simp_all add: joe_os_def check_account_def applicable_def paths_def)
  have run: "joe_collect (Inr (applier_run joe_os (getopt_words []) ''joe'')) = (0, sample_buffer, sample_buffer)"
    using sample_os_simps
    by (simp add: joe_collect_def applier_run_def joe_os_def paths_def)
  show ?thesis
    using session_runs_applier [where ph = sample_handle and argv = "[''dbus_timeout=2'']" and a = no_acl and serial = 9
        and bufsiz = 8192 and mem = "\<lambda>_. True" and collect = joe_collect,
        OF _ gpupdate_registry(1) _ gpupdate_registry(2) joe_sample(5,3,4,6) service_transport_carries refl _ os(4,1-3) run
        sample_buffer_ok(1) sample_buffer_ok(1) sample_session(1) _ sample_session(2) _ sample_session(3) joe_sample(1)] joe_sample(2)
    by (simp add: joe_timeouts joe_told)
qed

theorem session_shows_refusal_witness:
  "pam_sm_open_session (\<lambda>_. True) no_acl (service_transport (\<lambda>_. True) (sample_env\<lparr>env_unix_user := \<lambda>_ _. 7\<rparr>)
       (sample_registry [gpupdate_service]) 3 '':1.7'' 9 good_lib (\<lambda>c. (0, sample_buffer, sample_buffer)))
       sample_handle [''dbus_timeout=2'']
     = Inr (PAM_IGNORE, [request_event ''joe'' 2000, Text_info ''ru.basealt.oddjob.Error.UnknownUser: UID=7'', Free_responses])"
proof -
  let ?env = "sample_env\<lparr>env_unix_user := \<lambda>_ _. 7\<rparr>"
  have serves: "serves_requests ?env (sample_registry [gpupdate_service]) 3 64 None"
    using gpupdate_registry(2) by (simp add: serves_requests_def)
  have unknown: "account_name ?env 7 = None" by (simp add: account_name_def sample_env_def)
  then have unknown_sender: "account_name ?env (env_unix_user ?env 3 '':1.7'') = None" by simp
  have digit: "show_nat 7 = ''7''" by code_simp
  have seven: "refusal ?env 7 = ''ru.basealt.oddjob.Error.UnknownUser: UID=7''"
    using unknown by (simp add: refusal_def digit)
  have told: "told sample_handle ''ru.basealt.oddjob.Error.UnknownUser: UID=7''
      = [Text_info ''ru.basealt.oddjob.Error.UnknownUser: UID=7'', Free_responses]"
    by (simp add: told_def conv_text_info_def sample_handle_def)
  show ?thesis
    using session_shows_refusal [where ph = sample_handle and argv = "[''dbus_timeout=2'']" and a = no_acl and serial = 9
        and handler = "\<lambda>c. (0, sample_buffer, sample_buffer)" and mem = "\<lambda>_. True" and lib = good_lib,
        OF _ gpupdate_registry(1) _ serves joe_sample(3) joe_sample(7) disjI1 [OF unknown_sender] service_transport_carries
        sample_session(1) _ sample_session(2) _ sample_session(3) joe_sample(1)] joe_sample(2)
    by (simp add: joe_timeouts told seven)
qed

theorem called_args_survive_lines_witness:
  "oddjob_collect_args (\<lambda>_. True) 8192 [CHR ''x'', LF] = Inr (Some [Some ''x'', None])"
  using called_args_survive_lines [OF _ sample_registry_ok(2) _ sample_call_dispatched, of "\<lambda>_. True" 8192]
  by (simp add: sample_result_def NUL_def)

end
